(* ===== verification/Prelude.thy ===== *)
theory Prelude
  imports Main "HOL-Library.Word" "HOL-Library.Sublist"
begin

text \<open>
  The shared base of the development: names for the machine types of the C++ sources, the
  result type used for code that throws, the collections of rewrite rules the component
  theories fill, and the generic facts on lists, words and byte strings they share.

  \<^item> \<open>byte\<close> is \<open>unsigned char\<close>; \<open>u16\<close>, \<open>u32\<close> and \<open>u64\<close> are the unsigned fixed-width types.
  \<^item> A function that may throw returns \<open>'e + 'a\<close>, \<open>Inl\<close> being the exception or error code;
    \<open>bindE\<close> is sequencing that stops at the first error.
  \<^item> \<open>le_val\<close> and \<open>le_bytes\<close> are the little-endian value of a byte string and its inverse, the
    reference meaning of the byte-shuffling code in the sources.
\<close>

unbundle bit_operations_syntax

section \<open>Machine types\<close>

type_synonym byte = "8 word"
type_synonym u16 = "16 word"
type_synonym u32 = "32 word"
type_synonym u64 = "64 word"
type_synonym valtype = "byte list"

named_theorems codec_simps \<open>evaluation of serialisers and parsers on their own output\<close>
named_theorems opcode_simps \<open>evaluation of the single steps of the script interpreter\<close>
named_theorems coins_simps \<open>abstraction of the coin caches under their operations\<close>

section \<open>Results of code that may throw\<close>

definition bindE :: "'e + 'a \<Rightarrow> ('a \<Rightarrow> 'e + 'b) \<Rightarrow> 'e + 'b" where
  "bindE r f = (case r of Inl e \<Rightarrow> Inl e | Inr x \<Rightarrow> f x)"

lemma bindE_Inl [simp]: "bindE (Inl e) f = Inl e"
  by (simp add: bindE_def)

lemma bindE_Inr [simp]: "bindE (Inr x) f = f x"
  by (simp add: bindE_def)

lemma bindE_eq_Inr_iff: "bindE r f = Inr y \<longleftrightarrow> (\<exists>x. r = Inr x \<and> f x = Inr y)"
  by (cases r) auto

lemma bindE_InrE [elim!]:
  assumes "bindE r f = Inr y"
  obtains x where "r = Inr x" "f x = Inr y"
  using assms by (auto simp: bindE_eq_Inr_iff)

lemma bindE_cong [fundef_cong]:
  "r = r' \<Longrightarrow> (\<And>x. r' = Inr x \<Longrightarrow> f x = g x) \<Longrightarrow> bindE r f = bindE r' g"
  by (cases r') auto

section \<open>Lists\<close>

lemma take_length_append [simp]: "take (length xs) (xs @ ys) = xs"
  by simp

lemma length_0_or_last: "xs = [] \<or> (\<exists>ys y. xs = ys @ [y])"
  by (cases xs rule: rev_cases) auto

lemma list_all_nth_set: "list_all P xs \<longleftrightarrow> (\<forall>x \<in> set xs. P x)"
  by (simp add: list_all_iff)

text \<open>A list read from its last element, as the stack of a vector is read from its back.\<close>

lemma hd_rev_last: "xs \<noteq> [] \<Longrightarrow> hd (rev xs) = last xs"
  by (simp add: hd_rev)

section \<open>Bytes and little-endian values\<close>

lemma unat_byte_less: "unat (b :: byte) < 256"
  using unsigned_less [where 'a = nat and w = b] by simp

lemma unat_byte_le: "unat (b :: byte) \<le> 255"
  using unat_byte_less [of b] by linarith

lemma unat_of_nat_byte [simp]: "unat (of_nat n :: byte) = n mod 256"
  by (simp add: unat_of_nat)

lemma of_nat_unat_byte [simp]: "of_nat (unat (b :: byte)) = b"
  by simp

primrec le_val :: "byte list \<Rightarrow> nat" where
  "le_val [] = 0"
| "le_val (b # bs) = unat b + 256 * le_val bs"

primrec le_bytes :: "nat \<Rightarrow> nat \<Rightarrow> byte list" where
  "le_bytes 0 x = []"
| "le_bytes (Suc n) x = of_nat (x mod 256) # le_bytes n (x div 256)"

lemma length_le_bytes [simp]: "length (le_bytes n x) = n"
  by (induction n arbitrary: x) auto

lemma le_val_bound: "le_val bs < 256 ^ length bs"
proof (induction bs)
  case (Cons b bs)
  have "Suc (le_val bs) * 256 \<le> 256 ^ length bs * 256"
    using Cons.IH by (intro mult_le_mono) auto
  then show ?case
    using unat_byte_less [of b] by simp
qed simp

lemma le_val_le_bytes [simp]: "le_val (le_bytes n x) = x mod 256 ^ n"
proof (induction n arbitrary: x)
  case (Suc n)
  have "x mod 256 + 256 * (x div 256 mod 256 ^ n) = x mod (256 * 256 ^ n)"
    by (simp add: mod_mult2_eq)
  with Suc show ?case by simp
qed simp

lemma le_bytes_le_val [simp]: "le_bytes (length bs) (le_val bs) = bs"
  by (induction bs) (simp_all add: unat_byte_less)

lemma le_val_append: "le_val (xs @ ys) = le_val xs + 256 ^ length xs * le_val ys"
  by (induction xs) (auto simp: algebra_simps)

lemma le_val_inj:
  "length xs = length ys \<Longrightarrow> le_val xs = le_val ys \<Longrightarrow> xs = ys"
  by (metis le_bytes_le_val)

lemma le_val_zero_iff: "le_val bs = 0 \<longleftrightarrow> (\<forall>b \<in> set bs. b = 0)"
  by (induction bs) (auto simp: unat_eq_zero)

section \<open>Words\<close>

text \<open>
  Joining disjoint bit fields: a value below \<open>2 ^ k\<close> and one shifted left by \<open>k\<close> share no bit,
  so the \<open>|\<close> of the sources is an addition.
\<close>

lemma bit_imp_le_unat:
  fixes x :: "'a::len word"
  assumes "bit x n"
  shows "2 ^ n \<le> unat x"
proof -
  have "bit (unat x) n"
    using assms by (simp add: bit_unsigned_iff)
  then have "unat x div 2 ^ n \<noteq> 0"
    by (auto simp: bit_iff_odd intro: ccontr)
  then show ?thesis
    by (metis div_less not_le_imp_less)
qed

lemma or_push_bit_eq_add:
  fixes x y :: "'a::len word"
  assumes "unat x < 2 ^ k"
  shows "x OR push_bit k y = x + push_bit k y"
proof -
  have "n < k" if "bit x n" for n
    using bit_imp_le_unat [OF that] assms
    by (meson le_less_trans nat_power_less_imp_less zero_less_numeral)
  then have "x + push_bit k y = x OR push_bit k y"
    by (intro disjunctive_add) (auto simp: bit_push_bit_iff dest: leD)
  then show ?thesis by simp
qed

lemma unat_push_bit_mult:
  fixes y :: "'a::len word"
  assumes "unat y * 2 ^ k < 2 ^ LENGTH('a)"
  shows "unat (push_bit k y) = unat y * 2 ^ k"
proof -
  have "unat (push_bit k y) = take_bit LENGTH('a) (push_bit k (unat y))"
    by (rule unsigned_push_bit_eq)
  then show ?thesis
    using assms by (simp add: take_bit_eq_mod push_bit_eq_mult)
qed

lemma unat_drop_bit_div: "unat (drop_bit k (n :: 'a::len word)) = unat n div 2 ^ k"
  by (metis unat_drop_bit_eq drop_bit_eq_div)

lemma and_0x7F_eq_take_bit: "n AND 0x7F = take_bit 7 (n :: 'a::len word)"
  by (simp add: take_bit_eq_mask mask_numeral)

lemma byte_high_bit: "(c :: byte) AND 0x80 \<noteq> 0 \<longleftrightarrow> bit c 7"
  using and_exp_eq_0_iff_not_bit [of c 7] by simp

lemma word_le_0x7F_iff: "n \<le> (0x7F :: 'a::len word) \<longleftrightarrow> unat n \<le> 127"
proof (cases "7 \<le> LENGTH('a)")
  case True
  then have "(2::nat) ^ 7 \<le> 2 ^ LENGTH('a)" by (intro power_increasing) auto
  then have "unat (0x7F :: 'a word) = 127" by (simp add: take_bit_nat_eq_self)
  then show ?thesis by (simp add: word_le_nat_alt)
next
  case False
  then have "LENGTH('a) \<in> {1, 2, 3, 4, 5, 6}"
    using len_gt_0 [where 'a = 'a] by (simp del: len_gt_0) arith
  then have "unat (0x7F :: 'a word) = 2 ^ LENGTH('a) - 1 \<and> (2::nat) ^ LENGTH('a) \<le> 64"
    by (auto simp: unat_numeral)
  then show ?thesis
    using unsigned_less [where 'a = nat and w = n] unfolding word_le_nat_alt by linarith
qed

lemma ucast_ucast_id:
  fixes n :: "'a::len word"
  assumes "unat n < 2 ^ LENGTH('b::len)"
  shows "ucast (ucast n :: 'b word) = n"
  using assms unsigned_less [where 'a = nat and w = n]
  by (intro word_eq_iff_unsigned [where 'a = nat, THEN iffD2])
    (simp add: unsigned_ucast_eq unsigned_take_bit_eq take_bit_nat_eq_self)

lemma unat_ucast_up:
  "LENGTH('a::len) \<le> LENGTH('b::len) \<Longrightarrow> unat (ucast (x :: 'a word) :: 'b word) = unat x"
  by (simp add: unsigned_ucast_eq take_bit_nat_eq_self less_le_trans [OF unsigned_less])

end
