(* ===== verification/Serialize.thy ===== *)
theory Serialize
  imports Prelude
begin

text \<open>
  The serialisation layer of \<open>src/src/serialize.h\<close> and \<open>src/src/crypto/common.h\<close>: fixed-width
  little-endian integers, CompactSize, VarInt and vectors.  A stream being written is the list
  of the bytes appended so far, so a writer is a function to \<open>byte list\<close>; a stream being read is
  the list of the bytes left (\<open>CDataStream\<close> keeps the read position), so a reader maps it to the
  value and the rest, or to the exception thrown.  Streams are shorter than \<open>2 ^ 32\<close> bytes, as
  \<open>CDataStream::read\<close> itself assumes of its \<open>unsigned int\<close> positions.

  The locale \<open>codec\<close> is the contract of a \<open>Serialize\<close>/\<open>Unserialize\<close> pair: reading back what was
  written gives the value and leaves the rest of the stream alone.  Vectors of any codec are
  proved once inside it.
\<close>

section \<open>Streams\<close>

datatype ser_error =
    EndOfData
  | NonCanonicalCompactSize
  | CompactSizeTooLarge
  | VarIntTooLarge
  | UnknownTxOptionalData
  | TooManyInputUndoRecords

type_synonym 'a reader = "byte list \<Rightarrow> ser_error + 'a \<times> byte list"

definition stream_read :: "nat \<Rightarrow> byte list reader" where
  "stream_read nSize s =
     (if nSize \<le> length s then Inr (take nSize s, drop nSize s) else Inl EndOfData)"

definition stream_ignore :: "nat \<Rightarrow> unit reader" where
  "stream_ignore nSize s = (if nSize \<le> length s then Inr ((), drop nSize s) else Inl EndOfData)"

definition ReadLE16 :: "byte list \<Rightarrow> u16" where
  "ReadLE16 ptr = of_nat (le_val (take 2 ptr))"

definition ReadLE32 :: "byte list \<Rightarrow> u32" where
  "ReadLE32 ptr = of_nat (le_val (take 4 ptr))"

definition ReadLE64 :: "byte list \<Rightarrow> u64" where
  "ReadLE64 ptr = of_nat (le_val (take 8 ptr))"

definition WriteLE16 :: "u16 \<Rightarrow> byte list" where
  "WriteLE16 x = le_bytes 2 (unat x)"

definition WriteLE32 :: "u32 \<Rightarrow> byte list" where
  "WriteLE32 x = le_bytes 4 (unat x)"

definition WriteLE64 :: "u64 \<Rightarrow> byte list" where
  "WriteLE64 x = le_bytes 8 (unat x)"

definition ser_writedata8 :: "byte \<Rightarrow> byte list" where
  "ser_writedata8 obj = [obj]"

definition ser_writedata16 :: "u16 \<Rightarrow> byte list" where
  "ser_writedata16 obj = WriteLE16 obj"

definition ser_writedata16be :: "u16 \<Rightarrow> byte list" where
  "ser_writedata16be obj = rev (WriteLE16 obj)"

definition ser_writedata32 :: "u32 \<Rightarrow> byte list" where
  "ser_writedata32 obj = WriteLE32 obj"

definition ser_writedata32be :: "u32 \<Rightarrow> byte list" where
  "ser_writedata32be obj = rev (WriteLE32 obj)"

definition ser_writedata64 :: "u64 \<Rightarrow> byte list" where
  "ser_writedata64 obj = WriteLE64 obj"

definition ser_readdata8 :: "byte reader" where
  "ser_readdata8 s = bindE (stream_read 1 s) (\<lambda>(obj, s). Inr (hd obj, s))"

definition ser_readdata16 :: "u16 reader" where
  "ser_readdata16 s = bindE (stream_read 2 s) (\<lambda>(obj, s). Inr (ReadLE16 obj, s))"

definition ser_readdata16be :: "u16 reader" where
  "ser_readdata16be s = bindE (stream_read 2 s) (\<lambda>(obj, s). Inr (ReadLE16 (rev obj), s))"

definition ser_readdata32 :: "u32 reader" where
  "ser_readdata32 s = bindE (stream_read 4 s) (\<lambda>(obj, s). Inr (ReadLE32 obj, s))"

definition ser_readdata32be :: "u32 reader" where
  "ser_readdata32be s = bindE (stream_read 4 s) (\<lambda>(obj, s). Inr (ReadLE32 (rev obj), s))"

definition ser_readdata64 :: "u64 reader" where
  "ser_readdata64 s = bindE (stream_read 8 s) (\<lambda>(obj, s). Inr (ReadLE64 obj, s))"

section \<open>CompactSize\<close>

definition MAX_SIZE :: u64 where
  "MAX_SIZE = 0x10000000"

definition GetSizeOfCompactSize :: "u64 \<Rightarrow> nat" where
  "GetSizeOfCompactSize nSize =
     (if nSize < 253 then 1
      else if nSize \<le> 0xFFFF then 1 + 2
      else if nSize \<le> 0xFFFFFFFF then 1 + 4
      else 1 + 8)"

definition WriteCompactSize :: "u64 \<Rightarrow> byte list" where
  "WriteCompactSize nSize =
     (if nSize < 253 then ser_writedata8 (ucast nSize)
      else if nSize \<le> 0xFFFF then ser_writedata8 253 @ ser_writedata16 (ucast nSize)
      else if nSize \<le> 0xFFFFFFFF then ser_writedata8 254 @ ser_writedata32 (ucast nSize)
      else ser_writedata8 255 @ ser_writedata64 nSize)"

definition check_max_size :: "u64 \<times> byte list \<Rightarrow> ser_error + u64 \<times> byte list" where
  "check_max_size r =
     (case r of (nSizeRet, s) \<Rightarrow>
        if nSizeRet > MAX_SIZE then Inl CompactSizeTooLarge else Inr (nSizeRet, s))"

definition ReadCompactSize :: "u64 reader" where
  "ReadCompactSize s =
     bindE (ser_readdata8 s) (\<lambda>(chSize, s).
       bindE
        (if chSize < 253 then Inr (ucast chSize, s)
         else if chSize = 253 then
           bindE (ser_readdata16 s) (\<lambda>(x, s).
             let nSizeRet = ucast x :: u64
             in if nSizeRet < 253 then Inl NonCanonicalCompactSize else Inr (nSizeRet, s))
         else if chSize = 254 then
           bindE (ser_readdata32 s) (\<lambda>(x, s).
             let nSizeRet = ucast x :: u64
             in if nSizeRet < 0x10000 then Inl NonCanonicalCompactSize else Inr (nSizeRet, s))
         else
           bindE (ser_readdata64 s) (\<lambda>(nSizeRet, s).
             if nSizeRet < 0x100000000 then Inl NonCanonicalCompactSize else Inr (nSizeRet, s)))
        check_max_size)"

section \<open>VarInt\<close>

lemma varint_shift_less:
  "\<not> n \<le> 0x7F \<Longrightarrow> unat (drop_bit 7 n - 1) < unat (n :: 'a::len word)"
proof -
  assume "\<not> n \<le> 0x7F"
  then have "127 < unat n" by (simp add: word_le_0x7F_iff)
  moreover have *: "unat (drop_bit 7 n) = unat n div 128"
    using unat_drop_bit_div [of 7 n] by simp
  ultimately have "unat (drop_bit 7 n) \<noteq> 0" by simp
  then have "drop_bit 7 n \<noteq> 0" by (metis unsigned_0)
  then have "unat (drop_bit 7 n - 1) = unat (drop_bit 7 n) - 1"
    by (metis unat_minus_one)
  then show ?thesis using * \<open>127 < unat n\<close> by simp
qed

text \<open>
  \<open>varint_tmp len n\<close> is the loop of \<open>WriteVarInt\<close> from index \<open>len\<close> on: the bytes \<open>tmp[len]\<close>,
  \<open>tmp[len + 1]\<close>, \dots, which are then written last to first.
\<close>

function varint_tmp :: "nat \<Rightarrow> 'a::len word \<Rightarrow> byte list" where
  "varint_tmp len n =
     (let b = (ucast (n AND 0x7F) :: byte) OR (if len \<noteq> 0 then 0x80 else 0x00)
      in if n \<le> 0x7F then [b] else b # varint_tmp (len + 1) (drop_bit 7 n - 1))"
  by pat_completeness auto
termination
  by (relation "measure (\<lambda>(len, n). unat n)") (auto simp: varint_shift_less)

declare varint_tmp.simps [simp del]

definition WriteVarInt :: "'a::len word \<Rightarrow> byte list" where
  "WriteVarInt n = rev (varint_tmp 0 n)"

function GetSizeOfVarInt :: "'a::len word \<Rightarrow> nat" where
  "GetSizeOfVarInt n = (if n \<le> 0x7F then 1 else 1 + GetSizeOfVarInt (drop_bit 7 n - 1))"
  by pat_completeness auto
termination
  by (relation "measure unat") (auto simp: varint_shift_less)

declare GetSizeOfVarInt.simps [simp del]

text \<open>\<open>std::numeric_limits<I>::max()\<close> of an unsigned type is the word \<open>- 1\<close>.\<close>

fun ReadVarInt_loop :: "'a::len word \<Rightarrow> 'a word reader" where
  "ReadVarInt_loop n [] = Inl EndOfData"
| "ReadVarInt_loop n (chData # s) =
     (if n > drop_bit 7 (- 1) then Inl VarIntTooLarge
      else
        let n = push_bit 7 n OR ucast (chData AND 0x7F)
        in if chData AND 0x80 \<noteq> 0 then
             (if n = - 1 then Inl VarIntTooLarge else ReadVarInt_loop (n + 1) s)
           else Inr (n, s))"

definition ReadVarInt :: "'a::len word reader" where
  "ReadVarInt s = ReadVarInt_loop 0 s"

section \<open>Vectors\<close>

text \<open>
  \<open>Serialize_bytes\<close> is the overload for \<open>vector<unsigned char>\<close> and \<open>CScript\<close> (one block of raw
  bytes), \<open>Serialize_vector\<close> the one that serialises element by element.  The readers allocate
  in steps, so that a bogus size cannot exhaust memory; the bytes consumed and the result are
  those of one pass.
\<close>

definition Serialize_bytes :: "byte list \<Rightarrow> byte list" where
  "Serialize_bytes v = WriteCompactSize (of_nat (length v)) @ v"

definition Unserialize_bytes :: "byte list reader" where
  "Unserialize_bytes s = bindE (ReadCompactSize s) (\<lambda>(nSize, s). stream_read (unat nSize) s)"

definition Serialize_vector :: "('a \<Rightarrow> byte list) \<Rightarrow> 'a list \<Rightarrow> byte list" where
  "Serialize_vector ser v = WriteCompactSize (of_nat (length v)) @ concat (map ser v)"

primrec read_n :: "'a reader \<Rightarrow> nat \<Rightarrow> 'a list reader" where
  "read_n unser 0 s = Inr ([], s)"
| "read_n unser (Suc n) s =
     bindE (unser s) (\<lambda>(x, s). bindE (read_n unser n s) (\<lambda>(xs, s). Inr (x # xs, s)))"

definition Unserialize_vector :: "'a reader \<Rightarrow> 'a list reader" where
  "Unserialize_vector unser s =
     bindE (ReadCompactSize s) (\<lambda>(nSize, s). read_n unser (unat nSize) s)"

section \<open>The contract of a serialiser\<close>

text \<open>
  \<open>ok\<close> is the domain on which the pair round-trips (\<open>MAX_SIZE\<close> bounds every vector, for
  instance).  A canonical codec moreover accepts no second encoding of a value.
\<close>

locale codec =
  fixes ser :: "'a \<Rightarrow> byte list"
    and unser :: "'a reader"
    and ok :: "'a \<Rightarrow> bool"
  assumes unser_ser: "ok x \<Longrightarrow> unser (ser x @ r) = Inr (x, r)"
begin

lemma unser_ser_nil: "ok x \<Longrightarrow> unser (ser x) = Inr (x, [])"
  using unser_ser [of x "[]"] by simp

lemma unique_decoding:
  assumes "ok x" "ok y" "ser x @ r = ser y @ r'"
  shows "x = y \<and> r = r'"
proof -
  have "(Inr (x, r) :: ser_error + 'a \<times> byte list) = Inr (y, r')"
    unfolding unser_ser [OF assms(1), symmetric] unser_ser [OF assms(2), symmetric] assms(3) ..
  then show ?thesis by simp
qed

lemma read_n_ser:
  "(\<And>x. x \<in> set xs \<Longrightarrow> ok x) \<Longrightarrow>
     read_n unser (length xs) (concat (map ser xs) @ r) = Inr (xs, r)"
  by (induction xs) (auto simp: unser_ser)

end

locale canonical_codec = codec +
  assumes ser_unser: "unser s = Inr (x, r) \<Longrightarrow> ok x \<and> s = ser x @ r"
begin

lemma read_n_unser:
  "read_n unser n s = Inr (xs, r) \<Longrightarrow>
     length xs = n \<and> (\<forall>x \<in> set xs. ok x) \<and> s = concat (map ser xs) @ r"
proof (induction n arbitrary: s xs)
  case (Suc n)
  then obtain y ys t where y: "unser s = Inr (y, t)" and ys: "read_n unser n t = Inr (ys, r)"
    and xs: "xs = y # ys"
    by auto
  show ?case using Suc.IH [OF ys] ser_unser [OF y] xs by simp
qed simp

end

subsection \<open>Fixed-width integers\<close>

lemma stream_read_append [simp]: "length xs = n \<Longrightarrow> stream_read n (xs @ r) = Inr (xs, r)"
  by (simp add: stream_read_def)

lemma stream_read_Inr_iff:
  "stream_read n s = Inr (xs, r) \<longleftrightarrow> length xs = n \<and> s = xs @ r"
  by (auto simp: stream_read_def)

lemma WriteLE_length [simp]:
  "length (WriteLE16 x) = 2" "length (WriteLE32 y) = 4" "length (WriteLE64 z) = 8"
  by (simp_all add: WriteLE16_def WriteLE32_def WriteLE64_def)

lemma le_val_of_nat_roundtrip:
  fixes x :: "'a::len word"
  assumes "LENGTH('a) = 8 * n"
  shows "of_nat (le_val (le_bytes n (unat x))) = x"
proof -
  have "unat x < 256 ^ n"
    using unsigned_less [where 'a = nat and w = x] by (simp add: assms power_mult)
  then show ?thesis by simp
qed

lemma le_bytes_of_nat_roundtrip:
  assumes "LENGTH('a::len) = 8 * length bs"
  shows "le_bytes (length bs) (unat (of_nat (le_val bs) :: 'a word)) = bs"
proof -
  have "le_val bs < 2 ^ LENGTH('a)"
    using le_val_bound [of bs] by (simp add: assms power_mult)
  then show ?thesis by (simp add: unat_of_nat)
qed

lemma ReadLE_WriteLE [simp]:
  "ReadLE16 (WriteLE16 x) = x" "ReadLE32 (WriteLE32 y) = y" "ReadLE64 (WriteLE64 z) = z"
  by (simp_all add: ReadLE16_def WriteLE16_def ReadLE32_def WriteLE32_def ReadLE64_def
      WriteLE64_def le_val_of_nat_roundtrip del: le_val_le_bytes)

lemma WriteLE_ReadLE:
  "length bs = 2 \<Longrightarrow> WriteLE16 (ReadLE16 bs) = bs"
  "length bs = 4 \<Longrightarrow> WriteLE32 (ReadLE32 bs) = bs"
  "length bs = 8 \<Longrightarrow> WriteLE64 (ReadLE64 bs) = bs"
  using le_bytes_of_nat_roundtrip [where 'a = 16, of bs]
    le_bytes_of_nat_roundtrip [where 'a = 32, of bs]
    le_bytes_of_nat_roundtrip [where 'a = 64, of bs]
  by (simp_all add: ReadLE16_def WriteLE16_def ReadLE32_def WriteLE32_def ReadLE64_def
      WriteLE64_def)

lemmas ser_data_defs =
  ser_writedata8_def ser_writedata16_def ser_writedata16be_def ser_writedata32_def
  ser_writedata32be_def ser_writedata64_def ser_readdata8_def ser_readdata16_def
  ser_readdata16be_def ser_readdata32_def ser_readdata32be_def ser_readdata64_def

interpretation u8: canonical_codec ser_writedata8 ser_readdata8 "\<lambda>_. True"
proof unfold_locales
  show "True \<Longrightarrow> ser_readdata8 (ser_writedata8 x @ r) = Inr (x, r)" for x r
    by (simp add: ser_data_defs stream_read_def)
  show "ser_readdata8 s = Inr (x, r) \<Longrightarrow> True \<and> s = ser_writedata8 x @ r" for s x r
    by (cases s) (auto simp: ser_data_defs stream_read_def)
qed

interpretation u16: canonical_codec ser_writedata16 ser_readdata16 "\<lambda>_. True"
  by unfold_locales (auto simp: ser_data_defs stream_read_Inr_iff WriteLE_ReadLE)

interpretation u16be: canonical_codec ser_writedata16be ser_readdata16be "\<lambda>_. True"
  by unfold_locales (auto simp: ser_data_defs stream_read_Inr_iff WriteLE_ReadLE)

interpretation u32: canonical_codec ser_writedata32 ser_readdata32 "\<lambda>_. True"
  by unfold_locales (auto simp: ser_data_defs stream_read_Inr_iff WriteLE_ReadLE)

interpretation u32be: canonical_codec ser_writedata32be ser_readdata32be "\<lambda>_. True"
  by unfold_locales (auto simp: ser_data_defs stream_read_Inr_iff WriteLE_ReadLE)

interpretation u64: canonical_codec ser_writedata64 ser_readdata64 "\<lambda>_. True"
  by unfold_locales (auto simp: ser_data_defs stream_read_Inr_iff WriteLE_ReadLE)

subsection \<open>CompactSize\<close>

lemma ReadCompactSize_WriteCompactSize:
  assumes "x \<le> MAX_SIZE"
  shows "ReadCompactSize (WriteCompactSize x @ r) = Inr (x, r)"
proof -
  have max: "\<not> MAX_SIZE < x" using assms by simp
  have le: "x \<le> 0xFFFFFFFF" using assms by (simp add: MAX_SIZE_def word_le_nat_alt)
  consider "x < 253" | "253 \<le> x" "x \<le> 0xFFFF" | "0xFFFF < x" 
    by (meson not_le)
  then show ?thesis
  proof cases
    case 1
    then have "unat x < 2 ^ LENGTH(8)" by (simp add: word_less_nat_alt)
    then have "ucast (ucast x :: byte) = x" by (rule ucast_ucast_id)
    moreover have "(ucast x :: byte) < 253"
      using 1 by (simp add: word_less_nat_alt unsigned_ucast_eq take_bit_nat_eq_self)
    ultimately show ?thesis using 1 max
      by (simp add: WriteCompactSize_def ReadCompactSize_def u8.unser_ser check_max_size_def)
  next
    case 2
    then have "ucast (ucast x :: u16) = x"
      by (auto intro!: ucast_ucast_id simp: word_le_nat_alt)
    moreover have "\<not> x < 253" using 2 by simp
    ultimately show ?thesis using 2 max
      by (simp add: WriteCompactSize_def ReadCompactSize_def u8.unser_ser u16.unser_ser check_max_size_def Let_def)
  next
    case 3
    then have "ucast (ucast x :: u32) = x"
      using le by (auto intro!: ucast_ucast_id simp: word_le_nat_alt)
    moreover have "\<not> x < 0x10000" using 3 by (simp add: word_less_nat_alt)
    moreover have "\<not> x < 253" "\<not> x \<le> 0xFFFF" using 3 by (auto simp: word_less_nat_alt word_le_nat_alt)
    ultimately show ?thesis using le max
      by (simp add: WriteCompactSize_def ReadCompactSize_def u8.unser_ser u32.unser_ser check_max_size_def Let_def)
  qed
qed

lemma WriteCompactSize_ReadCompactSize:
  assumes "ReadCompactSize s = Inr (x, r)"
  shows "x \<le> MAX_SIZE \<and> s = WriteCompactSize x @ r"
proof -
  obtain ch t where ch: "ser_readdata8 s = Inr (ch, t)"
    using assms by (auto simp: ReadCompactSize_def)
  have s: "s = ser_writedata8 ch @ t" using u8.ser_unser [OF ch] by simp
  have x: "x \<le> MAX_SIZE"
    using assms by (auto simp: ReadCompactSize_def check_max_size_def split: if_splits)
  consider "ch < 253" | "ch = 253" | "ch = 254" | "ch = 255"
  proof -
    have "unat ch < 253 \<or> unat ch = 253 \<or> unat ch = 254 \<or> unat ch = 255"
      using unat_byte_less [of ch] by linarith
    then show ?thesis using that by (auto simp: word_less_nat_alt word_eq_iff_unsigned [where 'a = nat])
  qed
  then have "s = WriteCompactSize x @ r"
  proof cases
    case 1
    with assms ch have "x = ucast ch" "r = t"
      by (auto simp: ReadCompactSize_def check_max_size_def split: if_splits)
    moreover have "(ucast ch :: u64) < 253" using 1 by (simp add: word_less_nat_alt unat_ucast_up)
    moreover have "ucast (ucast ch :: u64) = ch"
      using unat_byte_less [of ch] by (intro ucast_ucast_id) simp
    ultimately show ?thesis by (simp add: s WriteCompactSize_def)
  next
    case 2
    with assms ch obtain y where "ser_readdata16 t = Inr (y, r)" "x = ucast y" "\<not> x < 253"
      by (auto simp: ReadCompactSize_def check_max_size_def Let_def split: if_splits)
    moreover have "t = ser_writedata16 y @ r" using u16.ser_unser calculation(1) by blast
    moreover have "ucast (ucast y :: u64) = y" "(ucast y :: u64) \<le> 0xFFFF"
      using unsigned_less [where 'a = nat and w = y]
      by (auto intro!: ucast_ucast_id simp: word_le_nat_alt unat_ucast_up)
    ultimately show ?thesis
      by (simp add: s 2 WriteCompactSize_def)
  next
    case 3
    with assms ch obtain y where "ser_readdata32 t = Inr (y, r)" "x = ucast y" "\<not> x < 0x10000"
      by (auto simp: ReadCompactSize_def check_max_size_def Let_def split: if_splits)
    moreover have "t = ser_writedata32 y @ r" using u32.ser_unser calculation(1) by blast
    moreover have "ucast (ucast y :: u64) = y" "(ucast y :: u64) \<le> 0xFFFFFFFF"
      using unsigned_less [where 'a = nat and w = y]
      by (auto intro!: ucast_ucast_id simp: word_le_nat_alt unat_ucast_up)
    moreover have "\<not> x < 253" "\<not> x \<le> 0xFFFF"
      using calculation(3) by (auto simp: word_less_nat_alt word_le_nat_alt)
    ultimately show ?thesis
      by (simp add: s 3 WriteCompactSize_def)
  next
    case 4
    with assms ch have "ser_readdata64 t = Inr (x, r)" "\<not> x < 0x100000000"
      by (auto simp: ReadCompactSize_def check_max_size_def Let_def split: if_splits)
    moreover have "t = ser_writedata64 x @ r" using u64.ser_unser calculation(1) by blast
    moreover have "\<not> x < 253" "\<not> x \<le> 0xFFFF" "\<not> x \<le> 0xFFFFFFFF"
      using calculation(2) by (auto simp: word_less_nat_alt word_le_nat_alt)
    ultimately show ?thesis
      by (simp add: s 4 WriteCompactSize_def)
  qed
  then show ?thesis using x by simp
qed

interpretation cs: canonical_codec WriteCompactSize ReadCompactSize "\<lambda>n. n \<le> MAX_SIZE"
  by unfold_locales
    (simp_all add: ReadCompactSize_WriteCompactSize WriteCompactSize_ReadCompactSize)

lemma length_WriteCompactSize: "length (WriteCompactSize n) = GetSizeOfCompactSize n"
  by (simp add: WriteCompactSize_def GetSizeOfCompactSize_def ser_data_defs)

subsection \<open>VarInt\<close>

lemma varint_tmp_cong: "l \<noteq> 0 \<Longrightarrow> l' \<noteq> 0 \<Longrightarrow> varint_tmp l n = varint_tmp l' n"
proof (induction l n arbitrary: l' rule: varint_tmp.induct)
  case (1 l n)
  show ?case
    using 1(1) [OF refl, of "l' + 1"] 1(2,3)
    by (subst (1 2) varint_tmp.simps) (simp add: Let_def)
qed

lemma varint_tmp_Suc: "varint_tmp (Suc (Suc l)) n = varint_tmp (Suc 0) n"
  by (rule varint_tmp_cong) simp_all

text \<open>The bytes before the last all carry the continuation bit.\<close>

abbreviation varint_cont :: "'a::len word \<Rightarrow> byte list" where
  "varint_cont n \<equiv> rev (varint_tmp (Suc 0) n)"

lemma varint_rec:
  "rev (varint_tmp l n) =
     (if n \<le> 0x7F then [] else varint_cont (drop_bit 7 n - 1)) @
     [(ucast (n AND 0x7F) :: byte) OR (if l \<noteq> 0 then 0x80 else 0x00)]"
  by (subst varint_tmp.simps, cases l) (simp_all add: Let_def varint_tmp_Suc)

lemma bit_byte_0x80: "bit (0x80 :: byte) n \<longleftrightarrow> n = 7"
  using bit_exp_iff [where 'a = byte, of 7 n] by auto

lemma bit_int_0x80: "bit (0x80 :: int) n \<longleftrightarrow> n = 7"
  using bit_exp_iff [where 'a = int, of 7 n] by auto

lemma byte_flag_low:
  assumes "take_bit 7 x = (x :: byte)"
  shows "(x OR (if b then 0x80 else 0)) AND 0x7F = x"
proof -
  have "(x OR (if b then 0x80 else 0)) AND 0x7F = take_bit 7 x OR take_bit 7 (if b then 0x80 else 0)"
    by (simp only: and_0x7F_eq_take_bit take_bit_or)
  then show ?thesis using assms by simp
qed

lemma byte_flag_high:
  assumes "take_bit 7 x = (x :: byte)"
  shows "(x OR (if b then 0x80 else 0)) AND 0x80 \<noteq> 0 \<longleftrightarrow> b"
proof -
  have "\<not> bit x 7" by (subst assms [symmetric]) (simp add: bit_take_bit_iff)
  then show ?thesis by (simp add: byte_high_bit bit_or_iff bit_byte_0x80)
qed

lemma take_bit_7_byte: "take_bit 7 (ucast (n AND 0x7F) :: byte) = ucast (n AND 0x7F)"
  by (rule bit_word_eqI) (auto simp: and_0x7F_eq_take_bit bit_take_bit_iff bit_ucast_iff)

lemma ucast_byte_take_bit:
  "8 \<le> LENGTH('a::len) \<Longrightarrow> (ucast (ucast (n AND 0x7F) :: byte) :: 'a word) = take_bit 7 n"
  by (rule bit_word_eqI) (auto simp: and_0x7F_eq_take_bit bit_take_bit_iff bit_ucast_iff)

lemma drop_bit_7_le_max: "drop_bit 7 n \<le> drop_bit 7 (- 1 :: 'a::len word)"
proof -
  have "unat n \<le> unat (- 1 :: 'a word)"
    using word_order.extremum [of n] by (simp only: word_le_nat_alt)
  then show ?thesis
    by (simp only: word_le_nat_alt unat_drop_bit_div div_le_mono)
qed

lemma varint_join: "push_bit 7 (drop_bit 7 n) OR take_bit 7 n = (n :: 'a::len word)"
  by (rule bit_word_eqI) (auto simp: bit_simps)

lemma ReadVarInt_loop_byte:
  fixes n :: "'a::len word" and l :: nat
  assumes "8 \<le> LENGTH('a)"
  defines "ch \<equiv> (ucast (n AND 0x7F) :: byte) OR (if l \<noteq> 0 then 0x80 else 0x00)"
  shows "ReadVarInt_loop (drop_bit 7 n) (ch # r) =
     (if l \<noteq> 0 then (if n = - 1 then Inl VarIntTooLarge else ReadVarInt_loop (n + 1) r)
      else Inr (n, r))"
proof -
  have low: "ucast (ch AND 0x7F) = take_bit 7 n"
    by (simp only: ch_def byte_flag_low [OF take_bit_7_byte] ucast_byte_take_bit [OF assms(1)])
  have high: "ch AND 0x80 \<noteq> 0 \<longleftrightarrow> l \<noteq> 0"
    by (simp only: ch_def byte_flag_high [OF take_bit_7_byte] simp_thms)
  have max: "\<not> drop_bit 7 (- 1) < drop_bit 7 n"
    using drop_bit_7_le_max [of n] by (simp only: not_less)
  show ?thesis
    by (simp only: ReadVarInt_loop.simps max low high varint_join Let_def if_False)
qed

lemma ReadVarInt_loop_rec:
  fixes n :: "'a::len word"
  assumes w: "8 \<le> LENGTH('a)"
  shows "ReadVarInt_loop 0 (rev (varint_tmp l n) @ r) =
    (if l \<noteq> 0 then (if n = - 1 then Inl VarIntTooLarge else ReadVarInt_loop (n + 1) r) else Inr (n, r))"
proof (induction l n arbitrary: r rule: varint_tmp.induct)
  case (1 l n)
  show ?case 
  proof (cases "n \<le> 0x7F")
    case True
    then have "unat n < 128" by (simp add: word_le_0x7F_iff)
    then have "drop_bit 7 n = 0"
      using unat_drop_bit_div [of 7 n] by (simp add: unat_eq_zero)
    then show ?thesis
      using True ReadVarInt_loop_byte [OF w, of n l r] by (subst varint_rec) simp
  next
    case False
    let ?m = "drop_bit 7 n - 1"
    have "?m \<noteq> - 1"
      using varint_shift_less [OF False] word_order.extremum [of n]
      by (auto simp: word_le_nat_alt)
    then have "ReadVarInt_loop 0 (varint_cont ?m @ r') = ReadVarInt_loop (drop_bit 7 n) r'" for r'
      using 1(1) [OF refl False, of r'] varint_tmp_cong [of "l + 1" "Suc 0" ?m] by simp
    then show ?thesis
      using False ReadVarInt_loop_byte [OF w, of n l r] by (subst varint_rec) simp
  qed
qed

lemma varint_split_byte: "(ch AND 0x7F) OR (if ch AND 0x80 \<noteq> 0 then 0x80 else 0) = (ch :: byte)"
proof (rule bit_word_eqI)
  fix i assume "i < LENGTH(8)"
  then have "i < 7 \<or> i = 7" by auto
  then show "bit ((ch AND 0x7F) OR (if ch AND 0x80 \<noteq> 0 then 0x80 else 0)) i = bit ch i"
    unfolding byte_high_bit and_0x7F_eq_take_bit by (auto simp: bit_or_iff bit_take_bit_iff bit_int_0x80)
qed

lemma varint_unjoin:
  fixes n :: "'a::len word" and ch :: byte
  assumes "8 \<le> LENGTH('a)" "n \<le> drop_bit 7 (- 1)"
  defines "n' \<equiv> push_bit 7 n OR ucast (ch AND 0x7F)"
  shows "drop_bit 7 n' = n" "ucast (n' AND 0x7F) = ch AND 0x7F"
proof -
  have lt: "7 + i < LENGTH('a)" if "bit n i" for i
  proof -
    have "2 ^ i \<le> unat n" by (rule bit_imp_le_unat [OF that])
    also have "\<dots> \<le> unat (drop_bit 7 (- 1 :: 'a word))" using assms(2) by (simp only: word_le_nat_alt)
    also have "\<dots> = (2 ^ LENGTH('a) - 1) div 2 ^ 7"
      by (simp only: unat_drop_bit_div unsigned_minus_1_eq_mask mask_eq_exp_minus_1)
    also have "\<dots> < 2 ^ (LENGTH('a) - 7)"
    proof (rule less_mult_imp_div_less)
      have "(2::nat) ^ (LENGTH('a) - 7) * 2 ^ 7 = 2 ^ LENGTH('a)"
        using assms(1) by (simp only: power_add [symmetric]) simp
      then show "2 ^ LENGTH('a) - 1 < (2::nat) ^ (LENGTH('a) - 7) * 2 ^ 7" by simp
    qed
    finally have "i < LENGTH('a) - 7" by simp
    then show ?thesis by simp
  qed
  then show "drop_bit 7 n' = n"
    unfolding n'_def and_0x7F_eq_take_bit
    by (intro bit_word_eqI) (auto simp: bit_drop_bit_eq bit_or_iff bit_push_bit_iff bit_take_bit_iff
        bit_ucast_iff dest: lt)
  show "ucast (n' AND 0x7F) = ch AND 0x7F"
    using assms(1) unfolding n'_def and_0x7F_eq_take_bit
    by (intro bit_word_eqI) (auto simp: bit_or_iff bit_push_bit_iff bit_take_bit_iff bit_ucast_iff)
qed

lemma varint_rec_byte:
  fixes n :: "'a::len word"
  assumes "8 \<le> LENGTH('a)" "n \<le> drop_bit 7 (- 1)" "ch AND 0x80 \<noteq> 0 \<longleftrightarrow> l \<noteq> 0"
  shows "rev (varint_tmp l (push_bit 7 n OR ucast (ch AND 0x7F))) =
    (if n = 0 then [] else varint_cont (n - 1)) @ [ch]"
proof -
  let ?n = "push_bit 7 n OR ucast (ch AND 0x7F) :: 'a word"
  note u = varint_unjoin [OF assms(1,2), of ch]
  have "unat n = unat ?n div 128" using u(1) unat_drop_bit_div [of 7 ?n] by simp
  then have "?n \<le> 0x7F \<longleftrightarrow> n = 0"
    by (simp only: word_le_0x7F_iff unat_eq_zero [symmetric]) auto
  moreover have "(ucast (?n AND 0x7F) :: byte) OR (if l \<noteq> 0 then 0x80 else 0x00) = ch"
    using varint_split_byte [of ch] assms(3) by (simp only: u(2))
  ultimately show ?thesis by (subst varint_rec) (simp only: u(1))
qed

lemma ReadVarInt_loop_canonical:
  fixes n :: "'a::len word"
  assumes w: "8 \<le> LENGTH('a)"
  shows "ReadVarInt_loop n s = Inr (m, r) \<Longrightarrow>
    \<exists>bs. s = bs @ r \<and> (if n = 0 then [] else varint_cont (n - 1)) @ bs = WriteVarInt m"
proof (induction s arbitrary: n)
  case (Cons ch s)
  let ?n = "push_bit 7 n OR ucast (ch AND 0x7F) :: 'a word"
  from Cons.prems have le: "n \<le> drop_bit 7 (- 1)" 
    by (simp only: ReadVarInt_loop.simps split: if_splits) (simp_all only: not_less sum.distinct)
  show ?case
  proof (cases "ch AND 0x80 \<noteq> 0")
    case True
    have nz: "?n \<noteq> - 1" and rd: "ReadVarInt_loop (?n + 1) s = Inr (m, r)"
      using Cons.prems le True by (auto simp only: ReadVarInt_loop.simps Let_def not_less [symmetric] split: if_splits)
    have "?n + 1 \<noteq> 0" using nz by (simp only: eq_neg_iff_add_eq_0 [symmetric] not_False_eq_True)
    then obtain bs where "s = bs @ r" "varint_cont ?n @ bs = WriteVarInt m"
      using Cons.IH [OF rd] by (auto simp only: if_False add_diff_cancel_right')
    then show ?thesis
      using varint_rec_byte [OF w le, of ch "Suc 0"] True by (intro exI [of _ "ch # bs"]) simp
  next
    case False
    then have "m = ?n" "r = s"
      using Cons.prems le by (auto simp only: ReadVarInt_loop.simps Let_def not_less [symmetric] split: if_splits)
    then show ?thesis
      using varint_rec_byte [OF w le, of ch 0] False
      by (intro exI [of _ "[ch]"]) (simp add: WriteVarInt_def)
  qed
qed simp

lemma VarInt_canonical_codec:
  "8 \<le> LENGTH('a::len) \<Longrightarrow>
     canonical_codec (WriteVarInt :: 'a word \<Rightarrow> byte list) ReadVarInt (\<lambda>_. True)"
  by unfold_locales
    (auto simp: ReadVarInt_def WriteVarInt_def ReadVarInt_loop_rec
      dest!: ReadVarInt_loop_canonical)

interpretation vi32: canonical_codec "WriteVarInt :: u32 \<Rightarrow> byte list" ReadVarInt "\<lambda>_. True"
  by (rule VarInt_canonical_codec) simp

interpretation vi64: canonical_codec "WriteVarInt :: u64 \<Rightarrow> byte list" ReadVarInt "\<lambda>_. True"
  by (rule VarInt_canonical_codec) simp

lemma length_varint_tmp: "length (varint_tmp l n) = GetSizeOfVarInt n"
proof (induction l n rule: varint_tmp.induct)
  case (1 l n)
  then show ?case
    by (subst varint_tmp.simps, subst GetSizeOfVarInt.simps) (simp add: Let_def)
qed

lemma length_WriteVarInt: "length (WriteVarInt n) = GetSizeOfVarInt n"
  by (simp add: WriteVarInt_def length_varint_tmp)

subsection \<open>Vectors\<close>

definition vector_ok :: "('a \<Rightarrow> bool) \<Rightarrow> 'a list \<Rightarrow> bool" where
  "vector_ok ok v \<longleftrightarrow> length v \<le> unat MAX_SIZE \<and> list_all ok v"

lemma unat_MAX_SIZE: "unat MAX_SIZE = 0x10000000"
  by (simp add: MAX_SIZE_def)

lemma of_nat_le_MAX_SIZE:
  assumes "n \<le> unat MAX_SIZE"
  shows "unat (of_nat n :: u64) = n" "(of_nat n :: u64) \<le> MAX_SIZE"
proof -
  show n: "unat (of_nat n :: u64) = n"
    using assms by (simp add: unat_MAX_SIZE unat_of_nat)
  show "(of_nat n :: u64) \<le> MAX_SIZE"
    using assms by (simp only: word_le_nat_alt n)
qed

context codec
begin

lemma vector_roundtrip:
  assumes "vector_ok ok v"
  shows "Unserialize_vector unser (Serialize_vector ser v @ r) = Inr (v, r)"
  using assms read_n_ser [of v r] of_nat_le_MAX_SIZE [of "length v"]
  by (simp add: Unserialize_vector_def Serialize_vector_def vector_ok_def cs.unser_ser
      list_all_iff)

lemma vector_codec: "codec (Serialize_vector ser) (Unserialize_vector unser) (vector_ok ok)"
  by unfold_locales (rule vector_roundtrip)

end

context canonical_codec
begin

lemma vector_canonical:
  assumes "Unserialize_vector unser s = Inr (v, r)"
  shows "vector_ok ok v \<and> s = Serialize_vector ser v @ r"
proof -
  from assms obtain n t where n: "ReadCompactSize s = Inr (n, t)"
    and v: "read_n unser (unat n) t = Inr (v, r)"
    by (auto simp: Unserialize_vector_def)
  have "n \<le> MAX_SIZE" "s = WriteCompactSize n @ t" using cs.ser_unser [OF n] by auto
  with read_n_unser [OF v] show ?thesis
    by (auto simp: vector_ok_def Serialize_vector_def list_all_iff word_le_nat_alt)
qed

lemma vector_canonical_codec:
  "canonical_codec (Serialize_vector ser) (Unserialize_vector unser) (vector_ok ok)"
  by (intro canonical_codec.intro vector_codec canonical_codec_axioms.intro vector_canonical)

end

definition bytes_ok :: "byte list \<Rightarrow> bool" where
  "bytes_ok v \<longleftrightarrow> length v \<le> unat MAX_SIZE"

interpretation bytes: canonical_codec Serialize_bytes Unserialize_bytes bytes_ok
proof unfold_locales
  show "bytes_ok v \<Longrightarrow> Unserialize_bytes (Serialize_bytes v @ r) = Inr (v, r)" for v r
    using of_nat_le_MAX_SIZE [of "length v"]
    by (simp add: bytes_ok_def Unserialize_bytes_def Serialize_bytes_def cs.unser_ser)
  fix s v r
  assume "Unserialize_bytes s = Inr (v, r)"
  then obtain n t where n: "ReadCompactSize s = Inr (n, t)" and v: "stream_read (unat n) t = Inr (v, r)"
    by (auto simp: Unserialize_bytes_def)
  have "n \<le> MAX_SIZE" "s = WriteCompactSize n @ t" using cs.ser_unser [OF n] by auto
  with v show "bytes_ok v \<and> s = Serialize_bytes v @ r"
    by (auto simp: bytes_ok_def Serialize_bytes_def stream_read_Inr_iff word_le_nat_alt)
qed

interpretation byte_vectors: canonical_codec
  "Serialize_vector Serialize_bytes" "Unserialize_vector Unserialize_bytes" "vector_ok bytes_ok"
  by (rule bytes.vector_canonical_codec)

text \<open>
  C40: an integer in the variable-length encoding is read back exactly, and an encoding that is read
  is the one the writer produces, so that every integer has one encoding.
\<close>
theorem VarInt_codec:
  "ReadVarInt (WriteVarInt (n :: u64) @ rest) = Inr (n, rest) \<and>
   (ReadVarInt s = Inr (n, rest) \<longrightarrow> s = WriteVarInt n @ rest)"
  using vi64.unser_ser [of n rest] vi64.ser_unser [of s n rest] by blast

theorem VarInt_codec_witness:
  "ReadVarInt [0x80, 0x00] = Inr (0x80 :: u64, []) \<and> [0x80, 0x00] = WriteVarInt (0x80 :: u64) @ []"
proof -
  have "ReadVarInt [0x80, 0x00] = Inr (0x80 :: u64, [])" by (simp add: ReadVarInt_def)
  with VarInt_codec [where n = "0x80" and s = "[0x80, 0x00]" and rest = "[]"] show ?thesis by blast
qed

end
