(* ===== verification/ScriptNum.thy ===== *)
theory ScriptNum
  imports Serialize
begin

text \<open>
  The numbers scripts compute with (\<open>CScriptNum\<close> in \<open>src/src/script/script.h\<close>): the variable
  length sign-and-magnitude byte strings the stack holds, their conversion to and from integers,
  and the minimality test.  The lemmas show that the conversion is a bijection between the
  integers below 64 bits and the byte strings the minimality test accepts.
\<close>

section \<open>Operations\<close>

text \<open>
  The value of a \<open>CScriptNum\<close> is an \<open>int64_t\<close>; it is an \<open>int\<close> here, and the bounds lemmas below
  show that the values the interpreter computes stay far inside that range.
\<close>

datatype scriptnum_error =
    ScriptNumOverflow
  | NonMinimalScriptNum
  | NegativeGasValue

function abs_bytes :: "nat \<Rightarrow> byte list" where
  "abs_bytes absvalue =
     (if absvalue = 0 then [] else of_nat (absvalue mod 256) # abs_bytes (absvalue div 256))"
  by pat_completeness auto
termination
  by (relation "measure id") auto

declare abs_bytes.simps [simp del]

definition ScriptNum_serialize :: "int \<Rightarrow> valtype" where
  "ScriptNum_serialize val =
     (if val = 0 then []
      else
        let neg = val < 0;
            result = abs_bytes (nat \<bar>val\<bar>)
        in if last result AND 0x80 \<noteq> 0 then result @ [if neg then 0x80 else 0]
           else if neg then butlast result @ [last result OR 0x80]
           else result)"

primrec vch_bits :: "nat \<Rightarrow> u64 \<Rightarrow> valtype \<Rightarrow> u64" where
  "vch_bits i result [] = result"
| "vch_bits i result (b # vch) = vch_bits (Suc i) (result OR push_bit (8 * i) (ucast b)) vch"

definition set_vch :: "valtype \<Rightarrow> int" where
  "set_vch vch =
     (if vch = [] then 0
      else
        let result = vch_bits 0 0 vch
        in if last vch AND 0x80 \<noteq> 0
           then - sint (result AND NOT (push_bit (8 * (length vch - 1)) 0x80))
           else sint result)"

definition CScriptNum :: "valtype \<Rightarrow> bool \<Rightarrow> nat \<Rightarrow> scriptnum_error + int" where
  "CScriptNum vch fRequireMinimal nMaxNumSize =
     (if length vch > nMaxNumSize then Inl ScriptNumOverflow
      else if fRequireMinimal \<and> length vch > 0 \<and> last vch AND 0x7F = 0 \<and>
              (length vch \<le> 1 \<or> vch ! (length vch - 2) AND 0x80 = 0)
      then Inl NonMinimalScriptNum
      else Inr (set_vch vch))"

abbreviation (input) nDefaultMaxNumSize :: nat where "nDefaultMaxNumSize \<equiv> 4"

definition ScriptNum_getint :: "int \<Rightarrow> int" where
  "ScriptNum_getint m_value =
     (if m_value > 2147483647 then 2147483647
      else if m_value < - 2147483648 then - 2147483648
      else m_value)"

definition vch_to_uint64 :: "valtype \<Rightarrow> scriptnum_error + u64" where
  "vch_to_uint64 vch =
     (if length vch > 8 then Inl ScriptNumOverflow
      else if vch = [] then Inr 0
      else if last vch AND 0x80 \<noteq> 0 then Inl NegativeGasValue
      else Inr (vch_bits 0 0 vch))"

section \<open>The encoding is canonical\<close>

lemma vch_bits_le_val:
  assumes "i + length vch \<le> 8" "unat acc < 256 ^ i"
  shows "unat (vch_bits i acc vch) = unat acc + 256 ^ i * le_val vch"
  using assms
proof (induction vch arbitrary: i acc)
  case (Cons b vch)
  let ?w = "push_bit (8 * i) (ucast b :: u64)"
  have p: "(2::nat) ^ (8 * i) = 256 ^ i" by (simp add: power_mult)
  have step: "unat acc + unat b * 256 ^ i < 256 ^ Suc i"
  proof -
    have "unat acc + unat b * 256 ^ i < 256 ^ i + 255 * 256 ^ i"
      using Cons.prems(2) unat_byte_le [of b] by (intro add_less_le_mono mult_le_mono) auto
    then show ?thesis by simp
  qed
  have le: "(256::nat) ^ Suc i \<le> 256 ^ 8"
    using Cons.prems(1) by (intro power_increasing) auto
  have w: "unat ?w = unat b * 256 ^ i"
    using step le by (subst unat_push_bit_mult) (auto simp: unat_ucast_up p)
  have "unat (acc OR ?w) = unat acc + unat b * 256 ^ i"
  proof -
    have "acc OR ?w = acc + ?w"
      using Cons.prems(2) by (intro or_push_bit_eq_add) (simp add: p)
    then show ?thesis
      using w step le by (simp add: unat_word_ariths)
  qed
  then show ?case
    using Cons.IH [of "Suc i" "acc OR ?w"] Cons.prems(1) step by (simp add: algebra_simps)
qed simp

lemma vch_bits_eq_le_val: "length vch \<le> 8 \<Longrightarrow> unat (vch_bits 0 0 vch) = le_val vch"
  using vch_bits_le_val [of 0 vch 0] by simp

lemma sint_eq_unat: "unat (x :: u64) < 2 ^ 63 \<Longrightarrow> sint x = int (unat x)"
proof -
  assume "unat x < 2 ^ 63"
  then have "int (unat x) < int (2 ^ 63)" by (simp only: of_nat_less_iff)
  then have "uint x < 2 ^ 63" by simp
  then have "signed_take_bit 63 (uint x) = uint x"
    using order_trans [of "- (2 ^ 63)" 0 "uint x"] by (simp add: signed_take_bit_int_eq_self_iff)
  then show ?thesis by (simp add: sint_uint)
qed

lemma unat_and_0x7F: "unat ((y :: byte) AND 0x7F) = unat y mod 128"
proof -
  have "unat (y AND 0x7F) = take_bit 7 (unat y)"
    unfolding and_0x7F_eq_take_bit by (simp only: unsigned_take_bit_eq)
  then show ?thesis by (simp add: take_bit_eq_mod)
qed

lemma unat_high_bit: "unat (y :: byte) = unat (y AND 0x7F) + (if bit y 7 then 128 else 0)"
proof -
  have "bit y 7 \<longleftrightarrow> bit (unat y) 7" by (simp add: bit_unsigned_iff)
  also have "\<dots> \<longleftrightarrow> odd (unat y div 128)" by (simp add: bit_iff_odd)
  also have "\<dots> \<longleftrightarrow> 128 \<le> unat y"
  proof (cases "unat y < 128")
    case False
    then have "unat y div 128 = 1" using unat_byte_less [of y] by (intro div_nat_eqI) auto
    with False show ?thesis by simp
  qed simp
  finally have "bit y 7 \<longleftrightarrow> 128 \<le> unat y" .
  then show ?thesis
    using unat_byte_less [of y] by (auto simp: unat_and_0x7F mod_if)
qed

lemma le_val_snoc_and_bound: "le_val (ys @ [y AND 0x7F]) < 128 * 256 ^ length ys"
proof -
  have "unat (y AND 0x7F) \<le> 127" by (simp add: unat_and_0x7F)
  then have "le_val ys + 256 ^ length ys * unat (y AND 0x7F)
      < 256 ^ length ys + 256 ^ length ys * 127"
    by (intro add_less_le_mono le_val_bound mult_le_mono) auto
  then show ?thesis by (simp add: le_val_append)
qed

lemma set_vch_snoc:
  assumes "length ys < 8"
  shows "set_vch (ys @ [y]) = (if bit y 7 then - 1 else 1) * int (le_val (ys @ [y AND 0x7F]))"
proof -
  let ?k = "length ys" and ?r = "vch_bits 0 0 (ys @ [y])"
  have r: "unat ?r = le_val (ys @ [y AND 0x7F]) + (if bit y 7 then 128 * 256 ^ ?k else 0)"
    using assms unat_high_bit [of y] by (simp add: vch_bits_eq_le_val le_val_append algebra_simps)
  have "(256::nat) ^ ?k \<le> 256 ^ 7" using assms by (intro power_increasing) auto
  then have b: "le_val (ys @ [y AND 0x7F]) < 2 ^ 63"
    using le_val_snoc_and_bound [of ys y] by simp
  show ?thesis
  proof (cases "bit y 7")
    case False
    then show ?thesis
      using r b by (simp add: set_vch_def Let_def byte_high_bit sint_eq_unat del: vch_bits.simps)
  next
    case True
    have p: "push_bit (8 * ?k) 0x80 = (2 :: u64) ^ (8 * ?k + 7)"
      by (simp add: push_bit_eq_mult power_add)
    have n: "unat ((2 :: u64) ^ (8 * ?k + 7)) = 128 * 256 ^ ?k"
    proof -
      have "(2::nat) ^ (8 * ?k + 7) < 2 ^ 64"
        using assms by (intro power_strict_increasing) auto
      moreover have "(2 :: u64) ^ (8 * ?k + 7) = of_nat (2 ^ (8 * ?k + 7))" by simp
      ultimately have "unat ((2 :: u64) ^ (8 * ?k + 7)) = 2 ^ (8 * ?k + 7)"
        by (simp only: unat_of_nat) simp
      then show ?thesis by (simp add: power_add power_mult)
    qed
    have "bit ?r (8 * ?k + 7)"
    proof -
      have "unat ?r div 2 ^ (8 * ?k + 7) = 1"
        using r True le_val_snoc_and_bound [of ys y]
        by (simp add: power_add power_mult div_nat_eqI)
      then show ?thesis
        using bit_unsigned_iff [where 'a = nat, of ?r "8 * ?k + 7"] assms
        by (simp add: bit_iff_odd)
    qed
    then have "?r AND NOT (push_bit (8 * ?k) 0x80) = ?r - 2 ^ (8 * ?k + 7)"
      unfolding p using unset_bit_eq_and_not [of "8 * ?k + 7" ?r] unset_bit_eq [of "8 * ?k + 7" ?r]
      by (simp add: push_bit_eq_mult)
    moreover have "unat (?r - 2 ^ (8 * ?k + 7)) = le_val (ys @ [y AND 0x7F])"
      using r True n by (simp add: unat_sub_if_size del: vch_bits.simps)
    ultimately show ?thesis
      using True b by (simp add: set_vch_def Let_def byte_high_bit sint_eq_unat del: vch_bits.simps)
  qed
qed

lemma le_val_abs_bytes [simp]: "le_val (abs_bytes n) = n"
  by (induction n rule: abs_bytes.induct) (subst abs_bytes.simps, simp)

lemma abs_bytes_0 [simp]: "abs_bytes 0 = []"
  by (simp add: abs_bytes.simps)

lemma abs_bytes_eq_Nil_iff [simp]: "abs_bytes n = [] \<longleftrightarrow> n = 0"
  by (simp add: abs_bytes.simps)

lemma abs_bytes_last: "n \<noteq> 0 \<Longrightarrow> last (abs_bytes n) \<noteq> 0"
proof (induction n rule: abs_bytes.induct)
  case (1 n)
  show ?case
  proof (cases "n div 256 = 0")
    case True
    then have "n < 256" by (simp add: div_eq_0_iff)
    then have "(of_nat n :: byte) \<noteq> 0"
      using 1(2) unat_of_nat_byte [of n] by (auto simp: word_eq_iff_unsigned [where 'a = nat])
    with \<open>n < 256\<close> show ?thesis
      using 1(2) True by (subst abs_bytes.simps) simp
  next
    case False
    with 1 show ?thesis by (subst abs_bytes.simps) (simp add: abs_bytes_eq_Nil_iff)
  qed
qed

lemma abs_bytes_le_val: "bs = [] \<or> last bs \<noteq> 0 \<Longrightarrow> abs_bytes (le_val bs) = bs"
proof (induction bs)
  case (Cons b bs)
  have nz: "le_val (b # bs) \<noteq> 0"
    using Cons.prems by (auto simp: le_val_zero_iff unat_eq_zero split: if_splits dest: last_in_set)
  have "abs_bytes (le_val bs) = bs"
    using Cons by (auto split: if_splits)
  with nz show ?case
    by (subst abs_bytes.simps) (simp add: unat_byte_less)
qed simp

lemma length_abs_bytes_le_iff: "length (abs_bytes n) \<le> k \<longleftrightarrow> n < 256 ^ k"
proof (induction n arbitrary: k rule: abs_bytes.induct)
  case (1 n)
  show ?case
  proof (cases "n = 0")
    case False
    show ?thesis
    proof (cases k)
      case (Suc l)
      have "length (abs_bytes n) \<le> k \<longleftrightarrow> length (abs_bytes (n div 256)) \<le> l"
        using False Suc by (subst abs_bytes.simps) simp
      also have "\<dots> \<longleftrightarrow> n div 256 < 256 ^ l" using 1 False by simp
      also have "\<dots> \<longleftrightarrow> n < 256 ^ k" using Suc by (simp add: div_less_iff_less_mult mult.commute)
      finally show ?thesis .
    qed (use False in simp)
  qed simp
qed

text \<open>
  The encoding read back, and that it is the only one the minimality test accepts.  Below 64 bits
  the magnitude and the sign of a number determine its bytes.
\<close>

lemma bit_int_0x7F: "bit (127 :: int) n \<longleftrightarrow> n < 7"
  using bit_mask_iff [where 'a = int, of 7 n] by (simp add: mask_eq_exp_minus_1)

lemma byte_high_bit_clear: "(c :: byte) AND 0x80 = 0 \<longleftrightarrow> \<not> bit c 7"
  using byte_high_bit [of c] by blast

lemma or_0x80_and_0x7F: "(y OR 0x80) AND 0x7F = (y AND 0x7F :: byte)"
  by (rule bit_eqI) (auto simp: bit_simps bit_int_0x7F bit_int_0x80)

lemma bit_or_0x80 [simp]: "bit (y OR 0x80 :: byte) 7"
  by (simp add: bit_simps)

lemma and_0x7F_eq_self: "\<not> bit y 7 \<Longrightarrow> y AND 0x7F = (y :: byte)"
  using unat_high_bit [of y] by (simp add: word_eq_iff_unsigned [where 'a = nat])

lemma and_0x7F_or_0x80: "bit y 7 \<Longrightarrow> (y AND 0x7F) OR 0x80 = (y :: byte)"
  by (rule bit_eqI) (auto simp: bit_simps bit_int_0x7F bit_int_0x80)

lemma ScriptNum_serialize_cases:
  assumes "n \<noteq> 0"
  obtains ys y where "abs_bytes (nat \<bar>n\<bar>) = ys @ [y]" "y \<noteq> 0"
    "ScriptNum_serialize n =
       (if bit y 7 then ys @ [y, if n < 0 then 0x80 else 0]
        else if n < 0 then ys @ [y OR 0x80] else ys @ [y])"
proof -
  have "abs_bytes (nat \<bar>n\<bar>) \<noteq> []" using assms by simp
  then obtain ys y where eq: "abs_bytes (nat \<bar>n\<bar>) = ys @ [y]"
    by (cases "abs_bytes (nat \<bar>n\<bar>)" rule: rev_cases) auto
  moreover have "y \<noteq> 0" using abs_bytes_last [of "nat \<bar>n\<bar>"] eq assms by simp
  ultimately show ?thesis
    using assms by (intro that) (auto simp: ScriptNum_serialize_def Let_def byte_high_bit)
qed

lemma length_ScriptNum_serialize:
  assumes "\<bar>n\<bar> < 2 ^ (8 * k + 7)"
  shows "length (ScriptNum_serialize n) \<le> Suc k"
proof (cases "n = 0")
  case False
  then obtain ys y where y: "abs_bytes (nat \<bar>n\<bar>) = ys @ [y]"
    and s: "ScriptNum_serialize n =
       (if bit y 7 then ys @ [y, if n < 0 then 0x80 else 0]
        else if n < 0 then ys @ [y OR 0x80] else ys @ [y])"
    by (rule ScriptNum_serialize_cases)
  have m: "le_val (ys @ [y]) < 128 * 256 ^ k"
  proof -
    have "nat \<bar>n\<bar> < nat (2 ^ (8 * k + 7))" using assms by (simp add: nat_less_iff)
    also have "nat (2 ^ (8 * k + 7)) = 128 * 256 ^ k"
      by (simp add: nat_power_eq power_add power_mult nat_mult_distrib)
    finally show ?thesis using le_val_abs_bytes [of "nat \<bar>n\<bar>"] y by simp
  qed
  then have "length (ys @ [y]) \<le> Suc k"
    using length_abs_bytes_le_iff [of "nat \<bar>n\<bar>" "Suc k"] le_val_abs_bytes [of "nat \<bar>n\<bar>"] y by simp
  moreover have "length ys < k" if "bit y 7"
  proof (rule ccontr)
    assume "\<not> length ys < k"
    then have "(256::nat) ^ k * 128 \<le> 256 ^ length ys * unat y"
      using that unat_high_bit [of y] by (intro mult_le_mono power_increasing) auto
    with m show False by (simp add: le_val_append)
  qed
  ultimately show ?thesis using s by auto
qed (simp add: ScriptNum_serialize_def)

lemma set_vch_ScriptNum_serialize:
  assumes "\<bar>n\<bar> < 2 ^ 63"
  shows "set_vch (ScriptNum_serialize n) = n"
proof (cases "n = 0")
  case False
  then obtain ys y where y: "abs_bytes (nat \<bar>n\<bar>) = ys @ [y]"
    and s: "ScriptNum_serialize n =
       (if bit y 7 then ys @ [y, if n < 0 then 0x80 else 0]
        else if n < 0 then ys @ [y OR 0x80] else ys @ [y])"
    by (rule ScriptNum_serialize_cases)
  have v: "le_val (ys @ [y]) = nat \<bar>n\<bar>" using le_val_abs_bytes [of "nat \<bar>n\<bar>"] y by simp
  have len: "length (ScriptNum_serialize n) \<le> 8"
    using length_ScriptNum_serialize [of n 7] assms by simp
  show ?thesis
  proof (cases "bit y 7")
    case True
    have "le_val ((ys @ [y]) @ [0]) = nat \<bar>n\<bar>" using v by (simp add: le_val_append)
    then show ?thesis
      using True s len set_vch_snoc [of "ys @ [y]" "if n < 0 then 0x80 else 0"]
      by (auto simp: bit_numeral_rec split: if_splits)
  next
    case False
    then show ?thesis
      using s len v set_vch_snoc [of ys "if n < 0 then y OR 0x80 else y"]
      by (simp add: or_0x80_and_0x7F and_0x7F_eq_self split: if_splits)
  qed
qed (simp add: ScriptNum_serialize_def set_vch_def)

text \<open>
  C36: under the requirement of a minimal encoding the bytes of a script number are determined by
  its value: whatever is accepted is what the serialiser would have written.
\<close>
theorem ScriptNum_serialize_set_vch:
  assumes "CScriptNum vch True k = Inr n" and "k \<le> 8"
  shows "ScriptNum_serialize n = vch"
proof (cases vch rule: rev_cases)
  case Nil
  with assms show ?thesis
    by (auto simp: CScriptNum_def set_vch_def ScriptNum_serialize_def split: if_splits)
next
  case (snoc ys y)
  have min: "y AND 0x7F \<noteq> 0 \<or> (ys \<noteq> [] \<and> bit (last ys) 7)"
    and n: "n = set_vch (ys @ [y])" and len: "length ys < 8"
    using assms snoc
    by (auto simp: CScriptNum_def nth_append last_conv_nth byte_high_bit_clear split: if_splits)
  define m where "m = le_val (ys @ [y AND 0x7F])"
  have nm: "n = (if bit y 7 then - 1 else 1) * int m"
    using set_vch_snoc [OF len] n by (simp add: m_def)
  show ?thesis
  proof (cases "y AND 0x7F = 0")
    case False
    then have "abs_bytes m = ys @ [y AND 0x7F]"
      unfolding m_def by (intro abs_bytes_le_val) simp
    moreover from this have "m \<noteq> 0" by (metis abs_bytes_0 append_is_Nil_conv list.distinct(1))
    moreover have "\<not> bit (y AND 0x7F) 7" by (simp add: bit_simps)
    ultimately show ?thesis
      unfolding snoc using nm and_0x7F_eq_self [of y] and_0x7F_or_0x80 [of y]
      by (cases "bit y 7") (simp_all add: ScriptNum_serialize_def Let_def byte_high_bit)
  next
    case True
    with min have ys: "ys \<noteq> []" "bit (last ys) 7" by auto
    then have "last ys \<noteq> 0" by auto
    then have "abs_bytes m = ys"
      using True unfolding m_def by (simp add: le_val_append abs_bytes_le_val)
    moreover from this ys have "m \<noteq> 0" by (metis abs_bytes_0)
    moreover have "bit y 7 \<Longrightarrow> y = 0x80" "\<not> bit y 7 \<Longrightarrow> y = 0"
      using True and_0x7F_eq_self [of y] and_0x7F_or_0x80 [of y] by simp_all
    ultimately show ?thesis
      unfolding snoc using nm ys
      by (cases "bit y 7") (simp_all add: ScriptNum_serialize_def Let_def byte_high_bit)
  qed
qed

theorem ScriptNum_serialize_set_vch_witness:
  "ScriptNum_serialize (- 300) = [0x2c, 0x81]"
  by (rule ScriptNum_serialize_set_vch [of _ 4]) code_simp+

text \<open>
  C37: a script number that fits the size limit is read back from its serialisation, with or
  without the requirement of a minimal encoding.
\<close>
theorem ScriptNum_serialize_minimal:
  assumes "length (ScriptNum_serialize n) \<le> k" "\<bar>n\<bar> < 2 ^ 63"
  shows "CScriptNum (ScriptNum_serialize n) fRequireMinimal k = Inr n"
proof (cases "n = 0")
  case False
  then obtain ys y where nz: "y \<noteq> 0"
    and s: "ScriptNum_serialize n =
       (if bit y 7 then ys @ [y, if n < 0 then 0x80 else 0]
        else if n < 0 then ys @ [y OR 0x80] else ys @ [y])"
    by (rule ScriptNum_serialize_cases)
  have "bit y 7 \<or> y AND 0x7F \<noteq> 0"
    using and_0x7F_eq_self [of y] nz by auto
  then show ?thesis
    using assms(1) set_vch_ScriptNum_serialize [OF assms(2)] unfolding s
    by (cases "bit y 7"; cases "n < 0")
      (simp_all add: CScriptNum_def nth_append or_0x80_and_0x7F byte_high_bit_clear)
qed (simp add: CScriptNum_def ScriptNum_serialize_def set_vch_def)

theorem ScriptNum_serialize_minimal_witness:
  "CScriptNum (ScriptNum_serialize (- 300)) True 4 = Inr (- 300)"
  by (rule ScriptNum_serialize_minimal) code_simp+

lemma abs_set_vch_bound:
  assumes "length vch \<le> Suc k" and "k < 8"
  shows "\<bar>set_vch vch\<bar> < 2 ^ (8 * k + 7)"
proof (cases vch rule: rev_cases)
  case (snoc ys y)
  with assms have "length ys \<le> k" by simp
  then have "(256::nat) ^ length ys \<le> 256 ^ k" by (intro power_increasing) auto
  then have "128 * (256::nat) ^ length ys \<le> 2 ^ (8 * k + 7)"
    by (simp only: power_add power_mult) simp
  then have "le_val (ys @ [y AND 0x7F]) < 2 ^ (8 * k + 7)"
    by (rule less_le_trans [OF le_val_snoc_and_bound])
  then have "int (le_val (ys @ [y AND 0x7F])) < int (2 ^ (8 * k + 7))"
    by (simp only: of_nat_less_iff)
  then show ?thesis
    using set_vch_snoc [of ys y] snoc assms by (auto simp: abs_mult)
qed (simp add: set_vch_def)

lemma ScriptNum_serialize_1: "ScriptNum_serialize 1 = [1]"
  by code_simp

end
