(* ===== verification/Script.thy ===== *)
theory Script
  imports ScriptNum
begin

text \<open>
  Scripts (\<open>src/src/script/script.h\<close>, \<open>src/src/script/script.cpp\<close>): the opcodes, building and parsing a serialised script, and the shape tests the
  consensus code makes on scripts.

  A script is its byte string.  A \<open>const_iterator\<close> into it is the list of the bytes from that
  position to the end, so \<open>pc == end()\<close> is \<open>pc = []\<close>.  An \<open>opcodetype\<close> is the value of its byte:
  the parser casts every byte to it, those without an enumerator too.
\<close>

section \<open>Limits and opcodes\<close>

type_synonym opcodetype = nat
type_synonym CScript = "byte list"

abbreviation (input) MAX_SCRIPT_ELEMENT_SIZE :: nat where "MAX_SCRIPT_ELEMENT_SIZE \<equiv> 128000"
abbreviation (input) MAX_OPS_PER_SCRIPT :: int where "MAX_OPS_PER_SCRIPT \<equiv> 201"
abbreviation (input) MAX_PUBKEYS_PER_MULTISIG :: int where "MAX_PUBKEYS_PER_MULTISIG \<equiv> 20"
abbreviation (input) MAX_SCRIPT_SIZE :: nat where "MAX_SCRIPT_SIZE \<equiv> 129000"
abbreviation (input) MAX_STACK_SIZE :: nat where "MAX_STACK_SIZE \<equiv> 1000"
abbreviation (input) LOCKTIME_THRESHOLD :: int where "LOCKTIME_THRESHOLD \<equiv> 500000000"

abbreviation (input) OP_0 :: opcodetype where "OP_0 \<equiv> 0x0"
abbreviation (input) OP_FALSE :: opcodetype where "OP_FALSE \<equiv> 0x0"
abbreviation (input) OP_PUSHDATA1 :: opcodetype where "OP_PUSHDATA1 \<equiv> 0x4c"
abbreviation (input) OP_PUSHDATA2 :: opcodetype where "OP_PUSHDATA2 \<equiv> 0x4d"
abbreviation (input) OP_PUSHDATA4 :: opcodetype where "OP_PUSHDATA4 \<equiv> 0x4e"
abbreviation (input) OP_1NEGATE :: opcodetype where "OP_1NEGATE \<equiv> 0x4f"
abbreviation (input) OP_RESERVED :: opcodetype where "OP_RESERVED \<equiv> 0x50"
abbreviation (input) OP_1 :: opcodetype where "OP_1 \<equiv> 0x51"
abbreviation (input) OP_TRUE :: opcodetype where "OP_TRUE \<equiv> 0x51"
abbreviation (input) OP_2 :: opcodetype where "OP_2 \<equiv> 0x52"
abbreviation (input) OP_3 :: opcodetype where "OP_3 \<equiv> 0x53"
abbreviation (input) OP_4 :: opcodetype where "OP_4 \<equiv> 0x54"
abbreviation (input) OP_5 :: opcodetype where "OP_5 \<equiv> 0x55"
abbreviation (input) OP_6 :: opcodetype where "OP_6 \<equiv> 0x56"
abbreviation (input) OP_7 :: opcodetype where "OP_7 \<equiv> 0x57"
abbreviation (input) OP_8 :: opcodetype where "OP_8 \<equiv> 0x58"
abbreviation (input) OP_9 :: opcodetype where "OP_9 \<equiv> 0x59"
abbreviation (input) OP_10 :: opcodetype where "OP_10 \<equiv> 0x5a"
abbreviation (input) OP_11 :: opcodetype where "OP_11 \<equiv> 0x5b"
abbreviation (input) OP_12 :: opcodetype where "OP_12 \<equiv> 0x5c"
abbreviation (input) OP_13 :: opcodetype where "OP_13 \<equiv> 0x5d"
abbreviation (input) OP_14 :: opcodetype where "OP_14 \<equiv> 0x5e"
abbreviation (input) OP_15 :: opcodetype where "OP_15 \<equiv> 0x5f"
abbreviation (input) OP_16 :: opcodetype where "OP_16 \<equiv> 0x60"
abbreviation (input) OP_NOP :: opcodetype where "OP_NOP \<equiv> 0x61"
abbreviation (input) OP_VER :: opcodetype where "OP_VER \<equiv> 0x62"
abbreviation (input) OP_IF :: opcodetype where "OP_IF \<equiv> 0x63"
abbreviation (input) OP_NOTIF :: opcodetype where "OP_NOTIF \<equiv> 0x64"
abbreviation (input) OP_VERIF :: opcodetype where "OP_VERIF \<equiv> 0x65"
abbreviation (input) OP_VERNOTIF :: opcodetype where "OP_VERNOTIF \<equiv> 0x66"
abbreviation (input) OP_ELSE :: opcodetype where "OP_ELSE \<equiv> 0x67"
abbreviation (input) OP_ENDIF :: opcodetype where "OP_ENDIF \<equiv> 0x68"
abbreviation (input) OP_VERIFY :: opcodetype where "OP_VERIFY \<equiv> 0x69"
abbreviation (input) OP_RETURN :: opcodetype where "OP_RETURN \<equiv> 0x6a"
abbreviation (input) OP_TOALTSTACK :: opcodetype where "OP_TOALTSTACK \<equiv> 0x6b"
abbreviation (input) OP_FROMALTSTACK :: opcodetype where "OP_FROMALTSTACK \<equiv> 0x6c"
abbreviation (input) OP_2DROP :: opcodetype where "OP_2DROP \<equiv> 0x6d"
abbreviation (input) OP_2DUP :: opcodetype where "OP_2DUP \<equiv> 0x6e"
abbreviation (input) OP_3DUP :: opcodetype where "OP_3DUP \<equiv> 0x6f"
abbreviation (input) OP_2OVER :: opcodetype where "OP_2OVER \<equiv> 0x70"
abbreviation (input) OP_2ROT :: opcodetype where "OP_2ROT \<equiv> 0x71"
abbreviation (input) OP_2SWAP :: opcodetype where "OP_2SWAP \<equiv> 0x72"
abbreviation (input) OP_IFDUP :: opcodetype where "OP_IFDUP \<equiv> 0x73"
abbreviation (input) OP_DEPTH :: opcodetype where "OP_DEPTH \<equiv> 0x74"
abbreviation (input) OP_DROP :: opcodetype where "OP_DROP \<equiv> 0x75"
abbreviation (input) OP_DUP :: opcodetype where "OP_DUP \<equiv> 0x76"
abbreviation (input) OP_NIP :: opcodetype where "OP_NIP \<equiv> 0x77"
abbreviation (input) OP_OVER :: opcodetype where "OP_OVER \<equiv> 0x78"
abbreviation (input) OP_PICK :: opcodetype where "OP_PICK \<equiv> 0x79"
abbreviation (input) OP_ROLL :: opcodetype where "OP_ROLL \<equiv> 0x7a"
abbreviation (input) OP_ROT :: opcodetype where "OP_ROT \<equiv> 0x7b"
abbreviation (input) OP_SWAP :: opcodetype where "OP_SWAP \<equiv> 0x7c"
abbreviation (input) OP_TUCK :: opcodetype where "OP_TUCK \<equiv> 0x7d"
abbreviation (input) OP_CAT :: opcodetype where "OP_CAT \<equiv> 0x7e"
abbreviation (input) OP_SUBSTR :: opcodetype where "OP_SUBSTR \<equiv> 0x7f"
abbreviation (input) OP_LEFT :: opcodetype where "OP_LEFT \<equiv> 0x80"
abbreviation (input) OP_RIGHT :: opcodetype where "OP_RIGHT \<equiv> 0x81"
abbreviation (input) OP_SIZE :: opcodetype where "OP_SIZE \<equiv> 0x82"
abbreviation (input) OP_INVERT :: opcodetype where "OP_INVERT \<equiv> 0x83"
abbreviation (input) OP_AND :: opcodetype where "OP_AND \<equiv> 0x84"
abbreviation (input) OP_OR :: opcodetype where "OP_OR \<equiv> 0x85"
abbreviation (input) OP_XOR :: opcodetype where "OP_XOR \<equiv> 0x86"
abbreviation (input) OP_EQUAL :: opcodetype where "OP_EQUAL \<equiv> 0x87"
abbreviation (input) OP_EQUALVERIFY :: opcodetype where "OP_EQUALVERIFY \<equiv> 0x88"
abbreviation (input) OP_RESERVED1 :: opcodetype where "OP_RESERVED1 \<equiv> 0x89"
abbreviation (input) OP_RESERVED2 :: opcodetype where "OP_RESERVED2 \<equiv> 0x8a"
abbreviation (input) OP_1ADD :: opcodetype where "OP_1ADD \<equiv> 0x8b"
abbreviation (input) OP_1SUB :: opcodetype where "OP_1SUB \<equiv> 0x8c"
abbreviation (input) OP_2MUL :: opcodetype where "OP_2MUL \<equiv> 0x8d"
abbreviation (input) OP_2DIV :: opcodetype where "OP_2DIV \<equiv> 0x8e"
abbreviation (input) OP_NEGATE :: opcodetype where "OP_NEGATE \<equiv> 0x8f"
abbreviation (input) OP_ABS :: opcodetype where "OP_ABS \<equiv> 0x90"
abbreviation (input) OP_NOT :: opcodetype where "OP_NOT \<equiv> 0x91"
abbreviation (input) OP_0NOTEQUAL :: opcodetype where "OP_0NOTEQUAL \<equiv> 0x92"
abbreviation (input) OP_ADD :: opcodetype where "OP_ADD \<equiv> 0x93"
abbreviation (input) OP_SUB :: opcodetype where "OP_SUB \<equiv> 0x94"
abbreviation (input) OP_MUL :: opcodetype where "OP_MUL \<equiv> 0x95"
abbreviation (input) OP_DIV :: opcodetype where "OP_DIV \<equiv> 0x96"
abbreviation (input) OP_MOD :: opcodetype where "OP_MOD \<equiv> 0x97"
abbreviation (input) OP_LSHIFT :: opcodetype where "OP_LSHIFT \<equiv> 0x98"
abbreviation (input) OP_RSHIFT :: opcodetype where "OP_RSHIFT \<equiv> 0x99"
abbreviation (input) OP_BOOLAND :: opcodetype where "OP_BOOLAND \<equiv> 0x9a"
abbreviation (input) OP_BOOLOR :: opcodetype where "OP_BOOLOR \<equiv> 0x9b"
abbreviation (input) OP_NUMEQUAL :: opcodetype where "OP_NUMEQUAL \<equiv> 0x9c"
abbreviation (input) OP_NUMEQUALVERIFY :: opcodetype where "OP_NUMEQUALVERIFY \<equiv> 0x9d"
abbreviation (input) OP_NUMNOTEQUAL :: opcodetype where "OP_NUMNOTEQUAL \<equiv> 0x9e"
abbreviation (input) OP_LESSTHAN :: opcodetype where "OP_LESSTHAN \<equiv> 0x9f"
abbreviation (input) OP_GREATERTHAN :: opcodetype where "OP_GREATERTHAN \<equiv> 0xa0"
abbreviation (input) OP_LESSTHANOREQUAL :: opcodetype where "OP_LESSTHANOREQUAL \<equiv> 0xa1"
abbreviation (input) OP_GREATERTHANOREQUAL :: opcodetype where "OP_GREATERTHANOREQUAL \<equiv> 0xa2"
abbreviation (input) OP_MIN :: opcodetype where "OP_MIN \<equiv> 0xa3"
abbreviation (input) OP_MAX :: opcodetype where "OP_MAX \<equiv> 0xa4"
abbreviation (input) OP_WITHIN :: opcodetype where "OP_WITHIN \<equiv> 0xa5"
abbreviation (input) OP_RIPEMD160 :: opcodetype where "OP_RIPEMD160 \<equiv> 0xa6"
abbreviation (input) OP_SHA1 :: opcodetype where "OP_SHA1 \<equiv> 0xa7"
abbreviation (input) OP_SHA256 :: opcodetype where "OP_SHA256 \<equiv> 0xa8"
abbreviation (input) OP_HASH160 :: opcodetype where "OP_HASH160 \<equiv> 0xa9"
abbreviation (input) OP_HASH256 :: opcodetype where "OP_HASH256 \<equiv> 0xaa"
abbreviation (input) OP_CODESEPARATOR :: opcodetype where "OP_CODESEPARATOR \<equiv> 0xab"
abbreviation (input) OP_CHECKSIG :: opcodetype where "OP_CHECKSIG \<equiv> 0xac"
abbreviation (input) OP_CHECKSIGVERIFY :: opcodetype where "OP_CHECKSIGVERIFY \<equiv> 0xad"
abbreviation (input) OP_CHECKMULTISIG :: opcodetype where "OP_CHECKMULTISIG \<equiv> 0xae"
abbreviation (input) OP_CHECKMULTISIGVERIFY :: opcodetype where "OP_CHECKMULTISIGVERIFY \<equiv> 0xaf"
abbreviation (input) OP_NOP1 :: opcodetype where "OP_NOP1 \<equiv> 0xb0"
abbreviation (input) OP_CHECKLOCKTIMEVERIFY :: opcodetype where "OP_CHECKLOCKTIMEVERIFY \<equiv> 0xb1"
abbreviation (input) OP_NOP2 :: opcodetype where "OP_NOP2 \<equiv> 0xb1"
abbreviation (input) OP_CHECKSEQUENCEVERIFY :: opcodetype where "OP_CHECKSEQUENCEVERIFY \<equiv> 0xb2"
abbreviation (input) OP_NOP3 :: opcodetype where "OP_NOP3 \<equiv> 0xb2"
abbreviation (input) OP_NOP4 :: opcodetype where "OP_NOP4 \<equiv> 0xb3"
abbreviation (input) OP_NOP5 :: opcodetype where "OP_NOP5 \<equiv> 0xb4"
abbreviation (input) OP_NOP6 :: opcodetype where "OP_NOP6 \<equiv> 0xb5"
abbreviation (input) OP_NOP7 :: opcodetype where "OP_NOP7 \<equiv> 0xb6"
abbreviation (input) OP_NOP8 :: opcodetype where "OP_NOP8 \<equiv> 0xb7"
abbreviation (input) OP_NOP9 :: opcodetype where "OP_NOP9 \<equiv> 0xb8"
abbreviation (input) OP_NOP10 :: opcodetype where "OP_NOP10 \<equiv> 0xb9"
abbreviation (input) OP_CREATE :: opcodetype where "OP_CREATE \<equiv> 0xc1"
abbreviation (input) OP_CALL :: opcodetype where "OP_CALL \<equiv> 0xc2"
abbreviation (input) OP_SPEND :: opcodetype where "OP_SPEND \<equiv> 0xc3"
abbreviation (input) OP_GAS_PRICE :: opcodetype where "OP_GAS_PRICE \<equiv> 0xf5"
abbreviation (input) OP_VERSION :: opcodetype where "OP_VERSION \<equiv> 0xf6"
abbreviation (input) OP_GAS_LIMIT :: opcodetype where "OP_GAS_LIMIT \<equiv> 0xf7"
abbreviation (input) OP_DATA :: opcodetype where "OP_DATA \<equiv> 0xf8"
abbreviation (input) OP_SMALLINTEGER :: opcodetype where "OP_SMALLINTEGER \<equiv> 0xfa"
abbreviation (input) OP_PUBKEYS :: opcodetype where "OP_PUBKEYS \<equiv> 0xfb"
abbreviation (input) OP_PUBKEYHASH :: opcodetype where "OP_PUBKEYHASH \<equiv> 0xfd"
abbreviation (input) OP_PUBKEY :: opcodetype where "OP_PUBKEY \<equiv> 0xfe"
abbreviation (input) OP_INVALIDOPCODE :: opcodetype where "OP_INVALIDOPCODE \<equiv> 0xff"

abbreviation (input) MAX_OPCODE :: opcodetype where "MAX_OPCODE \<equiv> OP_NOP10"

section \<open>Building scripts\<close>

definition push_opcode :: "CScript \<Rightarrow> opcodetype \<Rightarrow> CScript option" where
  "push_opcode s opcode = (if opcode > 0xff then None else Some (s @ [of_nat opcode]))"

definition push_vch :: "CScript \<Rightarrow> valtype \<Rightarrow> CScript" where
  "push_vch s b =
     (if length b < OP_PUSHDATA1 then s @ [of_nat (length b)]
      else if length b \<le> 0xff then s @ [of_nat OP_PUSHDATA1, of_nat (length b)]
      else if length b \<le> 0xffff then s @ [of_nat OP_PUSHDATA2] @ WriteLE16 (of_nat (length b))
      else s @ [of_nat OP_PUSHDATA4] @ WriteLE32 (of_nat (length b))) @ b"

definition push_int64 :: "CScript \<Rightarrow> int \<Rightarrow> CScript" where
  "push_int64 s n =
     (if n = - 1 \<or> (n \<ge> 1 \<and> n \<le> 16) then s @ [of_int (n + (int OP_1 - 1))]
      else if n = 0 then s @ [of_nat OP_0]
      else push_vch s (ScriptNum_serialize n))"

section \<open>Parsing scripts\<close>

definition push_size :: "opcodetype \<Rightarrow> byte list \<Rightarrow> (nat \<times> byte list) option" where
  "push_size opcode pc =
     (if opcode < OP_PUSHDATA1 then Some (opcode, pc)
      else if opcode = OP_PUSHDATA1 then
        (case pc of [] \<Rightarrow> None | b # pc' \<Rightarrow> Some (unat b, pc'))
      else if opcode = OP_PUSHDATA2 then
        (if length pc < 2 then None else Some (unat (ReadLE16 (take 2 pc)), drop 2 pc))
      else if opcode = OP_PUSHDATA4 then
        (if length pc < 4 then None else Some (unat (ReadLE32 (take 4 pc)), drop 4 pc))
      else Some (0, pc))"

definition GetScriptOp :: "byte list \<Rightarrow> bool \<times> opcodetype \<times> valtype \<times> byte list" where
  "GetScriptOp pc =
     (case pc of
        [] \<Rightarrow> (False, OP_INVALIDOPCODE, [], [])
      | b # pc1 \<Rightarrow>
          let opcode = unat b
          in if opcode \<le> OP_PUSHDATA4 then
               (case push_size opcode pc1 of
                  None \<Rightarrow> (False, OP_INVALIDOPCODE, [], pc1)
                | Some (nSize, pc2) \<Rightarrow>
                    if length pc2 < nSize then (False, OP_INVALIDOPCODE, [], pc2)
                    else (True, opcode, take nSize pc2, drop nSize pc2))
             else (True, opcode, [], pc1))"

lemma push_size_shorter: "push_size opcode pc = Some (n, pc') \<Longrightarrow> length pc' \<le> length pc"
  by (auto simp: push_size_def split: if_splits list.splits)

lemma push_size_suffix: "push_size opcode pc = Some (n, pc') \<Longrightarrow> suffix pc' pc"
  by (auto simp: push_size_def suffix_drop split: if_splits list.splits intro: suffix_ConsI)

lemma GetScriptOp_Nil [simp]: "GetScriptOp [] = (False, OP_INVALIDOPCODE, [], [])"
  by (simp add: GetScriptOp_def)

lemma GetScriptOp_shorter:
  assumes "GetScriptOp pc = (ok, opcode, vch, pc')" and "pc \<noteq> []"
  shows "length pc' < length pc"
  using assms
  by (auto simp: GetScriptOp_def Let_def dest!: push_size_shorter
           split: list.splits if_splits option.splits prod.splits)

lemma GetScriptOp_ok_shorter:
  assumes "GetScriptOp pc = (True, opcode, vch, pc')"
  shows "length pc' < length pc"
  using assms by (cases "pc = []") (auto intro: GetScriptOp_shorter)

lemma GetScriptOp_suffix:
  assumes "GetScriptOp pc = (ok, opcode, vch, pc')"
  shows "suffix pc' pc"
  using assms
  by (auto simp: GetScriptOp_def Let_def dest!: push_size_suffix
           split: list.splits if_splits option.splits prod.splits
           intro: suffix_ConsI suffix_order.trans [OF suffix_drop])

section \<open>Shape tests and counts\<close>

text \<open>
  \<open>DecodeOP_N\<close> and \<open>EncodeOP_N\<close> assert their argument in range; every caller has tested the range
  before the call.  The counters are \<open>unsigned int\<close> and \<open>int\<close> in the code; the bounds below keep
  them below 20 times the length of the script.
\<close>

definition DecodeOP_N :: "opcodetype \<Rightarrow> int" where
  "DecodeOP_N opcode = (if opcode = OP_0 then 0 else int opcode - (int OP_1 - 1))"

definition EncodeOP_N :: "int \<Rightarrow> opcodetype" where
  "EncodeOP_N n = (if n = 0 then OP_0 else nat (int OP_1 + n - 1))"

function Find_loop :: "opcodetype \<Rightarrow> nat \<Rightarrow> byte list \<Rightarrow> nat" where
  "Find_loop opc nFound pc =
     (case GetScriptOp pc of (ok, opcode, _, pc') \<Rightarrow>
        if pc \<noteq> [] \<and> ok then Find_loop opc (if opcode = opc then nFound + 1 else nFound) pc'
        else nFound)"
  by pat_completeness auto
termination
  by (relation "measure (\<lambda>(_, _, pc). length pc)") (auto dest: GetScriptOp_shorter [OF sym])

definition Find :: "CScript \<Rightarrow> opcodetype \<Rightarrow> nat" where
  "Find s opc = Find_loop opc 0 s"

definition HasOpCreate :: "CScript \<Rightarrow> bool" where
  "HasOpCreate s \<longleftrightarrow> Find s OP_CREATE = 1"

definition HasOpCall :: "CScript \<Rightarrow> bool" where
  "HasOpCall s \<longleftrightarrow> Find s OP_CALL = 1"

definition HasOpSpend :: "CScript \<Rightarrow> bool" where
  "HasOpSpend s \<longleftrightarrow> length s = 1 \<and> unat (s ! 0) = OP_SPEND"

definition IsUnspendable :: "CScript \<Rightarrow> bool" where
  "IsUnspendable s \<longleftrightarrow> (length s > 0 \<and> unat (s ! 0) = OP_RETURN) \<or> length s > MAX_SCRIPT_SIZE"

function GetSigOpCount_loop :: "bool \<Rightarrow> opcodetype \<Rightarrow> nat \<Rightarrow> byte list \<Rightarrow> nat" where
  "GetSigOpCount_loop fAccurate lastOpcode n pc =
     (case GetScriptOp pc of (ok, opcode, _, pc') \<Rightarrow>
        if pc \<noteq> [] \<and> ok then
          GetSigOpCount_loop fAccurate opcode
            (if opcode = OP_CHECKSIG \<or> opcode = OP_CHECKSIGVERIFY then n + 1
             else if opcode = OP_CHECKMULTISIG \<or> opcode = OP_CHECKMULTISIGVERIFY then
               if fAccurate \<and> lastOpcode \<ge> OP_1 \<and> lastOpcode \<le> OP_16
               then n + nat (DecodeOP_N lastOpcode)
               else n + nat MAX_PUBKEYS_PER_MULTISIG
             else n) pc'
        else n)"
  by pat_completeness auto
termination
  by (relation "measure (\<lambda>(_, _, _, pc). length pc)") (auto dest: GetScriptOp_shorter [OF sym])

definition GetSigOpCount :: "CScript \<Rightarrow> bool \<Rightarrow> nat" where
  "GetSigOpCount s fAccurate = GetSigOpCount_loop fAccurate OP_INVALIDOPCODE 0 s"

definition IsPayToScriptHash :: "CScript \<Rightarrow> bool" where
  "IsPayToScriptHash s \<longleftrightarrow>
     length s = 23 \<and> unat (s ! 0) = OP_HASH160 \<and> s ! 1 = 0x14 \<and> unat (s ! 22) = OP_EQUAL"

function last_push_loop :: "valtype \<Rightarrow> byte list \<Rightarrow> valtype option" where
  "last_push_loop vData pc =
     (if pc = [] then Some vData
      else case GetScriptOp pc of (ok, opcode, vch, pc') \<Rightarrow>
        if ok \<and> opcode \<le> OP_16 then last_push_loop vch pc' else None)"
  by pat_completeness auto
termination
  by (relation "measure (\<lambda>(_, pc). length pc)") (auto dest: GetScriptOp_shorter [OF sym])

definition GetSigOpCount_p2sh :: "CScript \<Rightarrow> CScript \<Rightarrow> nat" where
  "GetSigOpCount_p2sh s scriptSig =
     (if \<not> IsPayToScriptHash s then GetSigOpCount s True
      else case last_push_loop [] scriptSig of
        None \<Rightarrow> 0
      | Some vData \<Rightarrow> GetSigOpCount vData True)"

definition IsPayToPubkey :: "CScript \<Rightarrow> bool" where
  "IsPayToPubkey s \<longleftrightarrow>
     (length s = 35 \<and> s ! 0 = 33 \<and> unat (s ! 34) = OP_CHECKSIG \<and> (s ! 1 = 0x02 \<or> s ! 1 = 0x03)) \<or>
     (length s = 67 \<and> s ! 0 = 65 \<and> unat (s ! 66) = OP_CHECKSIG \<and> s ! 1 = 0x04)"

definition IsPayToPubkeyHash :: "CScript \<Rightarrow> bool" where
  "IsPayToPubkeyHash s \<longleftrightarrow>
     length s = 25 \<and> unat (s ! 0) = OP_DUP \<and> unat (s ! 1) = OP_HASH160 \<and> s ! 2 = 0x14 \<and>
     unat (s ! 23) = OP_EQUALVERIFY \<and> unat (s ! 24) = OP_CHECKSIG"

definition IsPayToWitnessScriptHash :: "CScript \<Rightarrow> bool" where
  "IsPayToWitnessScriptHash s \<longleftrightarrow> length s = 34 \<and> unat (s ! 0) = OP_0 \<and> s ! 1 = 0x20"

definition IsWitnessProgram :: "CScript \<Rightarrow> (int \<times> valtype) option" where
  "IsWitnessProgram s =
     (if length s < 4 \<or> length s > 42 then None
      else if unat (s ! 0) \<noteq> OP_0 \<and> (unat (s ! 0) < OP_1 \<or> unat (s ! 0) > OP_16) then None
      else if unat (s ! 1) + 2 = length s then Some (DecodeOP_N (unat (s ! 0)), drop 2 s)
      else None)"

function IsPushOnly :: "byte list \<Rightarrow> bool" where
  "IsPushOnly pc =
     (if pc = [] then True
      else case GetScriptOp pc of (ok, opcode, _, pc') \<Rightarrow>
        if ok \<and> opcode \<le> OP_16 then IsPushOnly pc' else False)"
  by pat_completeness auto
termination
  by (relation "measure length") (auto dest: GetScriptOp_shorter [OF sym])

function HasValidOps :: "byte list \<Rightarrow> bool" where
  "HasValidOps it =
     (if it = [] then True
      else case GetScriptOp it of (ok, opcode, item, it') \<Rightarrow>
        if \<not> ok \<or> opcode > MAX_OPCODE \<or> length item > MAX_SCRIPT_ELEMENT_SIZE then False
        else HasValidOps it')"
  by pat_completeness auto
termination
  by (relation "measure length") (auto dest: GetScriptOp_shorter [OF sym])

declare Find_loop.simps [simp del] GetSigOpCount_loop.simps [simp del]
  last_push_loop.simps [simp del] IsPushOnly.simps [simp del] HasValidOps.simps [simp del]

section \<open>Parsing what was built\<close>

lemma push_vch_append: "push_vch s b = s @ push_vch [] b"
  by (simp add: push_vch_def)

definition push_op :: "valtype \<Rightarrow> opcodetype" where
  "push_op b = (if length b < OP_PUSHDATA1 then length b
                else if length b \<le> 0xff then OP_PUSHDATA1
                else if length b \<le> 0xffff then OP_PUSHDATA2 else OP_PUSHDATA4)"

lemma push_op_le: "push_op b \<le> OP_PUSHDATA4"
  by (simp add: push_op_def)

lemma GetScriptOp_push_vch:
  assumes "length b < 2 ^ 32"
  shows "GetScriptOp (push_vch [] b @ rest) = (True, push_op b, b, rest)"
proof -
  consider "length b < 76" | "76 \<le> length b" "length b \<le> 255"
    | "255 < length b" "length b \<le> 65535" | "65535 < length b"
    by linarith
  then show ?thesis
  proof cases
    case 3
    then show ?thesis
      by (simp add: GetScriptOp_def push_vch_def push_op_def push_size_def unat_of_nat)
  next
    case 4
    then show ?thesis
      using assms by (simp add: GetScriptOp_def push_vch_def push_op_def push_size_def unat_of_nat)
  qed (simp_all add: GetScriptOp_def push_vch_def push_op_def push_size_def)
qed

lemma GetScriptOp_opcode:
  assumes "OP_PUSHDATA4 < opcode" "opcode \<le> 0xff"
  shows "GetScriptOp (of_nat opcode # rest) = (True, opcode, [], rest)"
  using assms by (simp add: GetScriptOp_def)

text \<open>
  The reference reading of a script: the operations up to its end or to the first one that does not
  parse, and whether the end was reached.
\<close>

function script_ops :: "byte list \<Rightarrow> (opcodetype \<times> valtype) list \<times> bool" where
  "script_ops pc =
     (if pc = [] then ([], True)
      else case GetScriptOp pc of (ok, opcode, vch, pc') \<Rightarrow>
        if ok then (let (ops, fin) = script_ops pc' in ((opcode, vch) # ops, fin))
        else ([], False))"
  by pat_completeness auto
termination
  by (relation "measure length") (auto dest: GetScriptOp_shorter [OF sym])

declare script_ops.simps [simp del]

lemma script_ops_Nil [simp]: "script_ops [] = ([], True)"
  by (simp add: script_ops.simps)

lemma script_induct [case_names Nil Fail Step]:
  assumes "P []"
    and "\<And>pc opcode vch pc'. pc \<noteq> [] \<Longrightarrow> GetScriptOp pc = (False, opcode, vch, pc') \<Longrightarrow> P pc"
    and "\<And>pc opcode vch pc'. pc \<noteq> [] \<Longrightarrow> GetScriptOp pc = (True, opcode, vch, pc') \<Longrightarrow> P pc' \<Longrightarrow> P pc"
  shows "P pc"
proof (induction "length pc" arbitrary: pc rule: less_induct)
  case less
  obtain ok opcode vch pc' where g: "GetScriptOp pc = (ok, opcode, vch, pc')"
    by (cases "GetScriptOp pc")
  then show ?case
    using assms less GetScriptOp_shorter [OF g] by (cases "pc = []"; cases ok) auto
qed

lemma script_ops_step:
  assumes "GetScriptOp pc = (True, opcode, vch, pc')"
  shows "script_ops pc = ((opcode, vch) # fst (script_ops pc'), snd (script_ops pc'))"
  using assms GetScriptOp_ok_shorter [OF assms]
  by (subst script_ops.simps) (auto simp: split_beta)

lemma script_ops_fail:
  assumes "pc \<noteq> []" "GetScriptOp pc = (False, opcode, vch, pc')"
  shows "script_ops pc = ([], False)"
  using assms by (subst script_ops.simps) simp

lemma script_ops_push_vch:
  assumes "length b < 2 ^ 32"
  shows "script_ops (push_vch [] b @ rest) =
           ((push_op b, b) # fst (script_ops rest), snd (script_ops rest))"
  by (rule script_ops_step [OF GetScriptOp_push_vch [OF assms]])


lemma IsPushOnly_iff:
  "IsPushOnly pc \<longleftrightarrow>
     snd (script_ops pc) \<and> (\<forall>(opcode, vch) \<in> set (fst (script_ops pc)). opcode \<le> OP_16)"
proof (induction pc rule: script_induct)
  case (Step pc opcode vch pc')
  then show ?case by (subst IsPushOnly.simps) (simp add: script_ops_step)
qed (subst IsPushOnly.simps, simp add: script_ops_fail)+

lemma HasValidOps_iff:
  "HasValidOps it \<longleftrightarrow>
     snd (script_ops it) \<and>
     (\<forall>(opcode, vch) \<in> set (fst (script_ops it)).
        opcode \<le> MAX_OPCODE \<and> length vch \<le> MAX_SCRIPT_ELEMENT_SIZE)"
proof (induction it rule: script_induct)
  case (Step pc opcode vch pc')
  then show ?case by (subst HasValidOps.simps) (auto simp: script_ops_step)
qed (subst HasValidOps.simps, simp add: script_ops_fail)+

lemma Find_loop_eq:
  "Find_loop opc n pc = n + length (filter (\<lambda>(opcode, _). opcode = opc) (fst (script_ops pc)))"
proof (induction pc arbitrary: n rule: script_induct)
  case (Step pc opcode vch pc')
  then show ?case by (subst Find_loop.simps) (simp add: script_ops_step)
qed (subst Find_loop.simps, simp add: script_ops_fail)+

lemma Find_eq: "Find s opc = length (filter (\<lambda>(opcode, _). opcode = opc) (fst (script_ops s)))"
  by (simp add: Find_def Find_loop_eq)

lemma last_push_loop_eq:
  "last_push_loop vData pc =
     (if IsPushOnly pc then Some (last (vData # map snd (fst (script_ops pc)))) else None)"
proof (induction pc arbitrary: vData rule: script_induct)
  case (Step pc opcode vch pc')
  then show ?case
    by (subst last_push_loop.simps, subst IsPushOnly.simps) (auto simp: script_ops_step)
qed (subst last_push_loop.simps, subst IsPushOnly.simps, simp add: script_ops_fail)+

text \<open>What one operation adds to the signature operation count.\<close>

definition sigop_cost :: "bool \<Rightarrow> opcodetype \<Rightarrow> opcodetype \<Rightarrow> nat" where
  "sigop_cost fAccurate lastOpcode opcode =
     (if opcode = OP_CHECKSIG \<or> opcode = OP_CHECKSIGVERIFY then 1
      else if opcode = OP_CHECKMULTISIG \<or> opcode = OP_CHECKMULTISIGVERIFY then
        if fAccurate \<and> lastOpcode \<ge> OP_1 \<and> lastOpcode \<le> OP_16 then lastOpcode - 80 else 20
      else 0)"


lemma sigop_cost_accurate_le: "sigop_cost True lastOpcode opcode \<le> sigop_cost False last' opcode"
  by (auto simp: sigop_cost_def)

primrec sigops_of :: "bool \<Rightarrow> opcodetype \<Rightarrow> opcodetype list \<Rightarrow> nat" where
  "sigops_of fAccurate lastOpcode [] = 0"
| "sigops_of fAccurate lastOpcode (opcode # opcodes) =
     sigop_cost fAccurate lastOpcode opcode + sigops_of fAccurate opcode opcodes"




lemma sigops_of_accurate_le: "sigops_of True lastOpcode opcodes \<le> sigops_of False last' opcodes"
  by (induction opcodes arbitrary: lastOpcode last') (auto intro!: add_mono sigop_cost_accurate_le)

lemma sigops_of_append: 
  "sigops_of False lastOpcode (xs @ ys) = sigops_of False lastOpcode xs + sigops_of False last' ys"
proof (induction xs arbitrary: lastOpcode)
  case Nil
  then show ?case by (cases ys) (simp_all add: sigop_cost_def)
qed simp


lemma IsWitnessProgram_iff:
  "IsWitnessProgram s = Some (version, program) \<longleftrightarrow>
     0 \<le> version \<and> version \<le> 16 \<and> 2 \<le> length program \<and> length program \<le> 40 \<and>
     s = of_nat (EncodeOP_N version) # of_nat (length program) # program"
    (is "?L \<longleftrightarrow> ?R")
proof
  assume ?L
  then obtain a b where s: "s = a # b # program"
    by (cases s; cases "tl s") (auto simp: IsWitnessProgram_def split: if_splits)
  have "b = of_nat (length program)"
    using \<open>?L\<close> s
    by (auto simp: IsWitnessProgram_def word_eq_iff_unsigned [where 'a = nat] split: if_splits)
  moreover have "a = of_nat (EncodeOP_N version)"
  proof -
    have "version = DecodeOP_N (unat a)" "unat a = 0 \<or> (81 \<le> unat a \<and> unat a \<le> 96)"
      using \<open>?L\<close> s by (auto simp: IsWitnessProgram_def split: if_splits)
    moreover have "EncodeOP_N (DecodeOP_N k) = k" if "k = 0 \<or> (81 \<le> k \<and> k \<le> 96)" for k
      using that by (auto simp: EncodeOP_N_def DecodeOP_N_def)
    ultimately show ?thesis by simp
  qed
  ultimately show ?R
    using \<open>?L\<close> s by (auto simp: IsWitnessProgram_def DecodeOP_N_def split: if_splits)
next
  assume R: ?R
  have "EncodeOP_N version < 256" "DecodeOP_N (EncodeOP_N version) = version"
    "EncodeOP_N version = 0 \<or> (81 \<le> EncodeOP_N version \<and> EncodeOP_N version \<le> 96)"
    using R by (auto simp: EncodeOP_N_def DecodeOP_N_def)
  with R show ?L
    by (auto simp: IsWitnessProgram_def)
qed

lemma byte_eq_unat_iff: "n < 256 \<Longrightarrow> unat (b :: byte) = n \<longleftrightarrow> b = of_nat n"
  by (auto simp: word_eq_iff_unsigned [where 'a = nat])

lemma IsPayToScriptHash_iff:
  "IsPayToScriptHash s \<longleftrightarrow>
     (\<exists>h. length h = 20 \<and> s = [of_nat OP_HASH160, 20] @ h @ [of_nat OP_EQUAL])"
    (is "?L \<longleftrightarrow> ?R")
proof
  assume L: ?L
  then obtain a b t where s: "s = a # b # t" and "length t = 21"
    by (cases s; cases "tl s") (auto simp: IsPayToScriptHash_def)
  then obtain h z where t: "t = h @ [z]" "length h = 20"
    by (cases t rule: rev_cases) auto
  have "a = of_nat OP_HASH160" "b = 20" "z = of_nat OP_EQUAL"
    using L s t by (simp_all add: IsPayToScriptHash_def nth_append byte_eq_unat_iff)
  with s t show ?R by auto
next
  assume ?R
  then show ?L by (auto simp: IsPayToScriptHash_def nth_append)
qed

section \<open>One operation and its bytes\<close>

text \<open>
  The bytes of an operation, and which pairs of opcode and operand are operations.  Parsing one
  operation is a canonical decoder for this encoding.
\<close>

definition op_size_bytes :: "opcodetype \<Rightarrow> nat \<Rightarrow> byte list" where
  "op_size_bytes opcode n =
     (if opcode = OP_PUSHDATA1 then [of_nat n]
      else if opcode = OP_PUSHDATA2 then WriteLE16 (of_nat n)
      else if opcode = OP_PUSHDATA4 then WriteLE32 (of_nat n)
      else [])"

definition op_bytes :: "opcodetype \<times> valtype \<Rightarrow> byte list" where
  "op_bytes opv = (case opv of (opcode, vch) \<Rightarrow>
     of_nat opcode # op_size_bytes opcode (length vch) @ vch)"

definition op_ok :: "opcodetype \<times> valtype \<Rightarrow> bool" where
  "op_ok opv = (case opv of (opcode, vch) \<Rightarrow>
     if opcode < OP_PUSHDATA1 then length vch = opcode
     else if opcode = OP_PUSHDATA1 then length vch < 2 ^ 8
     else if opcode = OP_PUSHDATA2 then length vch < 2 ^ 16
     else if opcode = OP_PUSHDATA4 then length vch < 2 ^ 32
     else opcode < 256 \<and> vch = [])"

definition GetOp_reader :: "(opcodetype \<times> valtype) reader" where
  "GetOp_reader pc = (case GetScriptOp pc of (ok, opcode, vch, pc') \<Rightarrow>
     if ok then Inr ((opcode, vch), pc') else Inl EndOfData)"

lemma GetScriptOp_op_bytes:
  assumes "op_ok (opcode, vch)"
  shows "GetScriptOp (op_bytes (opcode, vch) @ rest) = (True, opcode, vch, rest)"
proof -
  consider "opcode < 76" | "opcode = 76" | "opcode = 77" | "opcode = 78" | "78 < opcode" by linarith
  then show ?thesis
    using assms
    by cases (simp_all add: GetScriptOp_def op_bytes_def op_ok_def push_size_def op_size_bytes_def
        unat_of_nat)
qed

lemma push_size_bytes:
  assumes "push_size opcode pc = Some (n, pc')" "opcode \<le> OP_PUSHDATA4"
  shows "pc = op_size_bytes opcode n @ pc'"
proof -
  consider "opcode < 76" | "opcode = 76" | "opcode = 77" | "opcode = 78" using assms(2) by linarith
  then show ?thesis
  proof cases
    case 3
    with assms(1) show ?thesis
      using WriteLE_ReadLE(1) [of "take 2 pc"]
      by (auto simp: push_size_def op_size_bytes_def split: if_splits)
  next
    case 4
    with assms(1) show ?thesis
      using WriteLE_ReadLE(2) [of "take 4 pc"]
      by (auto simp: push_size_def op_size_bytes_def split: if_splits)
  qed (use assms(1) in \<open>auto simp: push_size_def op_size_bytes_def split: if_splits list.splits\<close>)
qed

lemma push_size_bound:
  assumes "push_size opcode pc = Some (n, pc')" "opcode \<le> OP_PUSHDATA4"
  shows "(opcode < OP_PUSHDATA1 \<longrightarrow> n = opcode) \<and> (opcode = OP_PUSHDATA1 \<longrightarrow> n < 2 ^ 8) \<and>
    (opcode = OP_PUSHDATA2 \<longrightarrow> n < 2 ^ 16) \<and> (opcode = OP_PUSHDATA4 \<longrightarrow> n < 2 ^ 32)"
  using assms unat_byte_less unsigned_less [where 'a = nat and 'b = 16] unsigned_less [where 'a = nat and 'b = 32]
  by (auto simp: push_size_def split: if_splits list.splits)

lemma GetScriptOp_ok_bytes:
  assumes "GetScriptOp pc = (True, opcode, vch, pc')"
  shows "pc = op_bytes (opcode, vch) @ pc' \<and> op_ok (opcode, vch)"
proof (cases pc)
  case (Cons b pc1)
  show ?thesis
  proof (cases "unat b \<le> 78")
    case True
    then obtain n pc2 where p: "push_size (unat b) pc1 = Some (n, pc2)" "n \<le> length pc2"
        "opcode = unat b" "vch = take n pc2" "pc' = drop n pc2"
      using assms Cons by (auto simp: GetScriptOp_def Let_def split: option.splits if_splits)
    then show ?thesis
      using push_size_bytes [OF p(1)] push_size_bound [OF p(1)] True Cons
      by (auto simp: op_bytes_def op_ok_def)
  next
    case False
    then show ?thesis
      using assms Cons unat_byte_less [of b]
      by (auto simp: GetScriptOp_def op_bytes_def op_ok_def op_size_bytes_def)
  qed
qed (use assms in simp)

interpretation op: canonical_codec op_bytes GetOp_reader op_ok
proof
  show "GetOp_reader (op_bytes x @ rest) = Inr (x, rest)" if "op_ok x" for x rest
    using that GetScriptOp_op_bytes [of "fst x" "snd x" rest] by (simp add: GetOp_reader_def)
  show "op_ok x \<and> s = op_bytes x @ rest" if "GetOp_reader s = Inr (x, rest)" for s x rest
    using that GetScriptOp_ok_bytes [of s]
    by (auto simp: GetOp_reader_def split: prod.splits if_splits)
qed

lemma push_vch_op_bytes: "length b < 2 ^ 32 \<Longrightarrow> push_vch [] b = op_bytes (push_op b, b) \<and> op_ok (push_op b, b)"
  by (auto simp: push_vch_def op_bytes_def push_op_def op_size_bytes_def op_ok_def)

lemma op_bytes_not_Nil [simp]: "op_bytes x \<noteq> []"
  by (simp add: op_bytes_def split: prod.splits)

lemma op_prefix_iff:
  assumes "op_ok x"
  shows "length (op_bytes x) \<le> length pc \<and> take (length (op_bytes x)) pc = op_bytes x \<longleftrightarrow>
    (\<exists>pc'. GetScriptOp pc = (True, fst x, snd x, pc'))"
proof
  assume "length (op_bytes x) \<le> length pc \<and> take (length (op_bytes x)) pc = op_bytes x"
  then have "pc = op_bytes x @ drop (length (op_bytes x)) pc" by (metis append_take_drop_id)
  then have "GetScriptOp pc = (True, fst x, snd x, drop (length (op_bytes x)) pc)"
    using GetScriptOp_op_bytes [of "fst x" "snd x"] assms by (metis prod.collapse)
  then show "\<exists>pc'. GetScriptOp pc = (True, fst x, snd x, pc')" ..
next
  assume "\<exists>pc'. GetScriptOp pc = (True, fst x, snd x, pc')"
  then obtain pc' where "pc = op_bytes x @ pc'"
    using GetScriptOp_ok_bytes by (metis prod.collapse)
  then show "length (op_bytes x) \<le> length pc \<and> take (length (op_bytes x)) pc = op_bytes x" by simp
qed

primrec ops_bytes :: "(opcodetype \<times> valtype) list \<Rightarrow> byte list" where
  "ops_bytes [] = []"
| "ops_bytes (x # xs) = op_bytes x @ ops_bytes xs"

lemma ops_bytes_append [simp]: "ops_bytes (xs @ ys) = ops_bytes xs @ ops_bytes ys"
  by (induction xs) auto

text \<open>A script is its parsed operations followed by the tail that does not parse.\<close>

lemma script_decompose:
  obtains tail where "pc = ops_bytes (fst (script_ops pc)) @ tail" "\<not> fst (GetScriptOp tail)"
    "\<forall>x \<in> set (fst (script_ops pc)). op_ok x" "snd (script_ops pc) \<longleftrightarrow> tail = []"
proof -
  have "\<exists>tail. pc = ops_bytes (fst (script_ops pc)) @ tail \<and> \<not> fst (GetScriptOp tail) \<and>
    (\<forall>x \<in> set (fst (script_ops pc)). op_ok x) \<and> (snd (script_ops pc) \<longleftrightarrow> tail = [])"
  proof (induction pc rule: script_induct)
    case (Fail pc opcode vch pc')
    then show ?case by (auto simp: script_ops_fail)
  next
    case (Step pc opcode vch pc')
    then show ?case
      using GetScriptOp_ok_bytes [OF Step(2)] by (auto simp: script_ops_step)
  qed simp
  then show ?thesis using that by blast
qed

lemma script_ops_ops_bytes:
  assumes "\<forall>x \<in> set xs. op_ok x"
  shows "script_ops (ops_bytes xs @ tail) = (xs @ fst (script_ops tail), snd (script_ops tail))"
  using assms
proof (induction xs)
  case (Cons x xs)
  then show ?case
    using script_ops_step [OF GetScriptOp_op_bytes [of "fst x" "snd x" "ops_bytes xs @ tail"]] by simp
qed simp

text \<open>
  C38: printing operations and parsing the script gives the operations back, for every push form.
\<close>
theorem script_parse_print:
  "(\<forall>x \<in> set ops. op_ok x) \<longrightarrow> script_ops (ops_bytes ops) = (ops, True)"
  using script_ops_ops_bytes [of ops "[]"] by simp

theorem script_parse_print_witness:
  "script_ops (ops_bytes [(OP_PUSHDATA1, [5, 6]), (OP_DUP, [])]) = ([(OP_PUSHDATA1, [5, 6]), (OP_DUP, [])], True)"
  using script_parse_print [of "[(OP_PUSHDATA1, [5, 6]), (OP_DUP, [])]"] by (simp add: op_ok_def)

end
