(* ===== verification/PubKey.thy ===== *)
theory PubKey
  imports Serialize
begin

text \<open>
  Public keys and the signature parser (\<open>src/src/pubkey.h\<close>, \<open>src/src/pubkey.cpp\<close>).

  A \<open>CPubKey\<close> is the byte string between its \<open>begin()\<close> and \<open>end()\<close>: an array whose header byte is
  \<open>0xFF\<close> has size 0, so an invalid key is the empty list.  The elliptic curve library is a parameter:
  a record of the functions the code calls, on the opaque 64-byte structures of its interface.  In
  the parser a position in the input is the list of the bytes from there to the end.
\<close>

section \<open>Keys\<close>

abbreviation (input) PUBLIC_KEY_SIZE :: nat where "PUBLIC_KEY_SIZE \<equiv> 65"
abbreviation (input) COMPRESSED_PUBLIC_KEY_SIZE :: nat where "COMPRESSED_PUBLIC_KEY_SIZE \<equiv> 33"

definition GetLen :: "byte \<Rightarrow> nat" where
  "GetLen chHeader =
     (if chHeader = 2 \<or> chHeader = 3 then COMPRESSED_PUBLIC_KEY_SIZE
      else if chHeader = 4 \<or> chHeader = 6 \<or> chHeader = 7 then PUBLIC_KEY_SIZE
      else 0)"

definition ValidSize :: "byte list \<Rightarrow> bool" where
  "ValidSize vch \<longleftrightarrow> length vch > 0 \<and> GetLen (vch ! 0) = length vch"

type_synonym CPubKey = "byte list"

definition CPubKey_Set :: "byte list \<Rightarrow> CPubKey" where
  "CPubKey_Set vch =
     (let len = (if vch = [] then 0 else GetLen (vch ! 0))
      in if len \<noteq> 0 \<and> len = length vch then vch else [])"

definition CPubKey_IsValid :: "CPubKey \<Rightarrow> bool" where
  "CPubKey_IsValid key \<longleftrightarrow> length key > 0"

definition CPubKey_IsCompressed :: "CPubKey \<Rightarrow> bool" where
  "CPubKey_IsCompressed key \<longleftrightarrow> length key = COMPRESSED_PUBLIC_KEY_SIZE"

record secp256k1 =
  ec_pubkey_parse :: "byte list \<Rightarrow> byte list option"
  ec_pubkey_serialize :: "byte list \<Rightarrow> bool \<Rightarrow> byte list"
  ecdsa_signature_parse_compact :: "byte list \<Rightarrow> bool \<times> byte list"
  ecdsa_signature_normalize :: "byte list \<Rightarrow> bool \<times> byte list"
  ecdsa_verify :: "byte list \<Rightarrow> byte list \<Rightarrow> byte list \<Rightarrow> bool"

text \<open>The instance that rejects every key and every signature.\<close>

definition secp256k1_reject :: secp256k1 where
  "secp256k1_reject =
     \<lparr>ec_pubkey_parse = \<lambda>_. None, ec_pubkey_serialize = \<lambda>_ _. [],
      ecdsa_signature_parse_compact = \<lambda>_. (False, []), ecdsa_signature_normalize = \<lambda>s. (False, s),
      ecdsa_verify = \<lambda>_ _ _. False\<rparr>"

section \<open>The lax DER parser\<close>

fun skip_zeros :: "nat \<Rightarrow> byte list \<Rightarrow> nat \<times> byte list" where
  "skip_zeros (Suc len) (b # input) = (if b = 0 then skip_zeros len input else (Suc len, b # input))"
| "skip_zeros len input = (len, input)"

primrec be_val :: "nat \<Rightarrow> byte list \<Rightarrow> nat" where
  "be_val acc [] = acc"
| "be_val acc (b # input) = be_val (acc * 256 + unat b) input"

definition der_lax_length :: "byte list \<Rightarrow> (nat \<times> byte list) option" where
  "der_lax_length input =
     (case input of
        [] \<Rightarrow> None
      | lenbyte # input \<Rightarrow>
          if lenbyte AND 0x80 \<noteq> 0 then
            let len = unat lenbyte - 0x80
            in if len > length input then None
               else
                 let (len, input) = skip_zeros len input
                 in if len \<ge> 4 then None
                    else Some (be_val 0 (take len input), drop len input)
          else Some (unat lenbyte, input))"

definition der_lax_integer :: "byte list \<Rightarrow> (nat \<times> byte list) option" where
  "der_lax_integer input =
     (case input of
        [] \<Rightarrow> None
      | tag # input \<Rightarrow>
          if tag \<noteq> 0x02 then None
          else case der_lax_length input of
            None \<Rightarrow> None
          | Some (len, input) \<Rightarrow> if len > length input then None else Some (len, input))"

definition der_lax_sequence :: "byte list \<Rightarrow> byte list option" where
  "der_lax_sequence input =
     (case input of
        tag # lenbyte # input \<Rightarrow>
          if tag \<noteq> 0x30 then None
          else if lenbyte AND 0x80 \<noteq> 0 then
            (if unat lenbyte - 0x80 > length input then None
             else Some (drop (unat lenbyte - 0x80) input))
          else Some input
      | _ \<Rightarrow> None)"

text \<open>A value stripped of leading zeros and right-aligned in its 32 bytes of the compact form.\<close>

definition compact_scalar :: "nat \<Rightarrow> byte list \<Rightarrow> byte list option" where
  "compact_scalar len input =
     (let (len, input) = skip_zeros len input
      in if len > 32 then None else Some (replicate (32 - len) 0 @ take len input))"

definition ecdsa_signature_parse_der_lax :: "secp256k1 \<Rightarrow> byte list \<Rightarrow> byte list option" where
  "ecdsa_signature_parse_der_lax ctx input =
     (case der_lax_sequence input of
        None \<Rightarrow> None
      | Some input \<Rightarrow>
      (case der_lax_integer input of
        None \<Rightarrow> None
      | Some (rlen, rpos) \<Rightarrow>
      (case der_lax_integer (drop rlen rpos) of
        None \<Rightarrow> None
      | Some (slen, spos) \<Rightarrow>
          let invalid = snd (ecdsa_signature_parse_compact ctx (replicate 64 0))
          in (case (compact_scalar rlen rpos, compact_scalar slen spos) of
                (Some r, Some s) \<Rightarrow>
                  (case ecdsa_signature_parse_compact ctx (r @ s) of
                     (True, sig) \<Rightarrow> Some sig
                   | (False, _) \<Rightarrow> Some invalid)
              | _ \<Rightarrow> Some invalid))))"

section \<open>Operations on keys\<close>

definition CPubKey_Verify :: "secp256k1 \<Rightarrow> CPubKey \<Rightarrow> byte list \<Rightarrow> byte list \<Rightarrow> bool" where
  "CPubKey_Verify ctx key hash vchSig =
     (if \<not> CPubKey_IsValid key then False
      else case ec_pubkey_parse ctx key of
        None \<Rightarrow> False
      | Some pubkey \<Rightarrow>
          (case ecdsa_signature_parse_der_lax ctx vchSig of
             None \<Rightarrow> False
           | Some sig \<Rightarrow> ecdsa_verify ctx (snd (ecdsa_signature_normalize ctx sig)) hash pubkey))"

definition CPubKey_IsFullyValid :: "secp256k1 \<Rightarrow> CPubKey \<Rightarrow> bool" where
  "CPubKey_IsFullyValid ctx key \<longleftrightarrow> CPubKey_IsValid key \<and> ec_pubkey_parse ctx key \<noteq> None"

definition CPubKey_Decompress :: "secp256k1 \<Rightarrow> CPubKey \<Rightarrow> CPubKey option" where
  "CPubKey_Decompress ctx key =
     (if \<not> CPubKey_IsValid key then None
      else case ec_pubkey_parse ctx key of
        None \<Rightarrow> None
      | Some pubkey \<Rightarrow> Some (CPubKey_Set (ec_pubkey_serialize ctx pubkey False)))"

definition CPubKey_CheckLowS :: "secp256k1 \<Rightarrow> byte list \<Rightarrow> bool" where
  "CPubKey_CheckLowS ctx vchSig =
     (case ecdsa_signature_parse_der_lax ctx vchSig of
        None \<Rightarrow> False
      | Some sig \<Rightarrow> \<not> fst (ecdsa_signature_normalize ctx sig))"

lemma CPubKey_Set_valid: "CPubKey_IsValid (CPubKey_Set vch) \<longleftrightarrow> ValidSize vch"
  by (auto simp: CPubKey_IsValid_def CPubKey_Set_def ValidSize_def Let_def)

lemma CPubKey_Set_eq: "ValidSize vch \<Longrightarrow> CPubKey_Set vch = vch"
  by (auto simp: CPubKey_Set_def ValidSize_def Let_def)

end
