(* ===== verification/SigEncoding.thy ===== *)
theory SigEncoding
  imports Script PubKey
begin

text \<open>
  The encoding rules the script interpreter checks before a signature is verified
  (\<open>src/src/script/interpreter.cpp\<close>, lines 34 to 285): truth of a stack element, the encodings of
  public keys and signatures, minimal pushes, and the removal of a signature from the script it
  signs.  A check that fails with an error code is \<open>Inl\<close> of that code.
\<close>

section \<open>Error codes and flags\<close>

datatype ScriptError =
    SCRIPT_ERR_OK
  | SCRIPT_ERR_UNKNOWN_ERROR
  | SCRIPT_ERR_EVAL_FALSE
  | SCRIPT_ERR_OP_RETURN
  | SCRIPT_ERR_SCRIPT_SIZE
  | SCRIPT_ERR_PUSH_SIZE
  | SCRIPT_ERR_OP_COUNT
  | SCRIPT_ERR_STACK_SIZE
  | SCRIPT_ERR_SIG_COUNT
  | SCRIPT_ERR_PUBKEY_COUNT
  | SCRIPT_ERR_VERIFY
  | SCRIPT_ERR_EQUALVERIFY
  | SCRIPT_ERR_CHECKMULTISIGVERIFY
  | SCRIPT_ERR_CHECKSIGVERIFY
  | SCRIPT_ERR_NUMEQUALVERIFY
  | SCRIPT_ERR_BAD_OPCODE
  | SCRIPT_ERR_DISABLED_OPCODE
  | SCRIPT_ERR_INVALID_STACK_OPERATION
  | SCRIPT_ERR_INVALID_ALTSTACK_OPERATION
  | SCRIPT_ERR_UNBALANCED_CONDITIONAL
  | SCRIPT_ERR_NEGATIVE_LOCKTIME
  | SCRIPT_ERR_UNSATISFIED_LOCKTIME
  | SCRIPT_ERR_SIG_HASHTYPE
  | SCRIPT_ERR_SIG_DER
  | SCRIPT_ERR_MINIMALDATA
  | SCRIPT_ERR_SIG_PUSHONLY
  | SCRIPT_ERR_SIG_HIGH_S
  | SCRIPT_ERR_SIG_NULLDUMMY
  | SCRIPT_ERR_PUBKEYTYPE
  | SCRIPT_ERR_CLEANSTACK
  | SCRIPT_ERR_MINIMALIF
  | SCRIPT_ERR_SIG_NULLFAIL
  | SCRIPT_ERR_DISCOURAGE_UPGRADABLE_NOPS
  | SCRIPT_ERR_DISCOURAGE_UPGRADABLE_WITNESS_PROGRAM
  | SCRIPT_ERR_WITNESS_PROGRAM_WRONG_LENGTH
  | SCRIPT_ERR_WITNESS_PROGRAM_WITNESS_EMPTY
  | SCRIPT_ERR_WITNESS_PROGRAM_MISMATCH
  | SCRIPT_ERR_WITNESS_MALLEATED
  | SCRIPT_ERR_WITNESS_MALLEATED_P2SH
  | SCRIPT_ERR_WITNESS_UNEXPECTED
  | SCRIPT_ERR_WITNESS_PUBKEYTYPE
  | SCRIPT_ERR_OP_CODESEPARATOR
  | SCRIPT_ERR_SIG_FINDANDDELETE
  | SCRIPT_ERR_ERROR_COUNT

abbreviation (input) SCRIPT_VERIFY_NONE :: u32 where "SCRIPT_VERIFY_NONE \<equiv> 0"
abbreviation (input) SCRIPT_VERIFY_P2SH :: u32 where "SCRIPT_VERIFY_P2SH \<equiv> 0x1"
abbreviation (input) SCRIPT_VERIFY_STRICTENC :: u32 where "SCRIPT_VERIFY_STRICTENC \<equiv> 0x2"
abbreviation (input) SCRIPT_VERIFY_DERSIG :: u32 where "SCRIPT_VERIFY_DERSIG \<equiv> 0x4"
abbreviation (input) SCRIPT_VERIFY_LOW_S :: u32 where "SCRIPT_VERIFY_LOW_S \<equiv> 0x8"
abbreviation (input) SCRIPT_VERIFY_NULLDUMMY :: u32 where "SCRIPT_VERIFY_NULLDUMMY \<equiv> 0x10"
abbreviation (input) SCRIPT_VERIFY_SIGPUSHONLY :: u32 where "SCRIPT_VERIFY_SIGPUSHONLY \<equiv> 0x20"
abbreviation (input) SCRIPT_VERIFY_MINIMALDATA :: u32 where "SCRIPT_VERIFY_MINIMALDATA \<equiv> 0x40"
abbreviation (input) SCRIPT_VERIFY_DISCOURAGE_UPGRADABLE_NOPS :: u32 where "SCRIPT_VERIFY_DISCOURAGE_UPGRADABLE_NOPS \<equiv> 0x80"
abbreviation (input) SCRIPT_VERIFY_CLEANSTACK :: u32 where "SCRIPT_VERIFY_CLEANSTACK \<equiv> 0x100"
abbreviation (input) SCRIPT_VERIFY_CHECKLOCKTIMEVERIFY :: u32 where "SCRIPT_VERIFY_CHECKLOCKTIMEVERIFY \<equiv> 0x200"
abbreviation (input) SCRIPT_VERIFY_CHECKSEQUENCEVERIFY :: u32 where "SCRIPT_VERIFY_CHECKSEQUENCEVERIFY \<equiv> 0x400"
abbreviation (input) SCRIPT_VERIFY_WITNESS :: u32 where "SCRIPT_VERIFY_WITNESS \<equiv> 0x800"
abbreviation (input) SCRIPT_VERIFY_DISCOURAGE_UPGRADABLE_WITNESS_PROGRAM :: u32 where "SCRIPT_VERIFY_DISCOURAGE_UPGRADABLE_WITNESS_PROGRAM \<equiv> 0x1000"
abbreviation (input) SCRIPT_VERIFY_MINIMALIF :: u32 where "SCRIPT_VERIFY_MINIMALIF \<equiv> 0x2000"
abbreviation (input) SCRIPT_VERIFY_NULLFAIL :: u32 where "SCRIPT_VERIFY_NULLFAIL \<equiv> 0x4000"
abbreviation (input) SCRIPT_VERIFY_WITNESS_PUBKEYTYPE :: u32 where "SCRIPT_VERIFY_WITNESS_PUBKEYTYPE \<equiv> 0x8000"
abbreviation (input) SCRIPT_VERIFY_CONST_SCRIPTCODE :: u32 where "SCRIPT_VERIFY_CONST_SCRIPTCODE \<equiv> 0x10000"

datatype SigVersion = BASE | WITNESS_V0

abbreviation (input) SIGHASH_ALL :: "'a::len word" where "SIGHASH_ALL \<equiv> 1"
abbreviation (input) SIGHASH_NONE :: "'a::len word" where "SIGHASH_NONE \<equiv> 2"
abbreviation (input) SIGHASH_SINGLE :: "'a::len word" where "SIGHASH_SINGLE \<equiv> 3"
abbreviation (input) SIGHASH_ANYONECANPAY :: "'a::len word" where "SIGHASH_ANYONECANPAY \<equiv> 0x80"

section \<open>Truth and encodings\<close>

fun CastToBool :: "valtype \<Rightarrow> bool" where
  "CastToBool [] = False"
| "CastToBool (b # vch) = (if b \<noteq> 0 then \<not> (vch = [] \<and> b = 0x80) else CastToBool vch)"

definition IsCompressedOrUncompressedPubKey :: "valtype \<Rightarrow> bool" where
  "IsCompressedOrUncompressedPubKey vchPubKey =
     (if length vchPubKey < COMPRESSED_PUBLIC_KEY_SIZE then False
      else if vchPubKey ! 0 = 0x04 then length vchPubKey = PUBLIC_KEY_SIZE
      else if vchPubKey ! 0 = 0x02 \<or> vchPubKey ! 0 = 0x03
      then length vchPubKey = COMPRESSED_PUBLIC_KEY_SIZE
      else False)"

definition IsCompressedPubKey :: "valtype \<Rightarrow> bool" where
  "IsCompressedPubKey vchPubKey =
     (if length vchPubKey \<noteq> COMPRESSED_PUBLIC_KEY_SIZE then False
      else if vchPubKey ! 0 \<noteq> 0x02 \<and> vchPubKey ! 0 \<noteq> 0x03 then False
      else True)"

definition IsValidSignatureEncoding :: "valtype \<Rightarrow> bool \<Rightarrow> bool" where
  "IsValidSignatureEncoding sig haveHashType =
     (if length sig < 9 then False
      else if length sig > 73 then False
      else if sig ! 0 \<noteq> 0x30 then False
      else if unat (sig ! 1) \<noteq> length sig - (if haveHashType then 3 else 2) then False
      else
        let lenR = unat (sig ! 3)
        in if 5 + lenR \<ge> length sig then False
           else
             let lenS = unat (sig ! (5 + lenR))
             in if lenR + lenS + (if haveHashType then 7 else 6) \<noteq> length sig then False
                else if sig ! 2 \<noteq> 0x02 then False
                else if lenR = 0 then False
                else if sig ! 4 AND 0x80 \<noteq> 0 then False
                else if lenR > 1 \<and> sig ! 4 = 0x00 \<and> sig ! 5 AND 0x80 = 0 then False
                else if sig ! (lenR + 4) \<noteq> 0x02 then False
                else if lenS = 0 then False
                else if sig ! (lenR + 6) AND 0x80 \<noteq> 0 then False
                else if lenS > 1 \<and> sig ! (lenR + 6) = 0x00 \<and> sig ! (lenR + 7) AND 0x80 = 0
                then False
                else True)"

definition IsLowDERSignature :: "secp256k1 \<Rightarrow> valtype \<Rightarrow> bool \<Rightarrow> ScriptError + unit" where
  "IsLowDERSignature ctx vchSig haveHashType =
     (if \<not> IsValidSignatureEncoding vchSig haveHashType then Inl SCRIPT_ERR_SIG_DER
      else
        let vchSigCopy = take (length vchSig - (if haveHashType then 1 else 0)) vchSig
        in if \<not> CPubKey_CheckLowS ctx vchSigCopy then Inl SCRIPT_ERR_SIG_HIGH_S else Inr ())"

definition IsDERSignature :: "valtype \<Rightarrow> bool \<Rightarrow> ScriptError + unit" where
  "IsDERSignature vchSig haveHashType =
     (if \<not> IsValidSignatureEncoding vchSig haveHashType then Inl SCRIPT_ERR_SIG_DER else Inr ())"

definition IsDefinedHashtypeSignature :: "valtype \<Rightarrow> bool" where
  "IsDefinedHashtypeSignature vchSig =
     (if length vchSig = 0 then False
      else
        let nHashType = last vchSig AND NOT SIGHASH_ANYONECANPAY
        in if nHashType < SIGHASH_ALL \<or> nHashType > SIGHASH_SINGLE then False else True)"

definition CheckSignatureEncoding :: "secp256k1 \<Rightarrow> valtype \<Rightarrow> u32 \<Rightarrow> ScriptError + unit" where
  "CheckSignatureEncoding ctx vchSig flags =
     (if length vchSig = 0 then Inr ()
      else if flags AND (SCRIPT_VERIFY_DERSIG OR SCRIPT_VERIFY_LOW_S OR SCRIPT_VERIFY_STRICTENC) \<noteq> 0 \<and>
              \<not> IsValidSignatureEncoding vchSig True
      then Inl SCRIPT_ERR_SIG_DER
      else
        bindE (if flags AND SCRIPT_VERIFY_LOW_S \<noteq> 0 then IsLowDERSignature ctx vchSig True else Inr ())
          (\<lambda>_. if flags AND SCRIPT_VERIFY_STRICTENC \<noteq> 0 \<and> \<not> IsDefinedHashtypeSignature vchSig
               then Inl SCRIPT_ERR_SIG_HASHTYPE
               else Inr ()))"

definition CheckPubKeyEncoding :: "valtype \<Rightarrow> u32 \<Rightarrow> SigVersion \<Rightarrow> ScriptError + unit" where
  "CheckPubKeyEncoding vchPubKey flags sigversion =
     (if flags AND SCRIPT_VERIFY_STRICTENC \<noteq> 0 \<and> \<not> IsCompressedOrUncompressedPubKey vchPubKey
      then Inl SCRIPT_ERR_PUBKEYTYPE
      else if flags AND SCRIPT_VERIFY_WITNESS_PUBKEYTYPE \<noteq> 0 \<and> sigversion = WITNESS_V0 \<and>
              \<not> IsCompressedPubKey vchPubKey
      then Inl SCRIPT_ERR_WITNESS_PUBKEYTYPE
      else Inr ())"

definition CheckMinimalPush :: "valtype \<Rightarrow> opcodetype \<Rightarrow> bool" where
  "CheckMinimalPush dat opcode =
     (if length dat = 0 then opcode = OP_0
      else if length dat = 1 \<and> dat ! 0 \<ge> 1 \<and> dat ! 0 \<le> 16 then False
      else if length dat = 1 \<and> dat ! 0 = 0x81 then False
      else if length dat \<le> 75 then opcode = length dat
      else if length dat \<le> 255 then opcode = OP_PUSHDATA1
      else if length dat \<le> 65535 then opcode = OP_PUSHDATA2
      else True)"

section \<open>Removing a signature from a script\<close>

function skip_matches :: "CScript \<Rightarrow> byte list \<Rightarrow> nat \<Rightarrow> byte list \<times> nat" where
  "skip_matches b pc nFound =
     (if b \<noteq> [] \<and> length pc \<ge> length b \<and> take (length b) pc = b
      then skip_matches b (drop (length b) pc) (nFound + 1)
      else (pc, nFound))"
  by pat_completeness auto
termination
  by (relation "measure (\<lambda>(_, pc, _). length pc)")
    (auto intro!: diff_less order.strict_trans2 [of 0 "length _"])

declare skip_matches.simps [simp del]

lemma skip_matches_shorter: "skip_matches b pc n = (pc', n') \<Longrightarrow> length pc' \<le> length pc"
proof (induction b pc n rule: skip_matches.induct)
  case (1 b pc n)
  show ?case
  proof (cases "b \<noteq> [] \<and> length pc \<ge> length b \<and> take (length b) pc = b")
    case True
    then have "length pc' \<le> length (drop (length b) pc)"
      using 1 by (simp add: skip_matches.simps [of b pc n])
    then show ?thesis by simp
  next
    case False
    then have "skip_matches b pc n = (pc, n)" by (subst skip_matches.simps) auto
    then show ?thesis using 1(2) by simp
  qed
qed

function FindAndDelete_loop ::
  "CScript \<Rightarrow> nat \<Rightarrow> byte list \<Rightarrow> byte list \<Rightarrow> byte list \<Rightarrow> nat \<times> byte list \<times> byte list" where
  "FindAndDelete_loop b nFound result pc2 pc =
     (let result = result @ take (length pc2 - length pc) pc2
      in case skip_matches b pc nFound of (pc, nFound) \<Rightarrow>
           case GetScriptOp pc of (ok, opcode, _, pc') \<Rightarrow>
             if ok then FindAndDelete_loop b nFound result pc pc' else (nFound, result, pc))"
  by pat_completeness auto
termination
  by (relation "measure (\<lambda>(_, _, _, _, pc). length pc)")
    (auto dest!: skip_matches_shorter [OF sym] GetScriptOp_ok_shorter [OF sym])

declare FindAndDelete_loop.simps [simp del]

definition FindAndDelete :: "CScript \<Rightarrow> CScript \<Rightarrow> nat \<times> CScript" where
  "FindAndDelete script b =
     (if b = [] then (0, script)
      else case FindAndDelete_loop b 0 [] script script of (nFound, result, pc2) \<Rightarrow>
        if nFound > 0 then (nFound, result @ pc2) else (nFound, script))"

section \<open>Removing an operation from a script\<close>

text \<open>
  Removal works on whole operations: deleting the bytes of one operation from a script filters it
  out of the list of the operations, wherever it occurs, and leaves an unparsable tail in place.
\<close>

lemma skip_matches_yes: "b \<noteq> [] \<Longrightarrow> skip_matches b (b @ pc) n = skip_matches b pc (Suc n)"
  by (subst skip_matches.simps) simp

lemma skip_matches_no:
  "\<not> (length b \<le> length pc \<and> take (length b) pc = b) \<Longrightarrow> skip_matches b pc n = (pc, n)"
  by (subst skip_matches.simps) auto

lemma skip_matches_op:
  assumes "op_ok x" "\<forall>y \<in> set ys. op_ok y" "\<not> fst (GetScriptOp tail)"
  shows "skip_matches (op_bytes x) (ops_bytes ys @ tail) n =
    (ops_bytes (dropWhile (\<lambda>y. y = x) ys) @ tail, n + length (takeWhile (\<lambda>y. y = x) ys))"
  using assms(2)
proof (induction ys arbitrary: n)
  case Nil
  have "\<not> (length (op_bytes x) \<le> length tail \<and> take (length (op_bytes x)) tail = op_bytes x)"
    using op_prefix_iff [OF assms(1), of tail] assms(3) by auto
  then show ?case by (simp add: skip_matches_no)
next
  case (Cons y ys)
  have "GetScriptOp (ops_bytes (y # ys) @ tail) = (True, fst y, snd y, ops_bytes ys @ tail)"
    using GetScriptOp_op_bytes [of "fst y" "snd y" "ops_bytes ys @ tail"] Cons.prems by simp
  then have "length (op_bytes x) \<le> length (ops_bytes (y # ys) @ tail) \<and>
      take (length (op_bytes x)) (ops_bytes (y # ys) @ tail) = op_bytes x \<longleftrightarrow> y = x"
    unfolding op_prefix_iff [OF assms(1)] by (auto simp: prod_eq_iff)
  then show ?case
    using Cons skip_matches_no [of "op_bytes x" "ops_bytes (y # ys) @ tail" n]
    by (cases "y = x") (simp_all add: skip_matches_yes)
qed

lemma FindAndDelete_loop_op:
  assumes "op_ok x" "\<forall>y \<in> set ys. op_ok y" "\<not> fst (GetScriptOp tail)" "pc2 = p @ ops_bytes ys @ tail"
  shows "\<exists>result' pc2'. FindAndDelete_loop (op_bytes x) n result pc2 (ops_bytes ys @ tail) =
      (n + length (filter (\<lambda>y. y = x) ys), result', pc2') \<and>
    result' @ pc2' = result @ p @ ops_bytes (filter (\<lambda>y. y \<noteq> x) ys) @ tail"
  using assms(2,4)
proof (induction "length ys" arbitrary: ys n result pc2 p rule: less_induct)
  case less
  define zs where "zs = dropWhile (\<lambda>y. y = x) ys"
  define k where "k = length (takeWhile (\<lambda>y. y = x) ys)"
  have ys: "filter (\<lambda>y. y \<noteq> x) ys = filter (\<lambda>y. y \<noteq> x) zs"
    "length (filter (\<lambda>y. y = x) ys) = k + length (filter (\<lambda>y. y = x) zs)"
  proof -
    have "ys = takeWhile (\<lambda>y. y = x) ys @ zs" by (simp add: zs_def)
    moreover have "filter (\<lambda>y. y = x) (takeWhile (\<lambda>y. y = x) ys) = takeWhile (\<lambda>y. y = x) ys"
      "filter (\<lambda>y. y \<noteq> x) (takeWhile (\<lambda>y. y = x) ys) = []"
      by (auto simp: filter_empty_conv dest: set_takeWhileD intro!: filter_True)
    ultimately show "filter (\<lambda>y. y \<noteq> x) ys = filter (\<lambda>y. y \<noteq> x) zs"
      "length (filter (\<lambda>y. y = x) ys) = k + length (filter (\<lambda>y. y = x) zs)"
      by (metis append_self_conv2 filter_append, metis filter_append k_def length_append)
  qed
  have pc2: "take (length pc2 - length (ops_bytes ys @ tail)) pc2 = p"
    using less.prems(2) by simp
  have step: "FindAndDelete_loop (op_bytes x) n result pc2 (ops_bytes ys @ tail) =
     (case GetScriptOp (ops_bytes zs @ tail) of (ok, opcode, _, pc') \<Rightarrow>
        if ok then FindAndDelete_loop (op_bytes x) (n + k) (result @ p) (ops_bytes zs @ tail) pc'
        else (n + k, result @ p, ops_bytes zs @ tail))"
    unfolding FindAndDelete_loop.simps [of _ _ _ _ "ops_bytes ys @ tail"] pc2 Let_def
      skip_matches_op [OF assms(1) less.prems(1) assms(3)] zs_def [symmetric] k_def [symmetric]
    by simp
  show ?case
  proof (cases zs)
    case Nil
    then show ?thesis
      using step assms(3) ys by (auto split: prod.splits)
  next
    case (Cons z zs')
    have ok: "\<forall>y \<in> set zs. op_ok y"
      using less.prems(1) by (auto simp: zs_def dest: set_dropWhileD)
    have "z \<noteq> x" using Cons hd_dropWhile [of "\<lambda>y. y = x" ys] by (auto simp: zs_def)
    have len: "length zs' < length ys"
      using Cons length_dropWhile_le [of "\<lambda>y. y = x" ys] by (simp add: zs_def)
    have g: "GetScriptOp (ops_bytes zs @ tail) = (True, fst z, snd z, ops_bytes zs' @ tail)"
      using GetScriptOp_op_bytes [of "fst z" "snd z" "ops_bytes zs' @ tail"] ok Cons by simp
    show ?thesis
      using less.hyps [OF len, of "ops_bytes zs @ tail" "op_bytes z" "n + k" "result @ p"] ok Cons
        step g ys \<open>z \<noteq> x\<close>
      by (auto simp: add.assoc)
  qed
qed

lemma FindAndDelete_op:
  assumes "op_ok x"
  shows "fst (FindAndDelete s (op_bytes x)) = length (filter (\<lambda>y. y = x) (fst (script_ops s)))"
    and "script_ops (snd (FindAndDelete s (op_bytes x))) =
           (filter (\<lambda>y. y \<noteq> x) (fst (script_ops s)), snd (script_ops s))"
proof -
  let ?ys = "fst (script_ops s)"
  obtain tail where s: "s = ops_bytes ?ys @ tail" "\<not> fst (GetScriptOp tail)"
    "\<forall>y \<in> set ?ys. op_ok y" "snd (script_ops s) \<longleftrightarrow> tail = []"
    by (rule script_decompose)
  obtain result pc2 where l: "FindAndDelete_loop (op_bytes x) 0 [] s s =
      (length (filter (\<lambda>y. y = x) ?ys), result, pc2)"
    "result @ pc2 = ops_bytes (filter (\<lambda>y. y \<noteq> x) ?ys) @ tail"
    using FindAndDelete_loop_op [OF assms s(3,2), of s "[]" 0 "[]"] s(1) by auto
  show "fst (FindAndDelete s (op_bytes x)) = length (filter (\<lambda>y. y = x) ?ys)"
    using l by (simp add: FindAndDelete_def)
  have "filter (\<lambda>y. y \<noteq> x) ?ys = ?ys" if "filter (\<lambda>y. y = x) ?ys = []"
    using that by (auto simp: filter_empty_conv intro: filter_True)
  then have "snd (FindAndDelete s (op_bytes x)) = ops_bytes (filter (\<lambda>y. y \<noteq> x) ?ys) @ tail"
    using l s(1) by (auto simp: FindAndDelete_def)
  moreover have "script_ops tail = ([], snd (script_ops s))"
    using s(2,4) by (cases "tail = []"; cases "GetScriptOp tail") (auto simp: script_ops_fail)
  ultimately show "script_ops (snd (FindAndDelete s (op_bytes x))) =
      (filter (\<lambda>y. y \<noteq> x) ?ys, snd (script_ops s))"
    using script_ops_ops_bytes [of "filter (\<lambda>y. y \<noteq> x) ?ys" tail] s(3) by simp
qed

section \<open>The strict signature encoding\<close>

text \<open>
  The encoding the check describes: a sequence of two positive integers of minimal length, with the
  hash type byte after it when there is one.
\<close>

definition der_positive :: "byte list \<Rightarrow> bool" where
  "der_positive r \<longleftrightarrow>
     r \<noteq> [] \<and> \<not> bit (hd r) 7 \<and> (length r > 1 \<longrightarrow> hd r = 0 \<longrightarrow> bit (r ! 1) 7)"

definition der_integer :: "byte list \<Rightarrow> byte list" where
  "der_integer r = 0x02 # of_nat (length r) # r"

definition der_signature :: "byte list \<Rightarrow> byte list \<Rightarrow> byte list" where
  "der_signature r s =
     0x30 # of_nat (length r + length s + 4) # der_integer r @ der_integer s"

lemma IsValidSignatureEncoding_der:
  assumes "der_positive r" "der_positive s" "length r + length s + 6 + length t \<in> {9..73}"
    and "length t = (if haveHashType then 1 else 0)"
  shows "IsValidSignatureEncoding (der_signature r s @ t) haveHashType"
proof -
  obtain a1 a3 b1 :: byte where
    a: "a1 = of_nat (length r + length s + 4)" "a3 = of_nat (length r)" "b1 = of_nat (length s)"
    by blast
  have u: "unat a1 = length r + length s + 4" "unat a3 = length r" "unat b1 = length s"
    using assms(3) unfolding a by (simp_all only: unat_of_nat_byte) simp_all
  obtain r1 rs where r: "r = r1 # rs" using assms(1) by (cases r) (auto simp: der_positive_def)
  obtain s1 ss where s: "s = s1 # ss" using assms(2) by (cases s) (auto simp: der_positive_def)
  have eq: "der_signature r s @ t = 0x30 # a1 # 0x02 # a3 # r1 # rs @ 0x02 # b1 # s1 # ss @ t"
    using a r s by (simp add: der_signature_def der_integer_def)
  show ?thesis
    using assms u unfolding eq IsValidSignatureEncoding_def
    by (auto simp: r s nth_append der_positive_def byte_high_bit_clear nth_Cons' split: if_splits)
qed

lemma IsValidSignatureEncodingE:
  assumes "IsValidSignatureEncoding sig haveHashType"
  obtains r s t where "sig = der_signature r s @ t" "der_positive r" "der_positive s"
    "length r + length s + 6 + length t \<in> {9..73}" "length t = (if haveHashType then 1 else 0)"
proof -
  have len: "9 \<le> length sig" "length sig \<le> 73"
    using assms by (auto simp: IsValidSignatureEncoding_def split: if_splits)
  then obtain a0 a1 a2 a3 rest where sig: "sig = a0 # a1 # a2 # a3 # rest"
    by (cases sig; cases "tl sig"; cases "tl (tl sig)"; cases "tl (tl (tl sig))") auto
  have "5 + unat a3 < length sig"
    using assms sig by (auto simp: IsValidSignatureEncoding_def Let_def split: if_splits)
  then obtain r b0 b1 rest2 where rest: "rest = r @ b0 # b1 # rest2" "length r = unat a3"
    using sig
    by (intro that [of "take (unat a3) rest" "rest ! unat a3" "rest ! Suc (unat a3)"
          "drop (Suc (Suc (unat a3))) rest"]) (auto simp: Cons_nth_drop_Suc)
  have S: "length r + unat b1 + (if haveHashType then 7 else 6) = length sig"
    using assms sig rest
    by (auto simp: IsValidSignatureEncoding_def Let_def nth_append split: if_splits)
  then have "unat b1 \<le> length rest2" using sig rest by (auto split: if_splits)
  then obtain s t where rest2: "rest2 = s @ t" "length s = unat b1"
    by (intro that [of "take (unat b1) rest2" "drop (unat b1) rest2"]) auto
  have t: "length t = (if haveHashType then 1 else 0)"
    using S sig rest rest2 by (auto split: if_splits)
  have nz: "unat a3 \<noteq> 0" "unat b1 \<noteq> 0" and v: "a0 = 0x30" "a2 = 0x02" "b0 = 0x02"
    and "unat a1 = length sig - (if haveHashType then 3 else 2)"
    using assms unfolding sig rest(1) rest2(1)
    by (auto simp: IsValidSignatureEncoding_def Let_def nth_append rest(2) rest2(2) split: if_splits)
  then have "unat a1 = length r + length s + 4"
    using t unfolding sig rest(1) rest2(1) by (auto split: if_splits)
  then have "a1 = of_nat (length r + length s + 4)" by (metis of_nat_unat_byte)
  moreover have "a3 = of_nat (length r)" "b1 = of_nat (length s)"
    using rest(2) rest2(2) by simp_all
  ultimately have eq: "sig = der_signature r s @ t"
    using v by (simp add: sig rest(1) rest2(1) der_signature_def der_integer_def)
  obtain r1 rs where r: "r = r1 # rs" using nz rest(2) by (cases r) auto
  obtain s1 ss where s: "s = s1 # ss" using nz rest2(2) by (cases s) auto
  have "der_positive r" "der_positive s"
    using assms rest(2) rest2(2) unfolding sig rest(1) rest2(1) r s
    by (auto simp: IsValidSignatureEncoding_def Let_def nth_append der_positive_def
        byte_high_bit_clear nth_Cons' split: if_splits)
  moreover have "length r + length s + 6 + length t \<in> {9..73}"
    using len by (simp add: sig rest(1) rest2(1))
  ultimately show ?thesis using that [OF eq] t by blast
qed


text \<open>
  C29: the signature check of BIP 66 accepts exactly the DER encodings of two positive integers
  without superfluous padding, of 9 to 73 bytes, followed by the hash type byte where one is expected.
\<close>
theorem IsValidSignatureEncoding_iff:
  "IsValidSignatureEncoding sig haveHashType \<longleftrightarrow>
     (\<exists>r s t. sig = der_signature r s @ t \<and> der_positive r \<and> der_positive s \<and>
        length r + length s + 6 + length t \<in> {9..73} \<and> length t = (if haveHashType then 1 else 0))"
  by (metis IsValidSignatureEncodingE IsValidSignatureEncoding_der)

section \<open>The lax parser on strict encodings\<close>

lemma be_val_acc: "be_val acc bs = acc * 256 ^ length bs + be_val 0 bs"
proof (induction bs arbitrary: acc)
  case (Cons b bs)
  show ?case
    using Cons [of "acc * 256 + unat b"] Cons [of "unat b"] by (simp add: algebra_simps)
qed simp

lemma be_val_zeros [simp]: "be_val 0 (replicate n 0 @ bs) = be_val 0 bs"
  by (induction n) auto

lemma be_val_bound: "be_val 0 bs < 256 ^ length bs"
proof (induction bs)
  case (Cons b bs)
  have "be_val 0 (b # bs) = unat b * 256 ^ length bs + be_val 0 bs"
    using be_val_acc [of "unat b" bs] by simp
  also have "\<dots> < unat b * 256 ^ length bs + 256 ^ length bs" using Cons by simp
  also have "\<dots> \<le> 256 * 256 ^ length bs"
    using mult_le_mono1 [of "Suc (unat b)" 256 "256 ^ length bs"] unat_byte_less [of b] by simp
  finally show ?case by simp
qed simp

lemma skip_zeros_props:
  assumes "skip_zeros len input = (len', input')" "len \<le> length input"
  shows "be_val 0 (take len' input') = be_val 0 (take len input) \<and> len' \<le> length input' \<and>
    (len' = 0 \<or> hd input' \<noteq> 0)"
  using assms by (induction len input rule: skip_zeros.induct) (auto split: if_splits)

lemma compact_scalar_spec:
  assumes "len \<le> length input"
  shows "(case compact_scalar len input of
      None \<Rightarrow> be_val 0 (take len input) \<ge> 256 ^ 32
    | Some x \<Rightarrow> length x = 32 \<and> be_val 0 x = be_val 0 (take len input))"
proof -
  obtain len' input' where sk: "skip_zeros len input = (len', input')" by fastforce
  note p = skip_zeros_props [OF sk assms]
  have "be_val 0 (take len' input') \<ge> 256 ^ 32" if L: "len' > 32"
  proof -
    obtain b bs where b: "take len' input' = b # bs" "b \<noteq> 0" "length bs = len' - 1"
      using p L by (cases input'; cases len') auto
    have "unat b \<ge> 1" using b(2) by (simp add: Suc_le_eq unat_gt_0)
    moreover have "(256::nat) ^ 32 \<le> 256 ^ length bs"
      using L b(3) by (intro power_increasing) auto
    ultimately have "1 * (256::nat) ^ 32 \<le> unat b * 256 ^ length bs"
      by (rule mult_le_mono)
    then show ?thesis using b(1) be_val_acc [of "unat b" bs] by simp
  qed
  then show ?thesis
    using p sk by (auto simp: compact_scalar_def)
qed




section \<open>Truth and minimal pushes\<close>

lemma CastToBool_iff: "CastToBool vch \<longleftrightarrow> vch \<noteq> [] \<and> (last vch AND 0x7F \<noteq> 0 \<or> (\<exists>b \<in> set (butlast vch). b \<noteq> 0))"
proof (induction vch rule: CastToBool.induct)
  case (2 b vch)
  have "b AND 0x7F \<noteq> 0 \<longleftrightarrow> b \<noteq> 0 \<and> b \<noteq> 0x80"
    using and_0x7F_eq_self [of b] and_0x7F_or_0x80 [of b] by (cases "bit b 7") auto
  then show ?case using 2 by (cases vch) auto
qed simp

lemma CastToBool_set_vch:
  assumes "length vch \<le> 8"
  shows "CastToBool vch \<longleftrightarrow> set_vch vch \<noteq> 0"
proof (cases vch rule: rev_cases)
  case (snoc ys y)
  then show ?thesis
    using assms set_vch_snoc [of ys y] le_val_zero_iff [of "ys @ [y AND 0x7F]"]
    by (auto simp: CastToBool_iff)
qed (simp add: set_vch_def)

lemma CheckMinimalPush_push_op:
  assumes "op_ok (opcode, dat)" "opcode \<le> OP_PUSHDATA4" "CheckMinimalPush dat opcode"
  shows "opcode = push_op dat"
proof -
  consider "opcode < 76" | "opcode = 76" | "opcode = 77" | "opcode = 78" using assms(2) by linarith
  then show ?thesis
    using assms
    by cases (auto simp: op_ok_def CheckMinimalPush_def push_op_def split: if_splits)
qed

text \<open>
  C31: deleting an operation from a script removes its occurrences among the parsed operations, counts
  them, and changes nothing else.
\<close>
theorem FindAndDelete_filter:
  assumes "op_ok x"
  shows "FindAndDelete s (op_bytes x) = (n, s') \<longrightarrow>
    n = length (filter (\<lambda>y. y = x) (fst (script_ops s))) \<and>
    script_ops s' = (filter (\<lambda>y. y \<noteq> x) (fst (script_ops s)), snd (script_ops s))"
  using FindAndDelete_op [OF assms, of s] by auto

theorem FindAndDelete_filter_witness:
  "FindAndDelete [0x01, 0x07, 0xac, 0x01, 0x07] (op_bytes (1, [7])) = (2, [0xac]) \<and>
   fst (script_ops [0xac]) = filter (\<lambda>y. y \<noteq> (1, [7])) (fst (script_ops [0x01, 0x07, 0xac, 0x01, 0x07]))"
proof -
  have "FindAndDelete [0x01, 0x07, 0xac, 0x01, 0x07] (op_bytes (1, [7])) = (2, [0xac])"
    by (simp add: FindAndDelete_def op_bytes_def op_size_bytes_def FindAndDelete_loop.simps skip_matches.simps
      GetScriptOp_def push_size_def)
  moreover have "op_ok (1, [7])" by (simp add: op_ok_def)
  ultimately show ?thesis
    using FindAndDelete_filter [of "(1, [7])" "[0x01, 0x07, 0xac, 0x01, 0x07]" 2 "[0xac]"] by simp
qed

end
