(* ===== verification/HashEngine.thy ===== *)
theory HashEngine
  imports Serialize
begin

text \<open>
  The buffering that the SHA-1, SHA-256 and RIPEMD-160 hashers share
  (\<open>Write\<close>, \<open>Finalize\<close> and \<open>Reset\<close> in \<open>src/src/crypto\<close>): a chaining state, a 64-byte buffer and a
  64-bit byte count.  The three classes have the same code, so it is modelled once over the
  compression function; the theories of the hash functions instantiate it.

  The locale \<open>incremental_hash\<close> is the contract of a hasher: what was written so far determines
  the digest, in whatever pieces it was written.
\<close>

section \<open>Big-endian integers\<close>

definition ReadBE32 :: "byte list \<Rightarrow> u32" where
  "ReadBE32 ptr = of_nat (le_val (rev (take 4 ptr)))"

definition ReadBE64 :: "byte list \<Rightarrow> u64" where
  "ReadBE64 ptr = of_nat (le_val (rev (take 8 ptr)))"

definition WriteBE32 :: "u32 \<Rightarrow> byte list" where
  "WriteBE32 x = rev (le_bytes 4 (unat x))"

definition WriteBE64 :: "u64 \<Rightarrow> byte list" where
  "WriteBE64 x = rev (le_bytes 8 (unat x))"

lemma length_WriteBE [simp]: "length (WriteBE32 x) = 4" "length (WriteBE64 y) = 8"
  by (simp_all add: WriteBE32_def WriteBE64_def)

section \<open>The contract of a hasher\<close>

locale incremental_hash =
  fixes repr :: "'h \<Rightarrow> byte list \<Rightarrow> bool"
    and init :: 'h
    and wr :: "'h \<Rightarrow> byte list \<Rightarrow> 'h"
    and fin :: "'h \<Rightarrow> byte list"
    and digest :: "byte list \<Rightarrow> byte list"
  assumes repr_init: "repr init []"
    and repr_wr: "repr h msg \<Longrightarrow> repr (wr h chunk) (msg @ chunk)"
    and fin_repr: "repr h msg \<Longrightarrow> fin h = digest msg"
begin

lemma repr_fold: "repr h msg \<Longrightarrow> repr (foldl wr h chunks) (msg @ concat chunks)"
proof (induction chunks arbitrary: h msg)
  case (Cons chunk chunks)
  then show ?case using repr_wr [OF Cons.prems, of chunk] by (simp flip: append_assoc)
qed simp

lemma fin_pieces: "fin (foldl wr init chunks) = digest (concat chunks)"
  using fin_repr [OF repr_fold [OF repr_init]] by simp

lemma fin_once: "fin (wr init msg) = digest msg"
  using fin_pieces [of "[msg]"] by simp

lemma fin_split: "concat chunks = concat chunks' \<Longrightarrow> fin (foldl wr init chunks) = fin (foldl wr init chunks')"
  by (simp add: fin_pieces)

end

section \<open>The buffered hasher\<close>

record 's hasher =
  h_s :: 's
  h_buf :: "byte list"
  h_bytes :: u64

definition memcpy_at :: "byte list \<Rightarrow> nat \<Rightarrow> byte list \<Rightarrow> byte list" where
  "memcpy_at buf pos src = take pos buf @ src @ drop (pos + length src) buf"

function md_blocks :: "('s \<Rightarrow> byte list \<Rightarrow> 's) \<Rightarrow> 's \<Rightarrow> byte list \<Rightarrow> 's \<times> byte list" where
  "md_blocks Transform s dat =
     (if length dat \<ge> 64 then md_blocks Transform (Transform s (take 64 dat)) (drop 64 dat)
      else (s, dat))"
  by pat_completeness auto
termination
  by (relation "measure (\<lambda>(_, _, dat). length dat)") auto

declare md_blocks.simps [simp del]

definition md_fill :: "('s \<Rightarrow> byte list \<Rightarrow> 's) \<Rightarrow> 's hasher \<Rightarrow> byte list \<Rightarrow> 's hasher \<times> byte list" where
  "md_fill Transform h dat =
     (let bufsize = unat (h_bytes h) mod 64
      in if bufsize \<noteq> 0 \<and> bufsize + length dat \<ge> 64 then
           let buf = memcpy_at (h_buf h) bufsize (take (64 - bufsize) dat)
           in (h\<lparr>h_buf := buf, h_bytes := h_bytes h + of_nat (64 - bufsize),
                 h_s := Transform (h_s h) buf\<rparr>,
               drop (64 - bufsize) dat)
         else (h, dat))"

definition md_Write :: "('s \<Rightarrow> byte list \<Rightarrow> 's) \<Rightarrow> 's hasher \<Rightarrow> byte list \<Rightarrow> 's hasher" where
  "md_Write Transform h dat =
     (case md_fill Transform h dat of (h, dat) \<Rightarrow>
      case md_blocks Transform (h_s h) dat of (s, rest) \<Rightarrow>
        let h = h\<lparr>h_s := s, h_bytes := h_bytes h + of_nat (length dat - length rest)\<rparr>;
            bufsize = unat (h_bytes h) mod 64
        in if rest \<noteq> [] then
             h\<lparr>h_buf := memcpy_at (h_buf h) bufsize rest,
               h_bytes := h_bytes h + of_nat (length rest)\<rparr>
           else h)"

definition md_Finalize ::
  "('s \<Rightarrow> byte list \<Rightarrow> 's) \<Rightarrow> (u64 \<Rightarrow> byte list) \<Rightarrow> ('s \<Rightarrow> byte list) \<Rightarrow> 's hasher \<Rightarrow> byte list" where
  "md_Finalize Transform WriteSize out h =
     (let sizedesc = WriteSize (push_bit 3 (h_bytes h));
          pad = 0x80 # replicate 63 0;
          h = md_Write Transform h (take (1 + (119 - unat (h_bytes h) mod 64) mod 64) pad);
          h = md_Write Transform h sizedesc
      in out (h_s h))"

definition md_init :: "'s \<Rightarrow> byte list \<Rightarrow> 's hasher" where
  "md_init s0 buf = \<lparr>h_s = s0, h_buf = buf, h_bytes = 0\<rparr>"

section \<open>The buffered hasher computes the padded message's hash\<close>

text \<open>The reference: pad the whole message and fold the compression function over its blocks.\<close>

definition md_pad :: "(u64 \<Rightarrow> byte list) \<Rightarrow> byte list \<Rightarrow> byte list" where
  "md_pad WriteSize msg =
     msg @ 0x80 # replicate ((119 - length msg mod 64) mod 64) 0 @
     WriteSize (of_nat (8 * length msg))"

definition md_digest ::
  "('s \<Rightarrow> byte list \<Rightarrow> 's) \<Rightarrow> (u64 \<Rightarrow> byte list) \<Rightarrow> ('s \<Rightarrow> byte list) \<Rightarrow> 's \<Rightarrow> byte list \<Rightarrow> byte list" where
  "md_digest Transform WriteSize out s0 msg =
     out (fst (md_blocks Transform s0 (md_pad WriteSize msg)))"

definition md_repr :: "('s \<Rightarrow> byte list \<Rightarrow> 's) \<Rightarrow> 's \<Rightarrow> 's hasher \<Rightarrow> byte list \<Rightarrow> bool" where
  "md_repr Transform s0 h msg \<longleftrightarrow>
     (case md_blocks Transform s0 msg of (s, rest) \<Rightarrow>
        h_s h = s \<and> length (h_buf h) = 64 \<and> take (length rest) (h_buf h) = rest \<and>
        h_bytes h = of_nat (length msg))"

lemma md_blocks_append:
  "md_blocks T s (xs @ ys) = (case md_blocks T s xs of (s', r) \<Rightarrow> md_blocks T s' (r @ ys))"
proof (induction T s xs rule: md_blocks.induct)
  case (1 T s xs)
  show ?case
  proof (cases "length xs \<ge> 64")
    case True
    then show ?thesis
      using 1 by (simp add: md_blocks.simps [of T s "xs @ ys"] md_blocks.simps [of T s xs])
  next
    case False
    then show ?thesis by (simp add: md_blocks.simps [of T s xs])
  qed
qed

lemma md_blocks_rest:
  "md_blocks T s xs = (s', r) \<Longrightarrow> length r = length xs mod 64 \<and> length r \<le> length xs"
proof (induction T s xs rule: md_blocks.induct)
  case (1 T s xs)
  show ?case
  proof (cases "length xs \<ge> 64")
    case True
    then have "md_blocks T (T s (take 64 xs)) (drop 64 xs) = (s', r)"
      using 1(2) by (simp add: md_blocks.simps [of T s xs])
    then have "length r = (length xs - 64) mod 64 \<and> length r \<le> length xs - 64"
      using 1(1) [OF True] by simp
    then show ?thesis using True by (simp add: le_mod_geq)
  next
    case False
    then show ?thesis using 1(2) by (simp add: md_blocks.simps [of T s xs])
  qed
qed

lemma md_blocks_short: "length xs < 64 \<Longrightarrow> md_blocks T s xs = (s, xs)"
  by (simp add: md_blocks.simps)

lemma md_blocks_block: "length b = 64 \<Longrightarrow> md_blocks T s (b @ xs) = md_blocks T (T s b) xs"
  by (subst md_blocks.simps) simp

lemma unat_mod_64: "unat (of_nat n :: u64) mod 64 = n mod 64"
proof -
  have "(64::nat) dvd 2 ^ 64" by (simp add: dvd_def)
  then show ?thesis by (simp add: unat_of_nat mod_mod_cancel)
qed

lemma take_memcpy_at: "pos \<le> length buf \<Longrightarrow> take (pos + length src) (memcpy_at buf pos src) = take pos buf @ src"
  by (simp add: memcpy_at_def)

lemma length_memcpy_at: "pos + length src \<le> length buf \<Longrightarrow> length (memcpy_at buf pos src) = length buf"
  by (simp add: memcpy_at_def)

lemma md_reprI:
  assumes "md_blocks T s0 msg = (h_s h, rest)" "length (h_buf h) = 64"
    "take (length rest) (h_buf h) = rest" "h_bytes h = of_nat (length msg)"
  shows "md_repr T s0 h msg"
  using assms by (simp add: md_repr_def)

lemma md_reprE:
  assumes "md_repr T s0 h msg"
  obtains rest where "md_blocks T s0 msg = (h_s h, rest)" "length (h_buf h) = 64"
    "take (length rest) (h_buf h) = rest" "h_bytes h = of_nat (length msg)"
    "length rest = length msg mod 64" "unat (h_bytes h) mod 64 = length rest"
proof -
  obtain rest where r: "md_blocks T s0 msg = (h_s h, rest)"
    using assms by (auto simp: md_repr_def)
  moreover have "length rest = length msg mod 64" using md_blocks_rest [OF r] by simp
  ultimately show ?thesis
    using that [of rest] assms by (simp add: md_repr_def unat_mod_64)
qed

lemma md_fill_full:
  assumes "unat (h_bytes h) mod 64 = k" "k \<noteq> 0" "64 \<le> k + length dat"
  shows "md_fill T h dat =
    (h\<lparr>h_buf := memcpy_at (h_buf h) k (take (64 - k) dat), h_bytes := h_bytes h + of_nat (64 - k),
       h_s := T (h_s h) (memcpy_at (h_buf h) k (take (64 - k) dat))\<rparr>, drop (64 - k) dat)"
  using assms unfolding md_fill_def Let_def by simp

lemma md_fill_none:
  assumes "unat (h_bytes h) mod 64 = k" "k = 0 \<or> k + length dat < 64"
  shows "md_fill T h dat = (h, dat)"
  using assms unfolding md_fill_def Let_def by auto

lemma md_fill_repr:
  assumes "md_repr T s0 h msg" "md_fill T h dat = (h', dat')"
  obtains p where "dat = p @ dat'" "md_repr T s0 h' (msg @ p)"
    "length (msg @ p) mod 64 = 0 \<or> length (msg @ p) mod 64 + length dat' < 64"
proof -
  obtain rest where h: "md_blocks T s0 msg = (h_s h, rest)" "length (h_buf h) = 64"
    "take (length rest) (h_buf h) = rest" "h_bytes h = of_nat (length msg)"
    and b: "length rest = length msg mod 64" "unat (h_bytes h) mod 64 = length rest"
    by (rule md_reprE [OF assms(1)])
  show ?thesis
  proof (cases "rest \<noteq> [] \<and> length rest + length dat \<ge> 64")
    case True
    define p where "p = take (64 - length rest) dat"
    have lr: "length rest < 64" using b by simp
    have p: "length p = 64 - length rest" using True by (auto simp: p_def)
    let ?buf = "memcpy_at (h_buf h) (length rest) p"
    have "rest \<noteq> []" "64 \<le> length rest + length dat" using True by auto
    then have "(h', dat') = (h\<lparr>h_buf := ?buf, h_bytes := h_bytes h + of_nat (length p),
        h_s := T (h_s h) ?buf\<rparr>, drop (64 - length rest) dat)"
      unfolding assms(2) [symmetric] p unfolding p_def by (intro md_fill_full [OF b(2)]) auto
    then have h': "h' = h\<lparr>h_buf := ?buf, h_bytes := h_bytes h + of_nat (length p), h_s := T (h_s h) ?buf\<rparr>"
      and d: "dat = p @ dat'"
      by (simp_all add: p_def)
    have buf: "?buf = rest @ p"
      using h(2,3) p lr by (simp add: memcpy_at_def)
    have blk: "md_blocks T s0 (msg @ p) = (T (h_s h) ?buf, [])"
      using h(1) p lr md_blocks_block [of "rest @ p" T "h_s h" "[]"] md_blocks_append [of T s0 msg p]
      by (simp add: buf md_blocks_short)
    have "md_repr T s0 h' (msg @ p)"
      using blk h p lr by (intro md_reprI [of _ _ _ _ "[]"]) (simp_all add: h' buf)
    moreover have "length (msg @ p) mod 64 = 0" using md_blocks_rest [OF blk] by simp
    ultimately show ?thesis using that [OF d] by simp
  next
    case False
    then have "(h', dat') = (h, dat)"
      unfolding assms(2) [symmetric] by (intro md_fill_none [OF b(2)]) auto
    then show ?thesis
      using that [of "[]"] assms(1) False b(1) by auto
  qed
qed

lemma md_Write_repr:
  assumes "md_repr T s0 h msg"
  shows "md_repr T s0 (md_Write T h dat) (msg @ dat)"
proof -
  obtain h' dat' where f: "md_fill T h dat = (h', dat')" by fastforce
  then obtain p where p: "dat = p @ dat'" "md_repr T s0 h' (msg @ p)"
    "length (msg @ p) mod 64 = 0 \<or> length (msg @ p) mod 64 + length dat' < 64"
    by (rule md_fill_repr [OF assms])
  obtain r0 where h': "md_blocks T s0 (msg @ p) = (h_s h', r0)" "length (h_buf h') = 64"
    "take (length r0) (h_buf h') = r0" "h_bytes h' = of_nat (length (msg @ p))"
    "length r0 = length (msg @ p) mod 64"
    by (rule md_reprE [OF p(2)])
  obtain s rest where bl: "md_blocks T (h_s h') dat' = (s, rest)" by fastforce
  have lr: "length rest = length dat' mod 64" "length rest \<le> length dat'"
    using md_blocks_rest [OF bl] by auto
  define k where "k = length (msg @ p) + (length dat' - length rest)"
  have kb: "h_bytes h' + of_nat (length dat' - length rest) = of_nat k"
    using h'(4) by (simp add: k_def)
  have km: "k mod 64 = length r0"
  proof -
    have "length dat' - length rest = 64 * (length dat' div 64)"
      unfolding lr(1) by (simp add: minus_mod_eq_mult_div)
    then show ?thesis using h'(5) by (simp only: k_def mod_mult_self2)
  qed
  have r: "r0 = [] \<or> (s = h_s h' \<and> rest = dat' \<and> length r0 + length dat' < 64)"
    using p(3) h'(5) bl by (auto simp: md_blocks_short)
  have tot: "md_blocks T s0 (msg @ dat) = (s, r0 @ rest)"
    using h'(1) bl r p(1) md_blocks_append [of T s0 "msg @ p" dat'] by (auto simp: md_blocks_short)
  have len: "length (r0 @ rest) < 64" using md_blocks_rest [OF tot] by simp
  have wr: "md_Write T h dat =
      (let h1 = h'\<lparr>h_s := s, h_bytes := of_nat k\<rparr>
       in if rest \<noteq> [] then h1\<lparr>h_buf := memcpy_at (h_buf h') (length r0) rest,
                h_bytes := of_nat k + of_nat (length rest)\<rparr> else h1)"
    unfolding md_Write_def f prod.case bl Let_def hasher.simps kb
    by (simp add: unat_mod_64 km)
  have kl: "k + length rest = length (msg @ dat)" using p(1) lr(2) by (simp add: k_def)
  show ?thesis
  proof (rule md_reprI [where rest = "r0 @ rest"])
    show "md_blocks T s0 (msg @ dat) = (h_s (md_Write T h dat), r0 @ rest)"
      using tot wr by (simp add: Let_def)
    show "length (h_buf (md_Write T h dat)) = 64"
      using h'(2) len by (auto simp: wr Let_def length_memcpy_at)
    show "take (length (r0 @ rest)) (h_buf (md_Write T h dat)) = r0 @ rest"
      using h'(2,3) len take_memcpy_at [of "length r0" "h_buf h'" rest] by (auto simp: wr Let_def)
    show "h_bytes (md_Write T h dat) = of_nat (length (msg @ dat))"
      unfolding kl [symmetric] by (simp add: wr Let_def)
  qed
qed

lemma md_repr_init: "length buf = 64 \<Longrightarrow> md_repr T s0 (md_init s0 buf) []"
  by (rule md_reprI [where rest = "[]"]) (simp_all add: md_init_def md_blocks_short)

lemma md_Finalize_repr:
  assumes "md_repr T s0 h msg"
  shows "md_Finalize T W out h = md_digest T W out s0 msg"
proof -
  have b: "h_bytes h = of_nat (length msg)" "unat (h_bytes h) mod 64 = length msg mod 64"
    using assms by (auto elim: md_reprE)
  define n where "n = (119 - length msg mod 64) mod 64"
  have n: "n < 64" by (simp add: n_def)
  have "take (1 + n) (0x80 # replicate 63 0) = (0x80 # replicate n 0 :: byte list)"
    using n by (simp add: min_def)
  moreover have "push_bit 3 (h_bytes h) = of_nat (8 * length msg)"
    using b by (simp add: push_bit_eq_mult mult.commute)
  moreover have "md_repr T s0 (md_Write T (md_Write T h (0x80 # replicate n 0)) (W (of_nat (8 * length msg))))
      (md_pad W msg)"
    using md_Write_repr [OF md_Write_repr [OF assms], of "0x80 # replicate n 0" "W (of_nat (8 * length msg))"]
    unfolding md_pad_def n_def [symmetric] by simp
  ultimately show ?thesis
    using b(2) by (auto simp: md_Finalize_def md_digest_def Let_def md_repr_def n_def split: prod.splits)
qed

lemma md_incremental_hash:
  assumes "length buf = 64"
  shows "incremental_hash (md_repr T s0) (md_init s0 buf) (md_Write T) (md_Finalize T W out)
    (md_digest T W out s0)"
  by unfold_locales (auto intro: md_repr_init md_Write_repr md_Finalize_repr assms)

lemma md_pad_length: "length (W (of_nat (8 * length msg))) = 8 \<Longrightarrow> length (md_pad W msg) mod 64 = 0"
proof -
  assume w: "length (W (of_nat (8 * length msg))) = 8"
  define m where "m = length msg mod 64"
  have "m < 64" and l: "length msg = 64 * (length msg div 64) + m" by (simp_all add: m_def)
  then have "1 + (119 - m) mod 64 + 8 + m = (if m \<le> 55 then 64 else 128)"
    by (cases "m \<le> 55") (simp_all add: mod_if, linarith?)
  then have "length (md_pad W msg) = 64 * (length msg div 64) + (if m \<le> 55 then 64 else 128)"
    using w l unfolding md_pad_def m_def [symmetric] by simp
  then show ?thesis by (simp split: if_splits)
qed

end
