(* ===== verification/Hashes.thy ===== *)
theory Hashes
  imports HashEngine
begin

text \<open>
  The hash functions of the script interpreter and of block and transaction identifiers:
  SHA-256, SHA-1 and RIPEMD-160 (\<open>src/src/crypto\<close>), and their compositions \<open>CHash256\<close> and
  \<open>CHash160\<close> (\<open>src/src/hash.h\<close>).

  The sources unroll the rounds and rename the working variables from one round to the next
  instead of moving them; here a round returns the variables in the order the next one reads them,
  and the rounds are a fold over the round constants and the schedule words.  A whole number of
  turns of the renaming ends every transformation.  The selection of a vectorised
  SHA-256 at run time is not modelled: the portable implementation is.
\<close>

section \<open>SHA-256\<close>

definition Ch :: "u32 \<Rightarrow> u32 \<Rightarrow> u32 \<Rightarrow> u32" where
  "Ch x y z = z XOR (x AND (y XOR z))"

definition Maj :: "u32 \<Rightarrow> u32 \<Rightarrow> u32 \<Rightarrow> u32" where
  "Maj x y z = (x AND y) OR (z AND (x OR y))"

definition Sigma0 :: "u32 \<Rightarrow> u32" where
  "Sigma0 x = (drop_bit 2 x OR push_bit 30 x) XOR (drop_bit 13 x OR push_bit 19 x) XOR
              (drop_bit 22 x OR push_bit 10 x)"

definition Sigma1 :: "u32 \<Rightarrow> u32" where
  "Sigma1 x = (drop_bit 6 x OR push_bit 26 x) XOR (drop_bit 11 x OR push_bit 21 x) XOR
              (drop_bit 25 x OR push_bit 7 x)"

definition sigma0 :: "u32 \<Rightarrow> u32" where
  "sigma0 x = (drop_bit 7 x OR push_bit 25 x) XOR (drop_bit 18 x OR push_bit 14 x) XOR drop_bit 3 x"

definition sigma1 :: "u32 \<Rightarrow> u32" where
  "sigma1 x = (drop_bit 17 x OR push_bit 15 x) XOR (drop_bit 19 x OR push_bit 13 x) XOR drop_bit 10 x"

type_synonym sha256_state = "u32 \<times> u32 \<times> u32 \<times> u32 \<times> u32 \<times> u32 \<times> u32 \<times> u32"

fun sha256_Round :: "sha256_state \<Rightarrow> u32 \<Rightarrow> sha256_state" where
  "sha256_Round (a, b, c, d, e, f, g, h) k =
     (let t1 = h + Sigma1 e + Ch e f g + k;
          t2 = Sigma0 a + Maj a b c
      in (t1 + t2, a, b, c, d + t1, e, f, g))"

definition sha256_Initialize :: sha256_state where
  "sha256_Initialize =
     (0x6a09e667, 0xbb67ae85, 0x3c6ef372, 0xa54ff53a, 0x510e527f, 0x9b05688c, 0x1f83d9ab, 0x5be0cd19)"

text \<open>The constant of every round and the index of the schedule word \<open>w0\<close> to \<open>w15\<close> it uses.\<close>

definition sha256_rounds_0 :: "(u32 \<times> nat) list" where
  "sha256_rounds_0 =
     [(0x428a2f98, 0), (0x71374491, 1), (0xb5c0fbcf, 2), (0xe9b5dba5, 3),
      (0x3956c25b, 4), (0x59f111f1, 5), (0x923f82a4, 6), (0xab1c5ed5, 7),
      (0xd807aa98, 8), (0x12835b01, 9), (0x243185be, 10), (0x550c7dc3, 11),
      (0x72be5d74, 12), (0x80deb1fe, 13), (0x9bdc06a7, 14), (0xc19bf174, 15)]"

definition sha256_rounds_1 :: "(u32 \<times> nat) list" where
  "sha256_rounds_1 =
     [(0xe49b69c1, 0), (0xefbe4786, 1), (0x0fc19dc6, 2), (0x240ca1cc, 3),
      (0x2de92c6f, 4), (0x4a7484aa, 5), (0x5cb0a9dc, 6), (0x76f988da, 7),
      (0x983e5152, 8), (0xa831c66d, 9), (0xb00327c8, 10), (0xbf597fc7, 11),
      (0xc6e00bf3, 12), (0xd5a79147, 13), (0x06ca6351, 14), (0x14292967, 15)]"

definition sha256_rounds_2 :: "(u32 \<times> nat) list" where
  "sha256_rounds_2 =
     [(0x27b70a85, 0), (0x2e1b2138, 1), (0x4d2c6dfc, 2), (0x53380d13, 3),
      (0x650a7354, 4), (0x766a0abb, 5), (0x81c2c92e, 6), (0x92722c85, 7),
      (0xa2bfe8a1, 8), (0xa81a664b, 9), (0xc24b8b70, 10), (0xc76c51a3, 11),
      (0xd192e819, 12), (0xd6990624, 13), (0xf40e3585, 14), (0x106aa070, 15)]"

definition sha256_rounds_3 :: "(u32 \<times> nat) list" where
  "sha256_rounds_3 =
     [(0x19a4c116, 0), (0x1e376c08, 1), (0x2748774c, 2), (0x34b0bcb5, 3),
      (0x391c0cb3, 4), (0x4ed8aa4a, 5), (0x5b9cca4f, 6), (0x682e6ff3, 7),
      (0x748f82ee, 8), (0x78a5636f, 9), (0x84c87814, 10), (0x8cc70208, 11),
      (0x90befffa, 12), (0xa4506ceb, 13), (0xbef9a3f7, 14), (0xc67178f2, 15)]"

primrec be_words :: "nat \<Rightarrow> byte list \<Rightarrow> u32 list" where
  "be_words 0 chunk = []"
| "be_words (Suc n) chunk = ReadBE32 chunk # be_words n (drop 4 chunk)"

definition sha256_first :: "u32 list \<Rightarrow> sha256_state \<Rightarrow> u32 \<times> nat \<Rightarrow> sha256_state" where
  "sha256_first w s ki = (case ki of (k, i) \<Rightarrow> sha256_Round s (k + w ! i))"

definition sha256_next :: "sha256_state \<times> u32 list \<Rightarrow> u32 \<times> nat \<Rightarrow> sha256_state \<times> u32 list" where
  "sha256_next sw ki = (case (sw, ki) of ((s, w), (k, i)) \<Rightarrow>
     let wi = w ! i + (sigma1 (w ! ((i + 14) mod 16)) + w ! ((i + 9) mod 16) +
                sigma0 (w ! ((i + 1) mod 16)))
     in (sha256_Round s (k + wi), w[i := wi]))"

fun sha256_add :: "sha256_state \<Rightarrow> sha256_state \<Rightarrow> sha256_state" where
  "sha256_add (s0, s1, s2, s3, s4, s5, s6, s7) (a, b, c, d, e, f, g, h) =
     (s0 + a, s1 + b, s2 + c, s3 + d, s4 + e, s5 + f, s6 + g, s7 + h)"

definition sha256_Transform :: "sha256_state \<Rightarrow> byte list \<Rightarrow> sha256_state" where
  "sha256_Transform s chunk =
     (let w = be_words 16 chunk;
          s' = foldl (sha256_first w) s sha256_rounds_0
      in sha256_add s (fst (foldl sha256_next (s', w)
           (sha256_rounds_1 @ sha256_rounds_2 @ sha256_rounds_3))))"

fun sha256_out :: "sha256_state \<Rightarrow> byte list" where
  "sha256_out (s0, s1, s2, s3, s4, s5, s6, s7) =
     WriteBE32 s0 @ WriteBE32 s1 @ WriteBE32 s2 @ WriteBE32 s3 @
     WriteBE32 s4 @ WriteBE32 s5 @ WriteBE32 s6 @ WriteBE32 s7"

type_synonym CSHA256 = "sha256_state hasher"

definition CSHA256_init :: "byte list \<Rightarrow> CSHA256" where
  "CSHA256_init buf = md_init sha256_Initialize buf"

definition CSHA256_Write :: "CSHA256 \<Rightarrow> byte list \<Rightarrow> CSHA256" where
  "CSHA256_Write h dat = md_Write sha256_Transform h dat"

definition CSHA256_Finalize :: "CSHA256 \<Rightarrow> byte list" where
  "CSHA256_Finalize h = md_Finalize sha256_Transform WriteBE64 sha256_out h"

definition CSHA256_Reset :: "CSHA256 \<Rightarrow> CSHA256" where
  "CSHA256_Reset h = h\<lparr>h_bytes := 0, h_s := sha256_Initialize\<rparr>"

section \<open>SHA-1\<close>

type_synonym sha1_state = "u32 \<times> u32 \<times> u32 \<times> u32 \<times> u32"

definition rol :: "u32 \<Rightarrow> nat \<Rightarrow> u32" where
  "rol x i = push_bit i x OR drop_bit (32 - i) x"

definition sha1_f1 :: "u32 \<Rightarrow> u32 \<Rightarrow> u32 \<Rightarrow> u32" where
  "sha1_f1 b c d = d XOR (b AND (c XOR d))"

definition sha1_f2 :: "u32 \<Rightarrow> u32 \<Rightarrow> u32 \<Rightarrow> u32" where
  "sha1_f2 b c d = b XOR c XOR d"

definition sha1_f3 :: "u32 \<Rightarrow> u32 \<Rightarrow> u32 \<Rightarrow> u32" where
  "sha1_f3 b c d = (b AND c) OR (d AND (b OR c))"

fun sha1_Round :: "(u32 \<Rightarrow> u32 \<Rightarrow> u32 \<Rightarrow> u32) \<Rightarrow> u32 \<Rightarrow> sha1_state \<Rightarrow> u32 \<Rightarrow> sha1_state" where
  "sha1_Round f k (a, b, c, d, e) w =
     (e + (rol a 5 + f b c d + k + w), a, rol b 30, c, d)"

definition sha1_Initialize :: sha1_state where
  "sha1_Initialize = (0x67452301, 0xEFCDAB89, 0x98BADCFE, 0x10325476, 0xC3D2E1F0)"

primrec sha1_expand :: "nat \<Rightarrow> u32 list \<Rightarrow> u32 list" where
  "sha1_expand 0 w = []"
| "sha1_expand (Suc n) w =
     (let w0 = rol (w ! 0 XOR w ! 13 XOR w ! 8 XOR w ! 2) 1
      in w0 # sha1_expand n (tl w @ [w0]))"

fun sha1_add :: "sha1_state \<Rightarrow> sha1_state \<Rightarrow> sha1_state" where
  "sha1_add (s0, s1, s2, s3, s4) (a, b, c, d, e) = (s0 + a, s1 + b, s2 + c, s3 + d, s4 + e)"

definition sha1_Transform :: "sha1_state \<Rightarrow> byte list \<Rightarrow> sha1_state" where
  "sha1_Transform s chunk =
     (let w = be_words 16 chunk;
          w = w @ sha1_expand 64 w;
          r1 = foldl (sha1_Round sha1_f1 0x5A827999) s (take 20 w);
          r2 = foldl (sha1_Round sha1_f2 0x6ED9EBA1) r1 (take 20 (drop 20 w));
          r3 = foldl (sha1_Round sha1_f3 0x8F1BBCDC) r2 (take 20 (drop 40 w));
          r4 = foldl (sha1_Round sha1_f2 0xCA62C1D6) r3 (drop 60 w)
      in sha1_add s r4)"

fun sha1_out :: "sha1_state \<Rightarrow> byte list" where
  "sha1_out (s0, s1, s2, s3, s4) =
     WriteBE32 s0 @ WriteBE32 s1 @ WriteBE32 s2 @ WriteBE32 s3 @ WriteBE32 s4"

type_synonym CSHA1 = "sha1_state hasher"

definition CSHA1_init :: "byte list \<Rightarrow> CSHA1" where
  "CSHA1_init buf = md_init sha1_Initialize buf"

definition CSHA1_Write :: "CSHA1 \<Rightarrow> byte list \<Rightarrow> CSHA1" where
  "CSHA1_Write h dat = md_Write sha1_Transform h dat"

definition CSHA1_Finalize :: "CSHA1 \<Rightarrow> byte list" where
  "CSHA1_Finalize h = md_Finalize sha1_Transform WriteBE64 sha1_out h"

definition CSHA1_Reset :: "CSHA1 \<Rightarrow> CSHA1" where
  "CSHA1_Reset h = h\<lparr>h_bytes := 0, h_s := sha1_Initialize\<rparr>"

section \<open>RIPEMD-160\<close>

type_synonym ripemd160_state = "u32 \<times> u32 \<times> u32 \<times> u32 \<times> u32"

definition ripemd_f1 :: "u32 \<Rightarrow> u32 \<Rightarrow> u32 \<Rightarrow> u32" where "ripemd_f1 x y z = x XOR y XOR z"
definition ripemd_f2 :: "u32 \<Rightarrow> u32 \<Rightarrow> u32 \<Rightarrow> u32" where "ripemd_f2 x y z = (x AND y) OR (NOT x AND z)"
definition ripemd_f3 :: "u32 \<Rightarrow> u32 \<Rightarrow> u32 \<Rightarrow> u32" where "ripemd_f3 x y z = (x OR NOT y) XOR z"
definition ripemd_f4 :: "u32 \<Rightarrow> u32 \<Rightarrow> u32 \<Rightarrow> u32" where "ripemd_f4 x y z = (x AND z) OR (y AND NOT z)"
definition ripemd_f5 :: "u32 \<Rightarrow> u32 \<Rightarrow> u32 \<Rightarrow> u32" where "ripemd_f5 x y z = x XOR (y OR NOT z)"

definition ripemd160_Initialize :: ripemd160_state where
  "ripemd160_Initialize = (0x67452301, 0xEFCDAB89, 0x98BADCFE, 0x10325476, 0xC3D2E1F0)"

fun ripemd160_Round ::
  "(u32 \<Rightarrow> u32 \<Rightarrow> u32 \<Rightarrow> u32) \<Rightarrow> u32 \<Rightarrow> u32 list \<Rightarrow> ripemd160_state \<Rightarrow> nat \<times> nat \<Rightarrow> ripemd160_state" where
  "ripemd160_Round f k w (a, b, c, d, e) (x, r) =
     (e, rol (a + f b c d + w ! x + k) r + e, b, rol c 10, d)"

text \<open>The message word and the rotation of every round of the two lines.\<close>

definition ripemd160_line1 :: "(nat \<times> nat) list list" where
  "ripemd160_line1 =
     [[(0, 11), (1, 14), (2, 15), (3, 12), (4, 5), (5, 8), (6, 7), (7, 9),
       (8, 11), (9, 13), (10, 14), (11, 15), (12, 6), (13, 7), (14, 9), (15, 8)],
      [(7, 7), (4, 6), (13, 8), (1, 13), (10, 11), (6, 9), (15, 7), (3, 15),
       (12, 7), (0, 12), (9, 15), (5, 9), (2, 11), (14, 7), (11, 13), (8, 12)],
      [(3, 11), (10, 13), (14, 6), (4, 7), (9, 14), (15, 9), (8, 13), (1, 15),
       (2, 14), (7, 8), (0, 13), (6, 6), (13, 5), (11, 12), (5, 7), (12, 5)],
      [(1, 11), (9, 12), (11, 14), (10, 15), (0, 14), (8, 15), (12, 9), (4, 8),
       (13, 9), (3, 14), (7, 5), (15, 6), (14, 8), (5, 6), (6, 5), (2, 12)],
      [(4, 9), (0, 15), (5, 5), (9, 11), (7, 6), (12, 8), (2, 13), (10, 12),
       (14, 5), (1, 12), (3, 13), (8, 14), (11, 11), (6, 8), (15, 5), (13, 6)]]"

definition ripemd160_line2 :: "(nat \<times> nat) list list" where
  "ripemd160_line2 =
     [[(5, 8), (14, 9), (7, 9), (0, 11), (9, 13), (2, 15), (11, 15), (4, 5),
       (13, 7), (6, 7), (15, 8), (8, 11), (1, 14), (10, 14), (3, 12), (12, 6)],
      [(6, 9), (11, 13), (3, 15), (7, 7), (0, 12), (13, 8), (5, 9), (10, 11),
       (14, 7), (15, 7), (8, 12), (12, 7), (4, 6), (9, 15), (1, 13), (2, 11)],
      [(15, 9), (5, 7), (1, 15), (3, 11), (7, 8), (14, 6), (6, 6), (9, 14),
       (11, 12), (8, 13), (12, 5), (2, 14), (10, 13), (0, 13), (4, 7), (13, 5)],
      [(8, 15), (6, 5), (4, 8), (1, 11), (3, 14), (11, 14), (15, 6), (0, 14),
       (5, 6), (12, 9), (2, 12), (13, 9), (9, 12), (7, 5), (10, 15), (14, 8)],
      [(12, 8), (15, 5), (10, 12), (4, 9), (1, 12), (5, 5), (8, 14), (7, 6),
       (6, 8), (2, 13), (13, 6), (14, 5), (0, 15), (3, 13), (9, 11), (11, 11)]]"

primrec le_words :: "nat \<Rightarrow> byte list \<Rightarrow> u32 list" where
  "le_words 0 chunk = []"
| "le_words (Suc n) chunk = ReadLE32 chunk # le_words n (drop 4 chunk)"

definition ripemd160_lines ::
  "(u32 \<Rightarrow> u32 \<Rightarrow> u32 \<Rightarrow> u32) list \<Rightarrow> u32 list \<Rightarrow> (nat \<times> nat) list list \<Rightarrow> u32 list \<Rightarrow>
   ripemd160_state \<Rightarrow> ripemd160_state" where
  "ripemd160_lines fs ks steps w s =
     foldl (\<lambda>s (f, k, xs). foldl (ripemd160_Round f k w) s xs) s (zip fs (zip ks steps))"

fun ripemd160_add :: "ripemd160_state \<Rightarrow> ripemd160_state \<Rightarrow> ripemd160_state \<Rightarrow> ripemd160_state" where
  "ripemd160_add (s0, s1, s2, s3, s4) (a1, b1, c1, d1, e1) (a2, b2, c2, d2, e2) =
     (s1 + c1 + d2, s2 + d1 + e2, s3 + e1 + a2, s4 + a1 + b2, s0 + b1 + c2)"

definition ripemd160_Transform :: "ripemd160_state \<Rightarrow> byte list \<Rightarrow> ripemd160_state" where
  "ripemd160_Transform s chunk =
     (let w = le_words 16 chunk;
          l1 = ripemd160_lines [ripemd_f1, ripemd_f2, ripemd_f3, ripemd_f4, ripemd_f5]
                 [0, 0x5A827999, 0x6ED9EBA1, 0x8F1BBCDC, 0xA953FD4E] ripemd160_line1 w s;
          l2 = ripemd160_lines [ripemd_f5, ripemd_f4, ripemd_f3, ripemd_f2, ripemd_f1]
                 [0x50A28BE6, 0x5C4DD124, 0x6D703EF3, 0x7A6D76E9, 0] ripemd160_line2 w s
      in ripemd160_add s l1 l2)"

fun ripemd160_out :: "ripemd160_state \<Rightarrow> byte list" where
  "ripemd160_out (s0, s1, s2, s3, s4) =
     WriteLE32 s0 @ WriteLE32 s1 @ WriteLE32 s2 @ WriteLE32 s3 @ WriteLE32 s4"

type_synonym CRIPEMD160 = "ripemd160_state hasher"

definition CRIPEMD160_init :: "byte list \<Rightarrow> CRIPEMD160" where
  "CRIPEMD160_init buf = md_init ripemd160_Initialize buf"

definition CRIPEMD160_Write :: "CRIPEMD160 \<Rightarrow> byte list \<Rightarrow> CRIPEMD160" where
  "CRIPEMD160_Write h dat = md_Write ripemd160_Transform h dat"

definition CRIPEMD160_Finalize :: "CRIPEMD160 \<Rightarrow> byte list" where
  "CRIPEMD160_Finalize h = md_Finalize ripemd160_Transform WriteLE64 ripemd160_out h"

definition CRIPEMD160_Reset :: "CRIPEMD160 \<Rightarrow> CRIPEMD160" where
  "CRIPEMD160_Reset h = h\<lparr>h_bytes := 0, h_s := ripemd160_Initialize\<rparr>"

section \<open>The compositions\<close>

text \<open>
  A new hasher's buffer is not initialised in the code; \<open>uninit\<close> stands for its contents, on which
  no digest depends.
\<close>

definition uninit :: "byte list" where
  "uninit = replicate 64 0"

definition CHash256_Finalize :: "CSHA256 \<Rightarrow> byte list" where
  "CHash256_Finalize sha =
     (let buf = CSHA256_Finalize sha
      in CSHA256_Finalize (CSHA256_Write (CSHA256_Reset sha) buf))"

definition CHash256_Write :: "CSHA256 \<Rightarrow> byte list \<Rightarrow> CSHA256" where
  "CHash256_Write sha dat = CSHA256_Write sha dat"

definition CHash160_Finalize :: "CSHA256 \<Rightarrow> byte list" where
  "CHash160_Finalize sha =
     (let buf = CSHA256_Finalize sha
      in CRIPEMD160_Finalize (CRIPEMD160_Write (CRIPEMD160_init uninit) buf))"

definition CHash160_Write :: "CSHA256 \<Rightarrow> byte list \<Rightarrow> CSHA256" where
  "CHash160_Write sha dat = CSHA256_Write sha dat"

definition Hash :: "byte list \<Rightarrow> byte list" where
  "Hash p = CHash256_Finalize (CHash256_Write (CSHA256_init uninit) p)"

definition Hash_2 :: "byte list \<Rightarrow> byte list \<Rightarrow> byte list" where
  "Hash_2 p1 p2 = CHash256_Finalize (CHash256_Write (CHash256_Write (CSHA256_init uninit) p1) p2)"

definition Hash160 :: "byte list \<Rightarrow> byte list" where
  "Hash160 p = CHash160_Finalize (CHash160_Write (CSHA256_init uninit) p)"

text \<open>A \<open>CHashWriter\<close> receives the pieces a serialiser writes.\<close>

definition CHashWriter_GetHash :: "byte list list \<Rightarrow> byte list" where
  "CHashWriter_GetHash pieces = CHash256_Finalize (foldl CHash256_Write (CSHA256_init uninit) pieces)"

section \<open>The hashers meet their contract\<close>

definition sha256 :: "byte list \<Rightarrow> byte list" where
  "sha256 = md_digest sha256_Transform WriteBE64 sha256_out sha256_Initialize"

definition sha1 :: "byte list \<Rightarrow> byte list" where
  "sha1 = md_digest sha1_Transform WriteBE64 sha1_out sha1_Initialize"

definition ripemd160 :: "byte list \<Rightarrow> byte list" where
  "ripemd160 = md_digest ripemd160_Transform WriteLE64 ripemd160_out ripemd160_Initialize"

abbreviation sha256_repr :: "CSHA256 \<Rightarrow> byte list \<Rightarrow> bool" where
  "sha256_repr \<equiv> md_repr sha256_Transform sha256_Initialize"

lemma length_uninit [simp]: "length uninit = 64"
  by (simp add: uninit_def)

interpretation sha256: incremental_hash sha256_repr "CSHA256_init uninit" CSHA256_Write
    CSHA256_Finalize sha256
  by unfold_locales
    (auto simp: CSHA256_init_def CSHA256_Write_def CSHA256_Finalize_def sha256_def
      intro: md_repr_init md_Write_repr md_Finalize_repr)

interpretation sha1: incremental_hash "md_repr sha1_Transform sha1_Initialize" "CSHA1_init uninit"
    CSHA1_Write CSHA1_Finalize sha1
  by unfold_locales
    (auto simp: CSHA1_init_def CSHA1_Write_def CSHA1_Finalize_def sha1_def
      intro: md_repr_init md_Write_repr md_Finalize_repr)

interpretation ripemd160: incremental_hash "md_repr ripemd160_Transform ripemd160_Initialize"
    "CRIPEMD160_init uninit" CRIPEMD160_Write CRIPEMD160_Finalize ripemd160
  by unfold_locales
    (auto simp: CRIPEMD160_init_def CRIPEMD160_Write_def CRIPEMD160_Finalize_def ripemd160_def
      intro: md_repr_init md_Write_repr md_Finalize_repr)

lemma CSHA256_Reset_repr: "sha256_repr h msg \<Longrightarrow> sha256_repr (CSHA256_Reset h) []"
  by (auto simp: md_repr_def CSHA256_Reset_def md_blocks_short split: prod.splits)

interpretation hash256: incremental_hash sha256_repr "CSHA256_init uninit" CHash256_Write
    CHash256_Finalize "\<lambda>msg. sha256 (sha256 msg)"
proof unfold_locales
  show "CHash256_Finalize h = sha256 (sha256 msg)" if "sha256_repr h msg" for h msg
    using sha256.fin_repr [OF that] sha256.fin_repr [OF sha256.repr_wr [OF CSHA256_Reset_repr [OF that]]]
    by (simp add: CHash256_Finalize_def Let_def)
qed (simp_all add: sha256.repr_init sha256.repr_wr CHash256_Write_def)

interpretation hash160: incremental_hash sha256_repr "CSHA256_init uninit" CHash160_Write
    CHash160_Finalize "\<lambda>msg. ripemd160 (sha256 msg)"
proof unfold_locales
  show "CHash160_Finalize h = ripemd160 (sha256 msg)" if "sha256_repr h msg" for h msg
    using sha256.fin_repr [OF that] by (simp add: CHash160_Finalize_def Let_def ripemd160.fin_once)
qed (simp_all add: sha256.repr_init sha256.repr_wr CHash160_Write_def)

lemma Hash_eq: "Hash p = sha256 (sha256 p)"
  by (simp add: Hash_def hash256.fin_once)

lemma Hash_2_eq: "Hash_2 p1 p2 = Hash (p1 @ p2)"
  using hash256.fin_pieces [of "[p1, p2]"] by (simp add: Hash_2_def Hash_eq)

lemma Hash160_eq: "Hash160 p = ripemd160 (sha256 p)"
  by (simp add: Hash160_def hash160.fin_once)

lemma CHashWriter_GetHash_eq: "CHashWriter_GetHash pieces = Hash (concat pieces)"
  by (simp add: CHashWriter_GetHash_def hash256.fin_pieces Hash_eq)

lemma length_sha256_out [simp]: "length (sha256_out s) = 32"
  by (cases s rule: sha256_out.cases) simp

lemma length_sha256 [simp]: "length (sha256 msg) = 32"
  by (simp add: sha256_def md_digest_def)

lemma length_sha1 [simp]: "length (sha1 msg) = 20"
  by (simp add: sha1_def md_digest_def)
    (cases "fst (md_blocks sha1_Transform sha1_Initialize (md_pad WriteBE64 msg))", simp)

lemma length_ripemd160 [simp]: "length (ripemd160 msg) = 20"
  by (simp add: ripemd160_def md_digest_def)
    (cases "fst (md_blocks ripemd160_Transform ripemd160_Initialize (md_pad WriteLE64 msg))", simp)

lemma length_Hash [simp]: "length (Hash p) = 32"
  by (simp add: Hash_eq)

lemma length_Hash160 [simp]: "length (Hash160 p) = 20"
  by (simp add: Hash160_eq)

text \<open>
  C33: however a message is cut into pieces, the buffered hashers return the digest of the whole message.
\<close>
theorem hash_pieces:
  "CSHA256_Finalize (foldl CSHA256_Write (CSHA256_init uninit) chunks) = sha256 (concat chunks) \<and>
   CSHA1_Finalize (foldl CSHA1_Write (CSHA1_init uninit) chunks) = sha1 (concat chunks) \<and>
   CRIPEMD160_Finalize (foldl CRIPEMD160_Write (CRIPEMD160_init uninit) chunks) = ripemd160 (concat chunks) \<and>
   CHashWriter_GetHash chunks = sha256 (sha256 (concat chunks))"
  by (simp add: sha256.fin_pieces sha1.fin_pieces ripemd160.fin_pieces CHashWriter_GetHash_eq Hash_eq)

end
