(* ===== verification/Interpreter.thy ===== *)
theory Interpreter
  imports SigEncoding Hashes
begin

text \<open>
  The script interpreter \<open>EvalScript\<close> (\<open>src/src/script/interpreter.cpp\<close>, lines 287 to 1106).

  The stack vectors are lists with the back of the vector first: \<open>stacktop(-1)\<close> is the head.  The
  state of the loop is a record; the position in the script is passed along as the list of the
  remaining bytes, and \<open>pend\<close> is its end.  There is one definition per opcode or group of opcodes
  that shares a \<open>case\<close> of the \<open>switch\<close>.  \<open>Inl e\<close> is \<open>return set_error(serror, e)\<close>; the
  exceptions of the number class are caught by the interpreter and give
  \<open>SCRIPT_ERR_UNKNOWN_ERROR\<close>.  The result of a run that returns true carries the final stack and
  the value left in \<open>*serror\<close>.
\<close>

section \<open>Environment and state\<close>

record SignatureChecker =
  CheckSig :: "valtype \<Rightarrow> valtype \<Rightarrow> CScript \<Rightarrow> SigVersion \<Rightarrow> bool"
  CheckLockTime :: "int \<Rightarrow> bool"
  CheckSequence :: "int \<Rightarrow> bool"

definition BaseSignatureChecker :: SignatureChecker where
  "BaseSignatureChecker =
     \<lparr>CheckSig = \<lambda>_ _ _ _. False, CheckLockTime = \<lambda>_. False, CheckSequence = \<lambda>_. False\<rparr>"

record eval_env =
  e_ctx :: secp256k1
  e_flags :: u32
  e_checker :: SignatureChecker
  e_sigversion :: SigVersion

record eval_state =
  stack :: "valtype list"
  altstack :: "valtype list"
  vfExec :: "bool list"
  nOpCount :: int
  pbegincodehash :: "byte list"

datatype eval_result =
    Next eval_state
  | ReturnTrue "valtype list"

type_synonym op_result = "ScriptError + eval_state"

abbreviation (input) vchFalse :: valtype where "vchFalse \<equiv> []"
abbreviation (input) vchTrue :: valtype where "vchTrue \<equiv> [1]"

definition bool_vch :: "bool \<Rightarrow> valtype" where
  "bool_vch b = (if b then vchTrue else vchFalse)"

definition has_flag :: "eval_env \<Rightarrow> u32 \<Rightarrow> bool" where
  "has_flag env f \<longleftrightarrow> e_flags env AND f \<noteq> 0"

definition script_num :: "eval_env \<Rightarrow> valtype \<Rightarrow> nat \<Rightarrow> ScriptError + int" where
  "script_num env vch nMaxNumSize =
     (case CScriptNum vch (has_flag env SCRIPT_VERIFY_MINIMALDATA) nMaxNumSize of
        Inl _ \<Rightarrow> Inl SCRIPT_ERR_UNKNOWN_ERROR
      | Inr n \<Rightarrow> Inr n)"

section \<open>Constants and control\<close>

definition op_push_number :: "opcodetype \<Rightarrow> eval_state \<Rightarrow> op_result" where
  "op_push_number opcode st =
     Inr (st\<lparr>stack := ScriptNum_serialize (int opcode - (int OP_1 - 1)) # stack st\<rparr>)"

definition op_CHECKLOCKTIMEVERIFY :: "eval_env \<Rightarrow> eval_state \<Rightarrow> op_result" where
  "op_CHECKLOCKTIMEVERIFY env st =
     (if \<not> has_flag env SCRIPT_VERIFY_CHECKLOCKTIMEVERIFY then Inr st
      else case stack st of
        [] \<Rightarrow> Inl SCRIPT_ERR_INVALID_STACK_OPERATION
      | vch # _ \<Rightarrow>
          bindE (script_num env vch 5) (\<lambda>nLockTime.
            if nLockTime < 0 then Inl SCRIPT_ERR_NEGATIVE_LOCKTIME
            else if \<not> CheckLockTime (e_checker env) nLockTime then Inl SCRIPT_ERR_UNSATISFIED_LOCKTIME
            else Inr st))"

abbreviation (input) SEQUENCE_LOCKTIME_DISABLE_FLAG :: int where
  "SEQUENCE_LOCKTIME_DISABLE_FLAG \<equiv> 0x80000000"

definition op_CHECKSEQUENCEVERIFY :: "eval_env \<Rightarrow> eval_state \<Rightarrow> op_result" where
  "op_CHECKSEQUENCEVERIFY env st =
     (if \<not> has_flag env SCRIPT_VERIFY_CHECKSEQUENCEVERIFY then Inr st
      else case stack st of
        [] \<Rightarrow> Inl SCRIPT_ERR_INVALID_STACK_OPERATION
      | vch # _ \<Rightarrow>
          bindE (script_num env vch 5) (\<lambda>nSequence.
            if nSequence < 0 then Inl SCRIPT_ERR_NEGATIVE_LOCKTIME
            else if nSequence AND SEQUENCE_LOCKTIME_DISABLE_FLAG \<noteq> 0 then Inr st
            else if \<not> CheckSequence (e_checker env) nSequence then Inl SCRIPT_ERR_UNSATISFIED_LOCKTIME
            else Inr st))"

definition op_NOPx :: "eval_env \<Rightarrow> eval_state \<Rightarrow> op_result" where
  "op_NOPx env st =
     (if has_flag env SCRIPT_VERIFY_DISCOURAGE_UPGRADABLE_NOPS
      then Inl SCRIPT_ERR_DISCOURAGE_UPGRADABLE_NOPS
      else Inr st)"

definition op_IF :: "eval_env \<Rightarrow> opcodetype \<Rightarrow> bool \<Rightarrow> eval_state \<Rightarrow> op_result" where
  "op_IF env opcode fExec st =
     (if fExec then
        (case stack st of
           [] \<Rightarrow> Inl SCRIPT_ERR_UNBALANCED_CONDITIONAL
         | vch # rest \<Rightarrow>
             if e_sigversion env = WITNESS_V0 \<and> has_flag env SCRIPT_VERIFY_MINIMALIF \<and>
                (length vch > 1 \<or> (length vch = 1 \<and> vch ! 0 \<noteq> 1))
             then Inl SCRIPT_ERR_MINIMALIF
             else
               let fValue = (if opcode = OP_NOTIF then \<not> CastToBool vch else CastToBool vch)
               in Inr (st\<lparr>stack := rest, vfExec := fValue # vfExec st\<rparr>))
      else Inr (st\<lparr>vfExec := False # vfExec st\<rparr>))"

definition op_ELSE :: "eval_state \<Rightarrow> op_result" where
  "op_ELSE st =
     (case vfExec st of
        [] \<Rightarrow> Inl SCRIPT_ERR_UNBALANCED_CONDITIONAL
      | b # bs \<Rightarrow> Inr (st\<lparr>vfExec := (\<not> b) # bs\<rparr>))"

definition op_ENDIF :: "eval_state \<Rightarrow> op_result" where
  "op_ENDIF st =
     (case vfExec st of
        [] \<Rightarrow> Inl SCRIPT_ERR_UNBALANCED_CONDITIONAL
      | b # bs \<Rightarrow> Inr (st\<lparr>vfExec := bs\<rparr>))"

definition op_VERIFY :: "eval_state \<Rightarrow> op_result" where
  "op_VERIFY st =
     (case stack st of
        [] \<Rightarrow> Inl SCRIPT_ERR_INVALID_STACK_OPERATION
      | vch # rest \<Rightarrow>
          if CastToBool vch then Inr (st\<lparr>stack := rest\<rparr>) else Inl SCRIPT_ERR_VERIFY)"

section \<open>Stack operations\<close>

definition op_TOALTSTACK :: "eval_state \<Rightarrow> op_result" where
  "op_TOALTSTACK st =
     (case stack st of
        [] \<Rightarrow> Inl SCRIPT_ERR_INVALID_STACK_OPERATION
      | x # rest \<Rightarrow> Inr (st\<lparr>stack := rest, altstack := x # altstack st\<rparr>))"

definition op_FROMALTSTACK :: "eval_state \<Rightarrow> op_result" where
  "op_FROMALTSTACK st =
     (case altstack st of
        [] \<Rightarrow> Inl SCRIPT_ERR_INVALID_ALTSTACK_OPERATION
      | x # rest \<Rightarrow> Inr (st\<lparr>stack := x # stack st, altstack := rest\<rparr>))"

definition op_2DROP :: "eval_state \<Rightarrow> op_result" where
  "op_2DROP st =
     (case stack st of
        x2 # x1 # rest \<Rightarrow> Inr (st\<lparr>stack := rest\<rparr>)
      | _ \<Rightarrow> Inl SCRIPT_ERR_INVALID_STACK_OPERATION)"

definition op_2DUP :: "eval_state \<Rightarrow> op_result" where
  "op_2DUP st =
     (case stack st of
        x2 # x1 # rest \<Rightarrow> Inr (st\<lparr>stack := x2 # x1 # x2 # x1 # rest\<rparr>)
      | _ \<Rightarrow> Inl SCRIPT_ERR_INVALID_STACK_OPERATION)"

definition op_3DUP :: "eval_state \<Rightarrow> op_result" where
  "op_3DUP st =
     (case stack st of
        x3 # x2 # x1 # rest \<Rightarrow> Inr (st\<lparr>stack := x3 # x2 # x1 # x3 # x2 # x1 # rest\<rparr>)
      | _ \<Rightarrow> Inl SCRIPT_ERR_INVALID_STACK_OPERATION)"

definition op_2OVER :: "eval_state \<Rightarrow> op_result" where
  "op_2OVER st =
     (case stack st of
        x4 # x3 # x2 # x1 # rest \<Rightarrow> Inr (st\<lparr>stack := x2 # x1 # x4 # x3 # x2 # x1 # rest\<rparr>)
      | _ \<Rightarrow> Inl SCRIPT_ERR_INVALID_STACK_OPERATION)"

definition op_2ROT :: "eval_state \<Rightarrow> op_result" where
  "op_2ROT st =
     (case stack st of
        x6 # x5 # x4 # x3 # x2 # x1 # rest \<Rightarrow>
          Inr (st\<lparr>stack := x2 # x1 # x6 # x5 # x4 # x3 # rest\<rparr>)
      | _ \<Rightarrow> Inl SCRIPT_ERR_INVALID_STACK_OPERATION)"

definition op_2SWAP :: "eval_state \<Rightarrow> op_result" where
  "op_2SWAP st =
     (case stack st of
        x4 # x3 # x2 # x1 # rest \<Rightarrow> Inr (st\<lparr>stack := x2 # x1 # x4 # x3 # rest\<rparr>)
      | _ \<Rightarrow> Inl SCRIPT_ERR_INVALID_STACK_OPERATION)"

definition op_IFDUP :: "eval_state \<Rightarrow> op_result" where
  "op_IFDUP st =
     (case stack st of
        [] \<Rightarrow> Inl SCRIPT_ERR_INVALID_STACK_OPERATION
      | x # rest \<Rightarrow> Inr (if CastToBool x then st\<lparr>stack := x # stack st\<rparr> else st))"

definition op_DEPTH :: "eval_state \<Rightarrow> op_result" where
  "op_DEPTH st = Inr (st\<lparr>stack := ScriptNum_serialize (int (length (stack st))) # stack st\<rparr>)"

definition op_DROP :: "eval_state \<Rightarrow> op_result" where
  "op_DROP st =
     (case stack st of
        [] \<Rightarrow> Inl SCRIPT_ERR_INVALID_STACK_OPERATION
      | x # rest \<Rightarrow> Inr (st\<lparr>stack := rest\<rparr>))"

definition op_DUP :: "eval_state \<Rightarrow> op_result" where
  "op_DUP st =
     (case stack st of
        [] \<Rightarrow> Inl SCRIPT_ERR_INVALID_STACK_OPERATION
      | x # rest \<Rightarrow> Inr (st\<lparr>stack := x # x # rest\<rparr>))"

definition op_NIP :: "eval_state \<Rightarrow> op_result" where
  "op_NIP st =
     (case stack st of
        x2 # x1 # rest \<Rightarrow> Inr (st\<lparr>stack := x2 # rest\<rparr>)
      | _ \<Rightarrow> Inl SCRIPT_ERR_INVALID_STACK_OPERATION)"

definition op_OVER :: "eval_state \<Rightarrow> op_result" where
  "op_OVER st =
     (case stack st of
        x2 # x1 # rest \<Rightarrow> Inr (st\<lparr>stack := x1 # x2 # x1 # rest\<rparr>)
      | _ \<Rightarrow> Inl SCRIPT_ERR_INVALID_STACK_OPERATION)"

definition op_PICK_ROLL :: "eval_env \<Rightarrow> opcodetype \<Rightarrow> eval_state \<Rightarrow> op_result" where
  "op_PICK_ROLL env opcode st =
     (case stack st of
        vchN # x # rest0 \<Rightarrow>
          bindE (script_num env vchN nDefaultMaxNumSize) (\<lambda>num.
            let n = ScriptNum_getint num;
                rest = x # rest0
            in if n < 0 \<or> n \<ge> int (length rest) then Inl SCRIPT_ERR_INVALID_STACK_OPERATION
               else
                 let vch = rest ! nat n;
                     rest = (if opcode = OP_ROLL then take (nat n) rest @ drop (nat n + 1) rest else rest)
                 in Inr (st\<lparr>stack := vch # rest\<rparr>))
      | _ \<Rightarrow> Inl SCRIPT_ERR_INVALID_STACK_OPERATION)"

definition op_ROT :: "eval_state \<Rightarrow> op_result" where
  "op_ROT st =
     (case stack st of
        x3 # x2 # x1 # rest \<Rightarrow> Inr (st\<lparr>stack := x1 # x3 # x2 # rest\<rparr>)
      | _ \<Rightarrow> Inl SCRIPT_ERR_INVALID_STACK_OPERATION)"

definition op_SWAP :: "eval_state \<Rightarrow> op_result" where
  "op_SWAP st =
     (case stack st of
        x2 # x1 # rest \<Rightarrow> Inr (st\<lparr>stack := x1 # x2 # rest\<rparr>)
      | _ \<Rightarrow> Inl SCRIPT_ERR_INVALID_STACK_OPERATION)"

definition op_TUCK :: "eval_state \<Rightarrow> op_result" where
  "op_TUCK st =
     (case stack st of
        x2 # x1 # rest \<Rightarrow> Inr (st\<lparr>stack := x2 # x1 # x2 # rest\<rparr>)
      | _ \<Rightarrow> Inl SCRIPT_ERR_INVALID_STACK_OPERATION)"

definition op_SIZE :: "eval_state \<Rightarrow> op_result" where
  "op_SIZE st =
     (case stack st of
        [] \<Rightarrow> Inl SCRIPT_ERR_INVALID_STACK_OPERATION
      | x # rest \<Rightarrow> Inr (st\<lparr>stack := ScriptNum_serialize (int (length x)) # stack st\<rparr>))"

section \<open>Comparison and arithmetic\<close>

definition op_EQUAL :: "opcodetype \<Rightarrow> eval_state \<Rightarrow> op_result" where
  "op_EQUAL opcode st =
     (case stack st of
        vch2 # vch1 # rest \<Rightarrow>
          let fEqual = (vch1 = vch2)
          in if opcode = OP_EQUALVERIFY then
               if fEqual then Inr (st\<lparr>stack := rest\<rparr>) else Inl SCRIPT_ERR_EQUALVERIFY
             else Inr (st\<lparr>stack := bool_vch fEqual # rest\<rparr>)
      | _ \<Rightarrow> Inl SCRIPT_ERR_INVALID_STACK_OPERATION)"

definition unary_num :: "opcodetype \<Rightarrow> int \<Rightarrow> int" where
  "unary_num opcode bn =
     (if opcode = OP_1ADD then bn + 1
      else if opcode = OP_1SUB then bn - 1
      else if opcode = OP_NEGATE then - bn
      else if opcode = OP_ABS then (if bn < 0 then - bn else bn)
      else if opcode = OP_NOT then of_bool (bn = 0)
      else of_bool (bn \<noteq> 0))"

definition op_unary_num :: "eval_env \<Rightarrow> opcodetype \<Rightarrow> eval_state \<Rightarrow> op_result" where
  "op_unary_num env opcode st =
     (case stack st of
        [] \<Rightarrow> Inl SCRIPT_ERR_INVALID_STACK_OPERATION
      | vch # rest \<Rightarrow>
          bindE (script_num env vch nDefaultMaxNumSize) (\<lambda>bn.
            Inr (st\<lparr>stack := ScriptNum_serialize (unary_num opcode bn) # rest\<rparr>)))"

definition binary_num :: "opcodetype \<Rightarrow> int \<Rightarrow> int \<Rightarrow> int" where
  "binary_num opcode bn1 bn2 =
     (if opcode = OP_ADD then bn1 + bn2
      else if opcode = OP_SUB then bn1 - bn2
      else if opcode = OP_BOOLAND then of_bool (bn1 \<noteq> 0 \<and> bn2 \<noteq> 0)
      else if opcode = OP_BOOLOR then of_bool (bn1 \<noteq> 0 \<or> bn2 \<noteq> 0)
      else if opcode = OP_NUMEQUAL then of_bool (bn1 = bn2)
      else if opcode = OP_NUMEQUALVERIFY then of_bool (bn1 = bn2)
      else if opcode = OP_NUMNOTEQUAL then of_bool (bn1 \<noteq> bn2)
      else if opcode = OP_LESSTHAN then of_bool (bn1 < bn2)
      else if opcode = OP_GREATERTHAN then of_bool (bn1 > bn2)
      else if opcode = OP_LESSTHANOREQUAL then of_bool (bn1 \<le> bn2)
      else if opcode = OP_GREATERTHANOREQUAL then of_bool (bn1 \<ge> bn2)
      else if opcode = OP_MIN then (if bn1 < bn2 then bn1 else bn2)
      else if bn1 > bn2 then bn1 else bn2)"

definition op_binary_num :: "eval_env \<Rightarrow> opcodetype \<Rightarrow> eval_state \<Rightarrow> op_result" where
  "op_binary_num env opcode st =
     (case stack st of
        vch2 # vch1 # rest \<Rightarrow>
          bindE (script_num env vch1 nDefaultMaxNumSize) (\<lambda>bn1.
          bindE (script_num env vch2 nDefaultMaxNumSize) (\<lambda>bn2.
            let vch = ScriptNum_serialize (binary_num opcode bn1 bn2)
            in if opcode = OP_NUMEQUALVERIFY then
                 if CastToBool vch then Inr (st\<lparr>stack := rest\<rparr>) else Inl SCRIPT_ERR_NUMEQUALVERIFY
               else Inr (st\<lparr>stack := vch # rest\<rparr>)))
      | _ \<Rightarrow> Inl SCRIPT_ERR_INVALID_STACK_OPERATION)"

definition op_WITHIN :: "eval_env \<Rightarrow> eval_state \<Rightarrow> op_result" where
  "op_WITHIN env st =
     (case stack st of
        vch3 # vch2 # vch1 # rest \<Rightarrow>
          bindE (script_num env vch1 nDefaultMaxNumSize) (\<lambda>bn1.
          bindE (script_num env vch2 nDefaultMaxNumSize) (\<lambda>bn2.
          bindE (script_num env vch3 nDefaultMaxNumSize) (\<lambda>bn3.
            Inr (st\<lparr>stack := bool_vch (bn2 \<le> bn1 \<and> bn1 < bn3) # rest\<rparr>))))
      | _ \<Rightarrow> Inl SCRIPT_ERR_INVALID_STACK_OPERATION)"

section \<open>Cryptography\<close>

definition script_hash :: "opcodetype \<Rightarrow> valtype \<Rightarrow> valtype" where
  "script_hash opcode vch =
     (if opcode = OP_RIPEMD160 then CRIPEMD160_Finalize (CRIPEMD160_Write (CRIPEMD160_init uninit) vch)
      else if opcode = OP_SHA1 then CSHA1_Finalize (CSHA1_Write (CSHA1_init uninit) vch)
      else if opcode = OP_SHA256 then CSHA256_Finalize (CSHA256_Write (CSHA256_init uninit) vch)
      else if opcode = OP_HASH160 then CHash160_Finalize (CHash160_Write (CSHA256_init uninit) vch)
      else CHash256_Finalize (CHash256_Write (CSHA256_init uninit) vch))"

definition op_hash :: "opcodetype \<Rightarrow> eval_state \<Rightarrow> op_result" where
  "op_hash opcode st =
     (case stack st of
        [] \<Rightarrow> Inl SCRIPT_ERR_INVALID_STACK_OPERATION
      | vch # rest \<Rightarrow> Inr (st\<lparr>stack := script_hash opcode vch # rest\<rparr>))"

definition op_CODESEPARATOR :: "byte list \<Rightarrow> eval_state \<Rightarrow> op_result" where
  "op_CODESEPARATOR pc st = Inr (st\<lparr>pbegincodehash := pc\<rparr>)"

text \<open>
  Removing a signature from the script code of a pre-segwit script; \<open>CScript(vchSig)\<close> is the script
  that pushes the signature.
\<close>

definition drop_signature :: "eval_env \<Rightarrow> CScript \<Rightarrow> valtype \<Rightarrow> ScriptError + CScript" where
  "drop_signature env scriptCode vchSig =
     (if e_sigversion env = BASE then
        case FindAndDelete scriptCode (push_vch [] vchSig) of (found, scriptCode) \<Rightarrow>
          if found > 0 \<and> has_flag env SCRIPT_VERIFY_CONST_SCRIPTCODE
          then Inl SCRIPT_ERR_SIG_FINDANDDELETE
          else Inr scriptCode
      else Inr scriptCode)"

definition check_encodings :: "eval_env \<Rightarrow> valtype \<Rightarrow> valtype \<Rightarrow> ScriptError + unit" where
  "check_encodings env vchSig vchPubKey =
     bindE (CheckSignatureEncoding (e_ctx env) vchSig (e_flags env)) (\<lambda>_.
       CheckPubKeyEncoding vchPubKey (e_flags env) (e_sigversion env))"

definition op_CHECKSIG :: "eval_env \<Rightarrow> opcodetype \<Rightarrow> eval_state \<Rightarrow> op_result" where
  "op_CHECKSIG env opcode st =
     (case stack st of
        vchPubKey # vchSig # rest \<Rightarrow>
          bindE (drop_signature env (pbegincodehash st) vchSig) (\<lambda>scriptCode.
          bindE (check_encodings env vchSig vchPubKey) (\<lambda>_.
            let fSuccess = CheckSig (e_checker env) vchSig vchPubKey scriptCode (e_sigversion env)
            in if \<not> fSuccess \<and> has_flag env SCRIPT_VERIFY_NULLFAIL \<and> vchSig \<noteq> []
               then Inl SCRIPT_ERR_SIG_NULLFAIL
               else if opcode = OP_CHECKSIGVERIFY then
                 if fSuccess then Inr (st\<lparr>stack := rest\<rparr>) else Inl SCRIPT_ERR_CHECKSIGVERIFY
               else Inr (st\<lparr>stack := bool_vch fSuccess # rest\<rparr>)))
      | _ \<Rightarrow> Inl SCRIPT_ERR_INVALID_STACK_OPERATION)"

primrec drop_signatures :: "eval_env \<Rightarrow> CScript \<Rightarrow> valtype list \<Rightarrow> ScriptError + CScript" where
  "drop_signatures env scriptCode [] = Inr scriptCode"
| "drop_signatures env scriptCode (vchSig # sigs) =
     bindE (drop_signature env scriptCode vchSig) (\<lambda>scriptCode. drop_signatures env scriptCode sigs)"

text \<open>
  The matching loop of \<open>OP_CHECKMULTISIG\<close>: the signatures and the keys not yet consumed, in the order
  of the stack.  The loop never looks for a key when none is left, because it stops as soon as
  there are more signatures than keys.
\<close>

fun multisig_loop ::
  "eval_env \<Rightarrow> CScript \<Rightarrow> valtype list \<Rightarrow> valtype list \<Rightarrow> ScriptError + bool" where
  "multisig_loop env scriptCode [] keys = Inr True"
| "multisig_loop env scriptCode (vchSig # sigs) [] = Inr False"
| "multisig_loop env scriptCode (vchSig # sigs) (vchPubKey # keys) =
     bindE (check_encodings env vchSig vchPubKey) (\<lambda>_.
       let fOk = CheckSig (e_checker env) vchSig vchPubKey scriptCode (e_sigversion env);
           sigs' = (if fOk then sigs else vchSig # sigs)
       in if length sigs' > length keys then Inr False
          else multisig_loop env scriptCode sigs' keys)"

primrec multisig_cleanup ::
  "eval_env \<Rightarrow> bool \<Rightarrow> nat \<Rightarrow> nat \<Rightarrow> valtype list \<Rightarrow> ScriptError + valtype list" where
  "multisig_cleanup env fSuccess 0 ikey2 stk = Inr stk"
| "multisig_cleanup env fSuccess (Suc i) ikey2 stk =
     (if \<not> fSuccess \<and> has_flag env SCRIPT_VERIFY_NULLFAIL \<and> ikey2 = 0 \<and> hd stk \<noteq> []
      then Inl SCRIPT_ERR_SIG_NULLFAIL
      else multisig_cleanup env fSuccess i (ikey2 - 1) (tl stk))"

definition multisig_finish ::
  "eval_env \<Rightarrow> opcodetype \<Rightarrow> bool \<Rightarrow> eval_state \<Rightarrow> valtype list \<Rightarrow> op_result" where
  "multisig_finish env opcode fSuccess st stk =
     (case stk of
        [] \<Rightarrow> Inl SCRIPT_ERR_INVALID_STACK_OPERATION
      | dummy # rest \<Rightarrow>
          if has_flag env SCRIPT_VERIFY_NULLDUMMY \<and> dummy \<noteq> [] then Inl SCRIPT_ERR_SIG_NULLDUMMY
          else if opcode = OP_CHECKMULTISIGVERIFY then
            if fSuccess then Inr (st\<lparr>stack := rest\<rparr>) else Inl SCRIPT_ERR_CHECKMULTISIGVERIFY
          else Inr (st\<lparr>stack := bool_vch fSuccess # rest\<rparr>))"

definition multisig_keys :: "eval_env \<Rightarrow> eval_state \<Rightarrow> ScriptError + nat \<times> eval_state" where
  "multisig_keys env st =
     (if length (stack st) < 1 then Inl SCRIPT_ERR_INVALID_STACK_OPERATION
      else bindE (script_num env (stack st ! 0) nDefaultMaxNumSize) (\<lambda>num.
        let nKeysCount = ScriptNum_getint num
        in if nKeysCount < 0 \<or> nKeysCount > MAX_PUBKEYS_PER_MULTISIG
           then Inl SCRIPT_ERR_PUBKEY_COUNT
           else if nOpCount st + nKeysCount > MAX_OPS_PER_SCRIPT then Inl SCRIPT_ERR_OP_COUNT
           else Inr (nat nKeysCount, st\<lparr>nOpCount := nOpCount st + nKeysCount\<rparr>)))"

definition multisig_sigs :: "eval_env \<Rightarrow> nat \<Rightarrow> eval_state \<Rightarrow> ScriptError + nat" where
  "multisig_sigs env k st =
     (if length (stack st) < k + 2 then Inl SCRIPT_ERR_INVALID_STACK_OPERATION
      else bindE (script_num env (stack st ! (k + 1)) nDefaultMaxNumSize) (\<lambda>num.
        let nSigsCount = ScriptNum_getint num
        in if nSigsCount < 0 \<or> nSigsCount > int k then Inl SCRIPT_ERR_SIG_COUNT
           else if length (stack st) < k + 3 + nat nSigsCount
           then Inl SCRIPT_ERR_INVALID_STACK_OPERATION
           else Inr (nat nSigsCount)))"

definition op_CHECKMULTISIG :: "eval_env \<Rightarrow> opcodetype \<Rightarrow> eval_state \<Rightarrow> op_result" where
  "op_CHECKMULTISIG env opcode st =
     bindE (multisig_keys env st) (\<lambda>(k, st).
     bindE (multisig_sigs env k st) (\<lambda>s.
     let sigs = take s (drop (k + 2) (stack st));
         keys = take k (drop 1 (stack st))
     in bindE (drop_signatures env (pbegincodehash st) sigs) (\<lambda>scriptCode.
        bindE (multisig_loop env scriptCode sigs keys) (\<lambda>fSuccess.
        bindE (multisig_cleanup env fSuccess (k + s + 2) (k + 2) (stack st)) (\<lambda>stk.
          multisig_finish env opcode fSuccess st stk)))))"

section \<open>Dispatch and the loop\<close>

definition exec_stack_op :: "eval_env \<Rightarrow> opcodetype \<Rightarrow> eval_state \<Rightarrow> op_result option" where
  "exec_stack_op env opcode st =
     (if opcode = OP_TOALTSTACK then Some (op_TOALTSTACK st)
      else if opcode = OP_FROMALTSTACK then Some (op_FROMALTSTACK st)
      else if opcode = OP_2DROP then Some (op_2DROP st)
      else if opcode = OP_2DUP then Some (op_2DUP st)
      else if opcode = OP_3DUP then Some (op_3DUP st)
      else if opcode = OP_2OVER then Some (op_2OVER st)
      else if opcode = OP_2ROT then Some (op_2ROT st)
      else if opcode = OP_2SWAP then Some (op_2SWAP st)
      else if opcode = OP_IFDUP then Some (op_IFDUP st)
      else if opcode = OP_DEPTH then Some (op_DEPTH st)
      else if opcode = OP_DROP then Some (op_DROP st)
      else if opcode = OP_DUP then Some (op_DUP st)
      else if opcode = OP_NIP then Some (op_NIP st)
      else if opcode = OP_OVER then Some (op_OVER st)
      else if opcode = OP_PICK \<or> opcode = OP_ROLL then Some (op_PICK_ROLL env opcode st)
      else if opcode = OP_ROT then Some (op_ROT st)
      else if opcode = OP_SWAP then Some (op_SWAP st)
      else if opcode = OP_TUCK then Some (op_TUCK st)
      else if opcode = OP_SIZE then Some (op_SIZE st)
      else None)"

definition exec_control_op ::
  "eval_env \<Rightarrow> opcodetype \<Rightarrow> bool \<Rightarrow> eval_state \<Rightarrow> op_result option" where
  "exec_control_op env opcode fExec st =
     (if opcode = OP_1NEGATE \<or> (OP_1 \<le> opcode \<and> opcode \<le> OP_16) then Some (op_push_number opcode st)
      else if opcode = OP_NOP then Some (Inr st)
      else if opcode = OP_CHECKLOCKTIMEVERIFY then Some (op_CHECKLOCKTIMEVERIFY env st)
      else if opcode = OP_CHECKSEQUENCEVERIFY then Some (op_CHECKSEQUENCEVERIFY env st)
      else if opcode = OP_NOP1 \<or> (OP_NOP4 \<le> opcode \<and> opcode \<le> OP_NOP10) then Some (op_NOPx env st)
      else if opcode = OP_IF \<or> opcode = OP_NOTIF then Some (op_IF env opcode fExec st)
      else if opcode = OP_ELSE then Some (op_ELSE st)
      else if opcode = OP_ENDIF then Some (op_ENDIF st)
      else if opcode = OP_VERIFY then Some (op_VERIFY st)
      else if opcode = OP_RETURN then Some (Inl SCRIPT_ERR_OP_RETURN)
      else None)"

definition exec_data_op ::
  "eval_env \<Rightarrow> opcodetype \<Rightarrow> byte list \<Rightarrow> eval_state \<Rightarrow> op_result option" where
  "exec_data_op env opcode pc st =
     (if opcode = OP_EQUAL \<or> opcode = OP_EQUALVERIFY then Some (op_EQUAL opcode st)
      else if opcode \<in> {OP_1ADD, OP_1SUB, OP_NEGATE, OP_ABS, OP_NOT, OP_0NOTEQUAL}
      then Some (op_unary_num env opcode st)
      else if opcode \<in> {OP_ADD, OP_SUB, OP_BOOLAND, OP_BOOLOR, OP_NUMEQUAL, OP_NUMEQUALVERIFY,
                OP_NUMNOTEQUAL, OP_LESSTHAN, OP_GREATERTHAN, OP_LESSTHANOREQUAL,
                OP_GREATERTHANOREQUAL, OP_MIN, OP_MAX}
      then Some (op_binary_num env opcode st)
      else if opcode = OP_WITHIN then Some (op_WITHIN env st)
      else if opcode \<in> {OP_RIPEMD160, OP_SHA1, OP_SHA256, OP_HASH160, OP_HASH256}
      then Some (op_hash opcode st)
      else if opcode = OP_CODESEPARATOR then Some (op_CODESEPARATOR pc st)
      else if opcode = OP_CHECKSIG \<or> opcode = OP_CHECKSIGVERIFY then Some (op_CHECKSIG env opcode st)
      else if opcode = OP_CHECKMULTISIG \<or> opcode = OP_CHECKMULTISIGVERIFY
      then Some (op_CHECKMULTISIG env opcode st)
      else None)"

text \<open>
  The \<open>switch\<close>.  The contract opcodes end the run with success; \<open>OP_CREATE\<close> and \<open>OP_CALL\<close> first push
  the script from their own byte on (\<open>pc - 1\<close>).
\<close>

definition exec_op ::
  "eval_env \<Rightarrow> opcodetype \<Rightarrow> byte list \<Rightarrow> bool \<Rightarrow> eval_state \<Rightarrow> ScriptError + eval_result" where
  "exec_op env opcode pc fExec st =
     (if opcode = OP_SPEND then Inr (ReturnTrue (stack st))
      else if opcode = OP_CREATE \<or> opcode = OP_CALL
      then Inr (ReturnTrue ((of_nat opcode # pc) # stack st))
      else
        bindE (case exec_control_op env opcode fExec st of
                 Some r \<Rightarrow> r
               | None \<Rightarrow>
                   (case exec_stack_op env opcode st of
                      Some r \<Rightarrow> r
                    | None \<Rightarrow>
                        (case exec_data_op env opcode pc st of
                           Some r \<Rightarrow> r
                         | None \<Rightarrow> Inl SCRIPT_ERR_BAD_OPCODE)))
          (\<lambda>st. Inr (Next st)))"

definition disabled_opcode :: "opcodetype \<Rightarrow> bool" where
  "disabled_opcode opcode \<longleftrightarrow>
     opcode \<in> {OP_CAT, OP_SUBSTR, OP_LEFT, OP_RIGHT, OP_INVERT, OP_AND, OP_OR, OP_XOR, OP_2MUL,
       OP_2DIV, OP_MUL, OP_DIV, OP_MOD, OP_LSHIFT, OP_RSHIFT}"

definition check_stack_size :: "eval_result \<Rightarrow> ScriptError + eval_result" where
  "check_stack_size r =
     (case r of
        ReturnTrue stk \<Rightarrow> Inr r
      | Next st \<Rightarrow>
          if length (stack st) + length (altstack st) > MAX_STACK_SIZE
          then Inl SCRIPT_ERR_STACK_SIZE
          else Inr r)"

definition fExec_of :: "eval_state \<Rightarrow> bool" where
  "fExec_of st \<longleftrightarrow> False \<notin> set (vfExec st)"

definition eval_op ::
  "eval_env \<Rightarrow> opcodetype \<Rightarrow> valtype \<Rightarrow> byte list \<Rightarrow> eval_state \<Rightarrow> ScriptError + eval_result" where
  "eval_op env opcode vchPushValue pc st =
     (let fExec = fExec_of st
      in if length vchPushValue > MAX_SCRIPT_ELEMENT_SIZE then Inl SCRIPT_ERR_PUSH_SIZE
      else
      let st = (if opcode > OP_16 then st\<lparr>nOpCount := nOpCount st + 1\<rparr> else st)
      in if opcode > OP_16 \<and> nOpCount st > MAX_OPS_PER_SCRIPT then Inl SCRIPT_ERR_OP_COUNT
      else if disabled_opcode opcode then Inl SCRIPT_ERR_DISABLED_OPCODE
      else if opcode = OP_CODESEPARATOR \<and> e_sigversion env = BASE \<and>
              has_flag env SCRIPT_VERIFY_CONST_SCRIPTCODE
      then Inl SCRIPT_ERR_OP_CODESEPARATOR
      else
        bindE (if fExec \<and> opcode \<le> OP_PUSHDATA4 then
                 if has_flag env SCRIPT_VERIFY_MINIMALDATA \<and> \<not> CheckMinimalPush vchPushValue opcode
                 then Inl SCRIPT_ERR_MINIMALDATA
                 else Inr (Next (st\<lparr>stack := vchPushValue # stack st\<rparr>))
               else if fExec \<or> (OP_IF \<le> opcode \<and> opcode \<le> OP_ENDIF)
               then exec_op env opcode pc fExec st
               else Inr (Next st))
          check_stack_size)"

function eval_loop ::
  "eval_env \<Rightarrow> byte list \<Rightarrow> eval_state \<Rightarrow> ScriptError + valtype list \<times> ScriptError" where
  "eval_loop env pc st =
     (if pc = [] then
        if vfExec st \<noteq> [] then Inl SCRIPT_ERR_UNBALANCED_CONDITIONAL
        else Inr (stack st, SCRIPT_ERR_OK)
      else case GetScriptOp pc of (ok, opcode, vchPushValue, pc') \<Rightarrow>
        if \<not> ok then Inl SCRIPT_ERR_BAD_OPCODE
        else bindE (eval_op env opcode vchPushValue pc' st) (\<lambda>r.
          case r of
            ReturnTrue stk \<Rightarrow> Inr (stk, SCRIPT_ERR_UNKNOWN_ERROR)
          | Next st' \<Rightarrow> eval_loop env pc' st'))"
  by pat_completeness auto
termination
  by (relation "measure (\<lambda>(_, pc, _). length pc)") (auto dest: GetScriptOp_shorter [OF sym])

declare eval_loop.simps [simp del]

definition EvalScript ::
  "secp256k1 \<Rightarrow> valtype list \<Rightarrow> CScript \<Rightarrow> u32 \<Rightarrow> SignatureChecker \<Rightarrow> SigVersion \<Rightarrow>
   ScriptError + valtype list \<times> ScriptError" where
  "EvalScript ctx stk script flags checker sigversion =
     (if length script > MAX_SCRIPT_SIZE then Inl SCRIPT_ERR_SCRIPT_SIZE
      else
        eval_loop \<lparr>e_ctx = ctx, e_flags = flags, e_checker = checker, e_sigversion = sigversion\<rparr> script
          \<lparr>stack = stk, altstack = [], vfExec = [], nOpCount = 0, pbegincodehash = script\<rparr>)"

end
