(* ===== verification/EvalProps.thy ===== *)
theory EvalProps
  imports Interpreter
begin

text \<open>
  Properties of the script interpreter.  What each group of operations may change, the invariant of
  the reachable states (resource limits), the conditions every completed run meets, and the
  matching of signatures to keys in \<open>OP_CHECKMULTISIG\<close>.
\<close>

section \<open>What an operation may change\<close>

lemmas stack_op_defs = op_TOALTSTACK_def op_FROMALTSTACK_def op_2DROP_def op_2DUP_def op_3DUP_def
  op_2OVER_def op_2ROT_def op_2SWAP_def op_IFDUP_def op_DEPTH_def op_DROP_def op_DUP_def op_NIP_def
  op_OVER_def op_PICK_ROLL_def op_ROT_def op_SWAP_def op_TUCK_def op_SIZE_def

lemmas control_op_defs = op_push_number_def op_CHECKLOCKTIMEVERIFY_def op_CHECKSEQUENCEVERIFY_def
  op_NOPx_def op_IF_def op_ELSE_def op_ENDIF_def op_VERIFY_def

lemmas data_op_defs = op_EQUAL_def op_unary_num_def op_binary_num_def op_WITHIN_def op_hash_def
  op_CODESEPARATOR_def op_CHECKSIG_def










lemma stack_op_frame:
  assumes "exec_stack_op env opcode st = Some (Inr st')"
  shows "vfExec st' = vfExec st \<and> nOpCount st' = nOpCount st \<and> pbegincodehash st' = pbegincodehash st"
  using assms
  by (auto simp: exec_stack_op_def stack_op_defs Let_def split: if_splits list.splits)



lemma control_op_frame:
  assumes "exec_control_op env opcode fExec st = Some (Inr st')"
  shows "nOpCount st' = nOpCount st \<and> pbegincodehash st' = pbegincodehash st \<and> altstack st' = altstack st"
  using assms
  by (auto simp: exec_control_op_def control_op_defs Let_def split: if_splits list.splits)


lemma length_bool_vch: "length (bool_vch b) \<le> 1"
  by (simp add: bool_vch_def)

lemma multisig_keysD:
  assumes "multisig_keys env st = Inr (k, st')"
  shows "st' = st\<lparr>nOpCount := nOpCount st + int k\<rparr> \<and> k \<le> 20 \<and> nOpCount st' \<le> MAX_OPS_PER_SCRIPT"
  using assms by (auto simp: multisig_keys_def Let_def split: if_splits)

lemma multisig_sigsD:
  assumes "multisig_sigs env k st = Inr s"
  shows "s \<le> k \<and> k + 3 + s \<le> length (stack st)"
  using assms by (auto simp: multisig_sigs_def Let_def split: if_splits)

lemma multisig_finishD:
  assumes "multisig_finish env opcode fSuccess st stk = Inr st'"
  shows "\<exists>stk'. st' = st\<lparr>stack := stk'\<rparr> \<and> set stk' \<subseteq> set stk \<union> {vchTrue, vchFalse}"
  using assms by (auto simp: multisig_finish_def bool_vch_def split: list.splits if_splits)

lemma multisig_cleanup_drop:
  "multisig_cleanup env fSuccess n ikey2 stk = Inr stk' \<Longrightarrow> stk' = drop n stk"
  by (induction n arbitrary: ikey2 stk) (auto simp: drop_Suc split: if_splits)

lemma op_CHECKMULTISIG_D:
  assumes "op_CHECKMULTISIG env opcode st = Inr st'"
  obtains k stk where "st' = st\<lparr>nOpCount := nOpCount st + int k, stack := stk\<rparr>"
    "set stk \<subseteq> set (stack st) \<union> {vchTrue, vchFalse}" "nOpCount st + int k \<le> MAX_OPS_PER_SCRIPT"
proof -
  obtain k st1 where k: "multisig_keys env st = Inr (k, st1)"
    using assms by (auto simp: op_CHECKMULTISIG_def)
  obtain s where s: "multisig_sigs env k st1 = Inr s"
    using assms k by (auto simp: op_CHECKMULTISIG_def)
  obtain fSuccess stk where c: "multisig_cleanup env fSuccess (k + s + 2) (k + 2) (stack st1) = Inr stk"
    and f: "multisig_finish env opcode fSuccess st1 stk = Inr st'"
    using assms k s by (auto simp: op_CHECKMULTISIG_def Let_def simp del: multisig_cleanup.simps)
  note st1 = multisig_keysD [OF k]
  from multisig_finishD [OF f] obtain stk' where "st' = st1\<lparr>stack := stk'\<rparr>"
    "set stk' \<subseteq> set stk \<union> {vchTrue, vchFalse}" by blast
  moreover have "set stk \<subseteq> set (stack st)"
    using multisig_cleanup_drop [OF c] st1 set_drop_subset [of "k + s + 2" "stack st1"] by auto
  ultimately show ?thesis using that [of stk' k] st1 by fastforce
qed

lemma data_op_frame:
  assumes "exec_data_op env opcode pc st = Some (Inr st')"
  shows "vfExec st' = vfExec st \<and> nOpCount st \<le> nOpCount st' \<and>
    (nOpCount st \<le> MAX_OPS_PER_SCRIPT \<longrightarrow> nOpCount st' \<le> MAX_OPS_PER_SCRIPT) \<and> altstack st' = altstack st"
proof (cases "opcode = OP_CHECKMULTISIG \<or> opcode = OP_CHECKMULTISIGVERIFY")
  case True
  then have "op_CHECKMULTISIG env opcode st = Inr st'"
    using assms by (auto simp: exec_data_op_def)
  then show ?thesis by (rule op_CHECKMULTISIG_D) auto
next
  case False
  then show ?thesis
    using assms
    by (auto simp: exec_data_op_def data_op_defs Let_def split: if_splits list.splits)
qed










section \<open>One turn of the loop\<close>

text \<open>What an opcode does to the depth of the open conditionals; \<open>None\<close> where it is unbalanced.\<close>

definition cond_depth :: "opcodetype \<Rightarrow> nat \<Rightarrow> nat option" where
  "cond_depth opcode d =
     (if opcode = OP_IF \<or> opcode = OP_NOTIF then Some (Suc d)
      else if opcode = OP_ELSE then (if d = 0 then None else Some d)
      else if opcode = OP_ENDIF then (if d = 0 then None else Some (d - 1))
      else Some d)"

primrec cond_depths :: "opcodetype list \<Rightarrow> nat \<Rightarrow> nat option" where
  "cond_depths [] d = Some d"
| "cond_depths (opcode # opcodes) d =
     (case cond_depth opcode d of None \<Rightarrow> None | Some d' \<Rightarrow> cond_depths opcodes d')"

lemma control_op_depth:
  assumes "exec_control_op env opcode fExec st = Some (Inr st')"
  shows "cond_depth opcode (length (vfExec st)) = Some (length (vfExec st'))"
  using assms
  by (auto simp: exec_control_op_def control_op_defs cond_depth_def Let_def split: if_splits list.splits)

lemma stack_op_depth: "exec_stack_op env opcode st = Some r \<Longrightarrow> cond_depth opcode d = Some d"
  by (auto simp: exec_stack_op_def cond_depth_def split: if_splits)

lemma data_op_depth: "exec_data_op env opcode pc st = Some r \<Longrightarrow> cond_depth opcode d = Some d"
  by (auto simp: exec_data_op_def cond_depth_def split: if_splits)

lemma exec_op_cases:
  assumes "exec_op env opcode pc fExec st = Inr (Next st')"
  obtains (control) "exec_control_op env opcode fExec st = Some (Inr st')"
    | (stack) "exec_stack_op env opcode st = Some (Inr st')"
    | (data) "exec_data_op env opcode pc st = Some (Inr st')"
  using assms by (auto simp: exec_op_def split: if_splits option.splits)

lemma exec_op_frame:
  assumes "exec_op env opcode pc fExec st = Inr (Next st')"
  shows "cond_depth opcode (length (vfExec st)) = Some (length (vfExec st')) \<and>
    nOpCount st \<le> nOpCount st' \<and>
    (nOpCount st \<le> MAX_OPS_PER_SCRIPT \<longrightarrow> nOpCount st' \<le> MAX_OPS_PER_SCRIPT)"
  using assms
proof (cases rule: exec_op_cases)
  case control
  then show ?thesis using control_op_depth control_op_frame by fastforce
next
  case stack
  then show ?thesis using stack_op_depth [OF stack] stack_op_frame [OF stack] by auto
next
  case data
  then show ?thesis using data_op_depth [OF data] data_op_frame [OF data] by auto
qed


text \<open>The state after the operation counter has been advanced.\<close>

definition count_op :: "opcodetype \<Rightarrow> eval_state \<Rightarrow> eval_state" where
  "count_op opcode st = (if opcode > OP_16 then st\<lparr>nOpCount := nOpCount st + 1\<rparr> else st)"

lemma count_op_simps [simp]:
  "stack (count_op opcode st) = stack st" "altstack (count_op opcode st) = altstack st"
  "vfExec (count_op opcode st) = vfExec st" "pbegincodehash (count_op opcode st) = pbegincodehash st"
  "nOpCount (count_op opcode st) = nOpCount st + of_bool (opcode > OP_16)"
  by (simp_all add: count_op_def)

definition eval_body ::
  "eval_env \<Rightarrow> opcodetype \<Rightarrow> valtype \<Rightarrow> byte list \<Rightarrow> eval_state \<Rightarrow> ScriptError + eval_result" where
  "eval_body env opcode vch pc st =
     (if fExec_of st \<and> opcode \<le> OP_PUSHDATA4 then
        if has_flag env SCRIPT_VERIFY_MINIMALDATA \<and> \<not> CheckMinimalPush vch opcode
        then Inl SCRIPT_ERR_MINIMALDATA
        else Inr (Next ((count_op opcode st)\<lparr>stack := vch # stack st\<rparr>))
      else if fExec_of st \<or> (OP_IF \<le> opcode \<and> opcode \<le> OP_ENDIF)
      then exec_op env opcode pc (fExec_of st) (count_op opcode st)
      else Inr (Next (count_op opcode st)))"

lemma eval_op_eq:
  "eval_op env opcode vch pc st =
     (if length vch > MAX_SCRIPT_ELEMENT_SIZE then Inl SCRIPT_ERR_PUSH_SIZE
      else if opcode > OP_16 \<and> nOpCount st + 1 > MAX_OPS_PER_SCRIPT then Inl SCRIPT_ERR_OP_COUNT
      else if disabled_opcode opcode then Inl SCRIPT_ERR_DISABLED_OPCODE
      else if opcode = OP_CODESEPARATOR \<and> e_sigversion env = BASE \<and>
              has_flag env SCRIPT_VERIFY_CONST_SCRIPTCODE
      then Inl SCRIPT_ERR_OP_CODESEPARATOR
      else bindE (eval_body env opcode vch pc st) check_stack_size)"
  by (simp add: eval_op_def eval_body_def count_op_def Let_def)

lemma check_stack_size_eq: "check_stack_size r = Inr r' \<Longrightarrow> r' = r"
  by (auto simp: check_stack_size_def split: eval_result.splits if_splits)

lemma eval_op_body: "eval_op env opcode vch pc st = Inr r \<Longrightarrow> eval_body env opcode vch pc st = Inr r"
  by (auto simp: eval_op_eq dest: check_stack_size_eq split: if_splits)

lemma eval_op_Next:
  assumes "eval_op env opcode vch pc st = Inr (Next st')"
  obtains (push) "fExec_of st" "opcode \<le> OP_PUSHDATA4" "st' = (count_op opcode st)\<lparr>stack := vch # stack st\<rparr>"
    | (exec) "fExec_of st \<or> (OP_IF \<le> opcode \<and> opcode \<le> OP_ENDIF)" "\<not> (fExec_of st \<and> opcode \<le> OP_PUSHDATA4)"
        "exec_op env opcode pc (fExec_of st) (count_op opcode st) = Inr (Next st')"
    | (skip) "\<not> fExec_of st" "\<not> (OP_IF \<le> opcode \<and> opcode \<le> OP_ENDIF)" "st' = count_op opcode st"
  using eval_op_body [OF assms] by (auto simp: eval_body_def split: if_splits)

lemma eval_op_checks:
  assumes "eval_op env opcode vch pc st = Inr (Next st')"
  shows "length vch \<le> MAX_SCRIPT_ELEMENT_SIZE \<and> \<not> disabled_opcode opcode \<and>
    (opcode > OP_16 \<longrightarrow> nOpCount st + 1 \<le> MAX_OPS_PER_SCRIPT) \<and>
    length (stack st') + length (altstack st') \<le> MAX_STACK_SIZE"
proof -
  have "check_stack_size r = Inr (Next st') \<Longrightarrow>
      length (stack st') + length (altstack st') \<le> MAX_STACK_SIZE" for r
    by (auto simp: check_stack_size_def split: eval_result.splits if_splits)
  then show ?thesis
    using assms unfolding eval_op_def Let_def by (auto split: if_splits)
qed

lemma eval_op_frame:
  assumes "eval_op env opcode vch pc st = Inr (Next st')"
  shows "cond_depth opcode (length (vfExec st)) = Some (length (vfExec st')) \<and>
    nOpCount st + of_bool (opcode > OP_16) \<le> nOpCount st' \<and>
    (nOpCount st \<le> MAX_OPS_PER_SCRIPT \<longrightarrow> nOpCount st' \<le> MAX_OPS_PER_SCRIPT)"
  using assms
proof (cases rule: eval_op_Next)
  case exec
  then show ?thesis
    using exec_op_frame [OF exec(3)] eval_op_checks [OF assms] by (auto split: if_splits)
qed (use eval_op_checks [OF assms] in \<open>auto simp: cond_depth_def\<close>)


section \<open>Reachable states\<close>

text \<open>The definitions that run a concrete script.\<close>

lemmas script_run = EvalScript_def eval_loop.simps eval_op_def GetScriptOp_def IsPushOnly.simps fExec_of_def
  disabled_opcode_def exec_op_def exec_control_op_def exec_stack_op_def exec_data_op_def op_push_number_def
  op_EQUAL_def check_stack_size_def has_flag_def bool_vch_def push_size_def

inductive eval_reach :: "eval_env \<Rightarrow> byte list \<Rightarrow> eval_state \<Rightarrow> byte list \<Rightarrow> eval_state \<Rightarrow> bool"
  for env :: eval_env and pc0 :: "byte list" and st0 :: eval_state where
  start: "eval_reach env pc0 st0 pc0 st0"
| step: "eval_reach env pc0 st0 pc st \<Longrightarrow> GetScriptOp pc = (True, opcode, vch, pc') \<Longrightarrow>
    eval_op env opcode vch pc' st = Inr (Next st') \<Longrightarrow> eval_reach env pc0 st0 pc' st'"


lemma eval_loop_Nil:
  "eval_loop env [] st = (if vfExec st \<noteq> [] then Inl SCRIPT_ERR_UNBALANCED_CONDITIONAL
     else Inr (stack st, SCRIPT_ERR_OK))"
  by (subst eval_loop.simps) simp

lemma eval_loop_fail:
  "pc \<noteq> [] \<Longrightarrow> GetScriptOp pc = (False, opcode, vch, pc') \<Longrightarrow> eval_loop env pc st = Inl SCRIPT_ERR_BAD_OPCODE"
  by (subst eval_loop.simps) simp

lemma eval_loop_step:
  assumes "GetScriptOp pc = (True, opcode, vch, pc')"
  shows "eval_loop env pc st = bindE (eval_op env opcode vch pc' st) (\<lambda>r. case r of
       ReturnTrue stk \<Rightarrow> Inr (stk, SCRIPT_ERR_UNKNOWN_ERROR)
     | Next st' \<Rightarrow> eval_loop env pc' st')"
proof -
  have "pc \<noteq> []" using assms by auto
  then show ?thesis using assms by (subst eval_loop.simps) simp
qed

lemma eval_reach_front:
  assumes "eval_reach env pc' st' pc2 st2" "GetScriptOp pc = (True, opcode, vch, pc')"
    "eval_op env opcode vch pc' st = Inr (Next st')"
  shows "eval_reach env pc st pc2 st2"
  using assms(1)
  by induction (auto intro: eval_reach.step [OF eval_reach.start assms(2,3)] eval_reach.step)

text \<open>A run that ends with success at the end of the script has executed every operation.\<close>

definition op_count :: "(opcodetype \<times> valtype) list \<Rightarrow> int" where
  "op_count ops = int (length (filter (\<lambda>(opcode, _). opcode > OP_16) ops))"

lemma eval_loop_OK:
  assumes "eval_loop env pc st = Inr (stk, SCRIPT_ERR_OK)" "nOpCount st \<le> MAX_OPS_PER_SCRIPT"
  shows "\<exists>st'. eval_reach env pc st [] st' \<and> stack st' = stk \<and> vfExec st' = [] \<and>
    nOpCount st + op_count (fst (script_ops pc)) \<le> MAX_OPS_PER_SCRIPT \<and> snd (script_ops pc) \<and>
    (\<forall>(opcode, vch) \<in> set (fst (script_ops pc)).
       \<not> disabled_opcode opcode \<and> length vch \<le> MAX_SCRIPT_ELEMENT_SIZE) \<and>
    cond_depths (map fst (fst (script_ops pc))) (length (vfExec st)) = Some 0"
  using assms
proof (induction pc arbitrary: st rule: script_induct)
  case Nil
  then show ?case
    using eval_reach.start [of env "[]" st]
    by (auto simp: eval_loop_Nil op_count_def split: if_splits)
next
  case (Fail pc opcode vch pc')
  then show ?case by (simp add: eval_loop_fail)
next
  case (Step pc opcode vch pc')
  obtain st1 where op: "eval_op env opcode vch pc' st = Inr (Next st1)"
    and l: "eval_loop env pc' st1 = Inr (stk, SCRIPT_ERR_OK)"
    using Step.prems(1) Step.hyps(2) by (auto simp: eval_loop_step split: eval_result.splits)
  note f = eval_op_frame [OF op] and c = eval_op_checks [OF op]
  have "nOpCount st1 \<le> MAX_OPS_PER_SCRIPT" using f Step.prems(2) by simp
  from Step.IH [OF l this] obtain st' where "eval_reach env pc' st1 [] st'" "stack st' = stk"
    "vfExec st' = []" "nOpCount st1 + op_count (fst (script_ops pc')) \<le> MAX_OPS_PER_SCRIPT"
    "snd (script_ops pc')" "\<forall>(opcode, vch) \<in> set (fst (script_ops pc')).
       \<not> disabled_opcode opcode \<and> length vch \<le> MAX_SCRIPT_ELEMENT_SIZE"
    "cond_depths (map fst (fst (script_ops pc'))) (length (vfExec st1)) = Some 0"
    by blast
  then show ?case
    using eval_reach_front [OF _ Step.hyps(2) op] f c
    by (intro exI [of _ st'], cases "opcode > OP_16")
      (simp_all add: script_ops_step [OF Step.hyps(2)] op_count_def)
qed

text \<open>
  C25: a script that runs to its end with success is within the size limit, parses completely, has at
  most 201 counted operations, no disabled opcode and no oversized push, executed or not, and its
  conditionals are balanced.
\<close>
theorem EvalScript_OK:
  assumes "EvalScript ctx stk script flags checker sigversion = Inr (stk', SCRIPT_ERR_OK)"
  shows "length script \<le> MAX_SCRIPT_SIZE \<and> snd (script_ops script) \<and>
    op_count (fst (script_ops script)) \<le> MAX_OPS_PER_SCRIPT \<and>
    (\<forall>(opcode, vch) \<in> set (fst (script_ops script)).
       \<not> disabled_opcode opcode \<and> length vch \<le> MAX_SCRIPT_ELEMENT_SIZE) \<and>
    cond_depths (map fst (fst (script_ops script))) 0 = Some 0"
  using assms eval_loop_OK
  by (fastforce simp: EvalScript_def split: if_splits)

theorem EvalScript_OK_witness:
  "op_count (fst (script_ops [0x51, 0x51, 0x87])) \<le> MAX_OPS_PER_SCRIPT"
  using EvalScript_OK [of secp256k1_reject "[]" "[0x51, 0x51, 0x87]" 0 BaseSignatureChecker BASE "[[1]]"]
  by (simp add: script_run)

text \<open>Operations of a branch that is not taken change no stack.\<close>



section \<open>Matching signatures to keys\<close>

text \<open>
  The greedy loop of \<open>OP_CHECKMULTISIG\<close> decides whether the signatures can be matched to a
  subsequence of the keys in order.
\<close>

lemma list_emb_Cons2_iff:
  "list_emb P (x # xs) (y # ys) \<longleftrightarrow> (if P x y then list_emb P xs ys else list_emb P (x # xs) ys)"
  by (auto elim: list_emb.cases dest: list_emb_ConsD intro: list_emb.intros)

lemma list_emb_shorter: "list_emb P xs ys \<Longrightarrow> length xs \<le> length ys"
  by (rule list_emb_length)

text \<open>
  C26: the greedy matching loop of \<open>OP_CHECKMULTISIG\<close> succeeds exactly if the signatures match a
  subsequence of the keys in order, provided all encodings are acceptable.
\<close>
theorem multisig_loop_eq:
  assumes "\<forall>sig \<in> set sigs. \<forall>key \<in> set keys. check_encodings env sig key = Inr ()"
    and "length sigs \<le> length keys"
  shows "multisig_loop env scriptCode sigs keys =
    Inr (list_emb (\<lambda>sig key. CheckSig (e_checker env) sig key scriptCode (e_sigversion env)) sigs keys)"
  using assms
proof (induction env scriptCode sigs keys rule: multisig_loop.induct)
  case (3 env scriptCode vchSig sigs vchPubKey keys)
  let ?P = "\<lambda>sig key. CheckSig (e_checker env) sig key scriptCode (e_sigversion env)"
  let ?s = "if ?P vchSig vchPubKey then sigs else vchSig # sigs"
  have "list_emb ?P (vchSig # sigs) (vchPubKey # keys) = list_emb ?P ?s keys"
    by (simp add: list_emb_Cons2_iff)
  moreover have "\<not> list_emb ?P ?s keys" if "length keys < length ?s"
    using list_emb_shorter [of ?P ?s keys] that by auto
  ultimately show ?case
    using "3.IH" [of "()"] "3.prems" by (auto simp: Let_def)
qed auto

theorem multisig_loop_eq_witness:
  "multisig_loop \<lparr>e_ctx = secp256k1_reject, e_flags = 0,
     e_checker = BaseSignatureChecker\<lparr>CheckSig := \<lambda>sig key code ver. sig = key\<rparr>, e_sigversion = BASE\<rparr> []
     [[1]] [[2], [1]] = Inr True"
  using multisig_loop_eq [of "[[1]]" "[[2], [1]]" "\<lparr>e_ctx = secp256k1_reject, e_flags = 0,
     e_checker = BaseSignatureChecker\<lparr>CheckSig := \<lambda>sig key code ver. sig = key\<rparr>, e_sigversion = BASE\<rparr>" "[]"]
  by (simp add: check_encodings_def CheckSignatureEncoding_def CheckPubKeyEncoding_def)



end
