(* ===== verification/Transaction.thy ===== *)
theory Transaction
  imports Script Hashes "HOL-Library.List_Lexorder"
begin

text \<open>
  Transactions (\<open>src/src/primitives/transaction.h\<close>, \<open>src/src/primitives/transaction.cpp\<close>,
  \<open>src/src/amount.h\<close>): outpoints, inputs, outputs, transactions, both serialisation formats, the
  identifiers, and the classification of transactions.

  A \<open>uint256\<close> is its 32 bytes.  Amounts are \<open>int\<close>; the serialiser casts them to 64 bits.
  \<open>nVersion\<close> is kept as its 32-bit pattern, which is how every reader of it uses it
  (\<open>static_cast<uint32_t>\<close>).  \<open>CMutableTransaction\<close> has the same fields as \<open>CTransaction\<close>, and the
  cached hashes of the latter are functions of them.
\<close>

section \<open>Data\<close>

type_synonym uint256 = "byte list"

definition uint256_null :: uint256 where
  "uint256_null = replicate 32 0"

datatype COutPoint = COutPoint (o_hash: uint256) (o_n: u32)

definition COutPoint_null :: COutPoint where
  "COutPoint_null = COutPoint uint256_null (- 1)"

definition COutPoint_IsNull :: "COutPoint \<Rightarrow> bool" where
  "COutPoint_IsNull p \<longleftrightarrow> o_hash p = uint256_null \<and> o_n p = - 1"

text \<open>\<open>operator<\<close> of outpoints; it orders the sets and maps that have them as keys.\<close>

definition COutPoint_less :: "COutPoint \<Rightarrow> COutPoint \<Rightarrow> bool" where
  "COutPoint_less a b \<longleftrightarrow> o_hash a < o_hash b \<or> (o_hash a = o_hash b \<and> o_n a < o_n b)"

instantiation COutPoint :: linorder
begin

definition less_COutPoint :: "COutPoint \<Rightarrow> COutPoint \<Rightarrow> bool" where
  "less_COutPoint a b \<longleftrightarrow> COutPoint_less a b"

definition less_eq_COutPoint :: "COutPoint \<Rightarrow> COutPoint \<Rightarrow> bool" where
  "less_eq_COutPoint a b \<longleftrightarrow> COutPoint_less a b \<or> a = b"

instance
  by standard
    (auto simp: less_COutPoint_def less_eq_COutPoint_def COutPoint_less_def
      intro: COutPoint.expand dest: COutPoint.expand)

end

record CTxIn =
  prevout :: COutPoint
  scriptSig :: CScript
  nSequence :: u32
  scriptWitness :: "valtype list"

record CTxOut =
  nValue :: int
  scriptPubKey :: CScript

record CTransaction =
  vin :: "CTxIn list"
  vout :: "CTxOut list"
  nVersion :: u32
  nLockTime :: u32

abbreviation (input) SEQUENCE_FINAL :: u32 where "SEQUENCE_FINAL \<equiv> 0xffffffff"

definition CTxOut_null :: CTxOut where
  "CTxOut_null = \<lparr>nValue = - 1, scriptPubKey = []\<rparr>"

definition CTxOut_IsNull :: "CTxOut \<Rightarrow> bool" where
  "CTxOut_IsNull out \<longleftrightarrow> nValue out = - 1"

definition CTxOut_IsEmpty :: "CTxOut \<Rightarrow> bool" where
  "CTxOut_IsEmpty out \<longleftrightarrow> nValue out = 0 \<and> scriptPubKey out = []"

abbreviation (input) COIN :: int where "COIN \<equiv> 100000000"
abbreviation (input) CENT :: int where "CENT \<equiv> 1000000"

definition MAX_MONEY :: int where
  "MAX_MONEY = 21000000 * COIN + 25 * CENT"

definition MoneyRange :: "int \<Rightarrow> bool" where
  "MoneyRange val \<longleftrightarrow> val \<ge> 0 \<and> val \<le> MAX_MONEY"

section \<open>Classification\<close>

definition IsCoinBase :: "CTransaction \<Rightarrow> bool" where
  "IsCoinBase tx \<longleftrightarrow>
     length (vin tx) = 1 \<and> COutPoint_IsNull (prevout (vin tx ! 0)) \<and> length (vout tx) \<ge> 1"

definition IsCoinStake :: "CTransaction \<Rightarrow> bool" where
  "IsCoinStake tx \<longleftrightarrow>
     length (vin tx) > 0 \<and> \<not> COutPoint_IsNull (prevout (vin tx ! 0)) \<and> length (vout tx) \<ge> 2 \<and>
     CTxOut_IsEmpty (vout tx ! 0)"

definition IsNormalTx :: "CTransaction \<Rightarrow> bool" where
  "IsNormalTx tx \<longleftrightarrow> \<not> IsCoinBase tx \<and> \<not> IsCoinStake tx"

definition HasWitness :: "CTransaction \<Rightarrow> bool" where
  "HasWitness tx \<longleftrightarrow> list_ex (\<lambda>txin. scriptWitness txin \<noteq> []) (vin tx)"

definition tx_HasCreateOrCall :: "CTransaction \<Rightarrow> bool" where
  "tx_HasCreateOrCall tx \<longleftrightarrow>
     list_ex (\<lambda>v. HasOpCreate (scriptPubKey v) \<or> HasOpCall (scriptPubKey v)) (vout tx)"

definition tx_HasOpSpend :: "CTransaction \<Rightarrow> bool" where
  "tx_HasOpSpend tx \<longleftrightarrow> list_ex (\<lambda>i. HasOpSpend (scriptSig i)) (vin tx)"

definition tx_HasOpCreate :: "CTransaction \<Rightarrow> bool" where
  "tx_HasOpCreate tx \<longleftrightarrow> list_ex (\<lambda>v. HasOpCreate (scriptPubKey v)) (vout tx)"

definition tx_HasOpCall :: "CTransaction \<Rightarrow> bool" where
  "tx_HasOpCall tx \<longleftrightarrow> list_ex (\<lambda>v. HasOpCall (scriptPubKey v)) (vout tx)"

definition GetCreateOrCall :: "CTransaction \<Rightarrow> int" where
  "GetCreateOrCall tx = (if tx_HasOpCall tx then 1 else 0) + (if tx_HasOpCreate tx then 2 else 0)"

text \<open>\<open>None\<close> is the exception "value out of range".\<close>

primrec GetValueOut_loop :: "int \<Rightarrow> CTxOut list \<Rightarrow> int option" where
  "GetValueOut_loop nValueOut [] = Some nValueOut"
| "GetValueOut_loop nValueOut (tx_out # outs) =
     (if \<not> MoneyRange (nValue tx_out) \<or> \<not> MoneyRange (nValueOut + nValue tx_out) then None
      else GetValueOut_loop (nValueOut + nValue tx_out) outs)"

definition GetValueOut :: "CTransaction \<Rightarrow> int option" where
  "GetValueOut tx = GetValueOut_loop 0 (vout tx)"

section \<open>Serialisation\<close>

definition ser_int64 :: "int \<Rightarrow> byte list" where
  "ser_int64 n = ser_writedata64 (of_int n)"

definition unser_int64 :: "int reader" where
  "unser_int64 s = bindE (ser_readdata64 s) (\<lambda>(w, s). Inr (sint w, s))"

definition Serialize_COutPoint :: "COutPoint \<Rightarrow> byte list" where
  "Serialize_COutPoint p = o_hash p @ ser_writedata32 (o_n p)"

definition Unserialize_COutPoint :: "COutPoint reader" where
  "Unserialize_COutPoint s =
     bindE (stream_read 32 s) (\<lambda>(h, s). bindE (ser_readdata32 s) (\<lambda>(n, s). Inr (COutPoint h n, s)))"

definition Serialize_CTxIn :: "CTxIn \<Rightarrow> byte list" where
  "Serialize_CTxIn i =
     Serialize_COutPoint (prevout i) @ Serialize_bytes (scriptSig i) @ ser_writedata32 (nSequence i)"

definition Unserialize_CTxIn :: "CTxIn reader" where
  "Unserialize_CTxIn s =
     bindE (Unserialize_COutPoint s) (\<lambda>(p, s).
     bindE (Unserialize_bytes s) (\<lambda>(sig, s).
     bindE (ser_readdata32 s) (\<lambda>(q, s).
       Inr (\<lparr>prevout = p, scriptSig = sig, nSequence = q, scriptWitness = []\<rparr>, s))))"

definition Serialize_CTxOut :: "CTxOut \<Rightarrow> byte list" where
  "Serialize_CTxOut out = ser_int64 (nValue out) @ Serialize_bytes (scriptPubKey out)"

definition Unserialize_CTxOut :: "CTxOut reader" where
  "Unserialize_CTxOut s =
     bindE (unser_int64 s) (\<lambda>(v, s).
     bindE (Unserialize_bytes s) (\<lambda>(pk, s). Inr (\<lparr>nValue = v, scriptPubKey = pk\<rparr>, s)))"

definition SerializeTransaction :: "bool \<Rightarrow> CTransaction \<Rightarrow> byte list" where
  "SerializeTransaction fAllowWitness tx =
     (let flags = (if fAllowWitness \<and> HasWitness tx then 1 else 0 :: byte)
      in ser_writedata32 (nVersion tx) @
         (if flags \<noteq> 0 then Serialize_vector Serialize_CTxIn [] @ ser_writedata8 flags else []) @
         Serialize_vector Serialize_CTxIn (vin tx) @
         Serialize_vector Serialize_CTxOut (vout tx) @
         (if flags AND 1 \<noteq> 0
          then concat (map (\<lambda>i. Serialize_vector Serialize_bytes (scriptWitness i)) (vin tx)) else []) @
         ser_writedata32 (nLockTime tx))"

text \<open>Reading the witness stacks of the inputs, in order, into the inputs.\<close>

primrec read_witnesses :: "CTxIn list \<Rightarrow> CTxIn list reader" where
  "read_witnesses [] s = Inr ([], s)"
| "read_witnesses (i # is) s =
     bindE (Unserialize_vector Unserialize_bytes s) (\<lambda>(w, s).
     bindE (read_witnesses is s) (\<lambda>(is', s). Inr (i\<lparr>scriptWitness := w\<rparr> # is', s)))"

definition read_vin_vout :: "bool \<Rightarrow> (byte \<times> CTxIn list \<times> CTxOut list) reader" where
  "read_vin_vout fAllowWitness s =
     bindE (Unserialize_vector Unserialize_CTxIn s) (\<lambda>(ins, s).
       if ins = [] \<and> fAllowWitness then
         bindE (ser_readdata8 s) (\<lambda>(flags, s).
           if flags \<noteq> 0 then
             bindE (Unserialize_vector Unserialize_CTxIn s) (\<lambda>(ins, s).
             bindE (Unserialize_vector Unserialize_CTxOut s) (\<lambda>(outs, s).
               Inr ((flags, ins, outs), s)))
           else Inr ((flags, [], []), s))
       else
         bindE (Unserialize_vector Unserialize_CTxOut s) (\<lambda>(outs, s). Inr ((0, ins, outs), s)))"

definition UnserializeTransaction :: "bool \<Rightarrow> CTransaction reader" where
  "UnserializeTransaction fAllowWitness s =
     bindE (ser_readdata32 s) (\<lambda>(ver, s).
     bindE (read_vin_vout fAllowWitness s) (\<lambda>((flags, ins, outs), s).
     bindE (if flags AND 1 \<noteq> 0 \<and> fAllowWitness
            then bindE (read_witnesses ins s) (\<lambda>(ins, s). Inr ((flags XOR 1, ins), s))
            else Inr ((flags, ins), s)) (\<lambda>((flags, ins), s).
       if flags \<noteq> 0 then Inl UnknownTxOptionalData
       else bindE (ser_readdata32 s) (\<lambda>(lt, s).
         Inr (\<lparr>vin = ins, vout = outs, nVersion = ver, nLockTime = lt\<rparr>, s)))))"

definition SerializeHash :: "byte list \<Rightarrow> uint256" where
  "SerializeHash ser = CHashWriter_GetHash [ser]"

definition ComputeHash :: "CTransaction \<Rightarrow> uint256" where
  "ComputeHash tx = SerializeHash (SerializeTransaction False tx)"

definition ComputeWitnessHash :: "CTransaction \<Rightarrow> uint256" where
  "ComputeWitnessHash tx =
     (if \<not> HasWitness tx then ComputeHash tx else SerializeHash (SerializeTransaction True tx))"

definition GetTotalSize :: "CTransaction \<Rightarrow> nat" where
  "GetTotalSize tx = length (SerializeTransaction True tx)"

section \<open>The serialisers meet the codec contract\<close>

definition int64_ok :: "int \<Rightarrow> bool" where
  "int64_ok n \<longleftrightarrow> - (2 ^ 63) \<le> n \<and> n < 2 ^ 63"

lemma int64_roundtrip: "int64_ok n \<Longrightarrow> sint (of_int n :: u64) = n"
  by (simp add: int64_ok_def sint_sbintrunc' signed_take_bit_int_eq_self)

lemma sint_int64_ok: "int64_ok (sint (w :: u64))"
  using sint_ge [of w] sint_less [of w] by (simp add: int64_ok_def)

interpretation i64: canonical_codec ser_int64 unser_int64 int64_ok
proof unfold_locales
  show "unser_int64 (ser_int64 x @ r) = Inr (x, r)" if "int64_ok x" for x r
    using that by (simp add: ser_int64_def unser_int64_def u64.unser_ser int64_roundtrip)
  show "int64_ok x \<and> s = ser_int64 x @ r" if A: "unser_int64 s = Inr (x, r)" for s x r
  proof -
    obtain w where "ser_readdata64 s = Inr (w, r)" "x = sint w"
      using A by (auto simp: unser_int64_def)
    then show ?thesis
      using u64.ser_unser [of s w r] by (auto simp: ser_int64_def sint_int64_ok)
  qed
qed

definition outpoint_ok :: "COutPoint \<Rightarrow> bool" where
  "outpoint_ok p \<longleftrightarrow> length (o_hash p) = 32"

interpretation outpoint: canonical_codec Serialize_COutPoint Unserialize_COutPoint outpoint_ok
proof unfold_locales
  show "Unserialize_COutPoint (Serialize_COutPoint p @ r) = Inr (p, r)" if "outpoint_ok p" for p r
    using that by (simp add: Unserialize_COutPoint_def Serialize_COutPoint_def outpoint_ok_def
        stream_read_def u32.unser_ser)
  show "outpoint_ok p \<and> s = Serialize_COutPoint p @ r" if "Unserialize_COutPoint s = Inr (p, r)" for s p r
    using that
    by (auto simp: Unserialize_COutPoint_def Serialize_COutPoint_def outpoint_ok_def stream_read_Inr_iff
        dest: u32.ser_unser)
qed

definition strip_in :: "CTxIn \<Rightarrow> CTxIn" where
  "strip_in i = i\<lparr>scriptWitness := []\<rparr>"

definition txin_ok :: "CTxIn \<Rightarrow> bool" where
  "txin_ok i \<longleftrightarrow> outpoint_ok (prevout i) \<and> bytes_ok (scriptSig i) \<and> scriptWitness i = []"

interpretation txin: canonical_codec Serialize_CTxIn Unserialize_CTxIn txin_ok
proof unfold_locales
  show "Unserialize_CTxIn (Serialize_CTxIn i @ r) = Inr (i, r)" if "txin_ok i" for i r
    using that
    by (simp add: Unserialize_CTxIn_def Serialize_CTxIn_def txin_ok_def outpoint.unser_ser
        bytes.unser_ser u32.unser_ser)
  show "txin_ok i \<and> s = Serialize_CTxIn i @ r" if "Unserialize_CTxIn s = Inr (i, r)" for s i r
    using that
    by (auto simp: Unserialize_CTxIn_def Serialize_CTxIn_def txin_ok_def
        dest!: outpoint.ser_unser bytes.ser_unser u32.ser_unser)
qed

definition txout_ok :: "CTxOut \<Rightarrow> bool" where
  "txout_ok out \<longleftrightarrow> int64_ok (nValue out) \<and> bytes_ok (scriptPubKey out)"

interpretation txout: canonical_codec Serialize_CTxOut Unserialize_CTxOut txout_ok
proof unfold_locales
  show "Unserialize_CTxOut (Serialize_CTxOut out @ r) = Inr (out, r)" if "txout_ok out" for out r
    using that
    by (simp add: Unserialize_CTxOut_def Serialize_CTxOut_def txout_ok_def i64.unser_ser bytes.unser_ser)
  show "txout_ok out \<and> s = Serialize_CTxOut out @ r" if "Unserialize_CTxOut s = Inr (out, r)" for s out r
    using that
    by (auto simp: Unserialize_CTxOut_def Serialize_CTxOut_def txout_ok_def
        dest!: i64.ser_unser bytes.ser_unser)
qed

section \<open>The transaction formats\<close>

definition strip_witness :: "CTransaction \<Rightarrow> CTransaction" where
  "strip_witness tx = tx\<lparr>vin := map strip_in (vin tx)\<rparr>"

definition tx_ok :: "CTransaction \<Rightarrow> bool" where
  "tx_ok tx \<longleftrightarrow>
     vector_ok txin_ok (map strip_in (vin tx)) \<and> vector_ok txout_ok (vout tx) \<and>
     list_all (\<lambda>i. vector_ok bytes_ok (scriptWitness i)) (vin tx)"

lemma Serialize_CTxIn_strip [simp]: "Serialize_CTxIn (strip_in i) = Serialize_CTxIn i"
  by (simp add: Serialize_CTxIn_def strip_in_def)

lemma Serialize_vector_strip:
  "Serialize_vector Serialize_CTxIn (map strip_in ins) = Serialize_vector Serialize_CTxIn ins"
  by (simp add: Serialize_vector_def comp_def)

lemma read_vin:
  "vector_ok txin_ok (map strip_in ins) \<Longrightarrow>
     Unserialize_vector Unserialize_CTxIn (Serialize_vector Serialize_CTxIn ins @ r) = Inr (map strip_in ins, r)"
  using txin.vector_roundtrip [of "map strip_in ins" r] by (simp add: Serialize_vector_strip)

lemma read_vin_Nil:
  "Unserialize_vector Unserialize_CTxIn (Serialize_vector Serialize_CTxIn [] @ r) = Inr ([], r)"
  using read_vin [of "[]"] by (simp add: vector_ok_def)

lemma read_witnesses_ser:
  "list_all (\<lambda>i. vector_ok bytes_ok (scriptWitness i)) ins \<Longrightarrow>
     read_witnesses (map strip_in ins)
       (concat (map (\<lambda>i. Serialize_vector Serialize_bytes (scriptWitness i)) ins) @ r) = Inr (ins, r)"
  by (induction ins) (auto simp: byte_vectors.unser_ser strip_in_def)

lemma no_witness_strip: "\<not> HasWitness tx \<Longrightarrow> map strip_in (vin tx) = vin tx"
  by (auto simp: HasWitness_def list_ex_iff strip_in_def intro: map_idI)

lemma tx_roundtrip_basic:
  assumes "tx_ok tx"
  shows "UnserializeTransaction False (SerializeTransaction False tx @ r) = Inr (strip_witness tx, r)"
  using assms
  by (auto simp: UnserializeTransaction_def SerializeTransaction_def read_vin_vout_def Let_def tx_ok_def
      u32.unser_ser read_vin txout.vector_roundtrip strip_witness_def)

lemma Serialize_vector_Nil: "Serialize_vector ser [] = [0]"
  by (simp add: Serialize_vector_def WriteCompactSize_def ser_writedata8_def)

lemma tx_roundtrip_ext:
  assumes "tx_ok tx" "vin tx \<noteq> [] \<or> vout tx = []"
  shows "UnserializeTransaction True (SerializeTransaction True tx @ r) = Inr (tx, r)"
proof (cases "HasWitness tx")
  case True
  then show ?thesis
    using assms
    by (auto simp: UnserializeTransaction_def SerializeTransaction_def read_vin_vout_def Let_def tx_ok_def
        u32.unser_ser u8.unser_ser read_vin read_vin_Nil txout.vector_roundtrip read_witnesses_ser)
next
  case False
  show ?thesis
  proof (cases "vin tx = []")
    case True
    then have "vout tx = []" using assms(2) by simp
    then show ?thesis
      using True \<open>\<not> HasWitness tx\<close> read_vin_Nil
      by (auto simp: UnserializeTransaction_def SerializeTransaction_def read_vin_vout_def Let_def
          u32.unser_ser Serialize_vector_Nil [of Serialize_CTxOut] ser_readdata8_def stream_read_def)
  next
    case nonempty: False
    then have "map strip_in (vin tx) \<noteq> []" by simp
    then show ?thesis
      using assms(1) \<open>\<not> HasWitness tx\<close> no_witness_strip [of tx]
      by (auto simp: UnserializeTransaction_def SerializeTransaction_def read_vin_vout_def Let_def tx_ok_def
          u32.unser_ser read_vin txout.vector_roundtrip)
  qed
qed


lemma read_witnesses_props:
  "read_witnesses ins s = Inr (ins', r) \<Longrightarrow> (\<forall>i \<in> set ins. scriptWitness i = []) \<Longrightarrow>
     map strip_in ins' = ins \<and> list_all (\<lambda>i. vector_ok bytes_ok (scriptWitness i)) ins' \<and>
     s = concat (map (\<lambda>i. Serialize_vector Serialize_bytes (scriptWitness i)) ins') @ r"
proof (induction ins arbitrary: s ins')
  case (Cons i ins)
  obtain w t more where w: "Unserialize_vector Unserialize_bytes s = Inr (w, t)"
    and m: "read_witnesses ins t = Inr (more, r)" and ins': "ins' = i\<lparr>scriptWitness := w\<rparr> # more"
    using Cons.prems(1) by auto
  have "strip_in (i\<lparr>scriptWitness := w\<rparr>) = i"
    using Cons.prems(2) by (simp add: strip_in_def)
  then show ?case
    using Cons.IH [OF m] Cons.prems(2) byte_vectors.ser_unser [OF w] ins' by auto
qed simp

lemma vector_txin_strip:
  assumes "Unserialize_vector Unserialize_CTxIn s = Inr (ins, t)"
  shows "vector_ok txin_ok ins \<and> (\<forall>i \<in> set ins. scriptWitness i = []) \<and>
    s = Serialize_vector Serialize_CTxIn ins @ t"
  using txin.vector_canonical [OF assms] by (auto simp: vector_ok_def list_all_iff txin_ok_def)

lemma map_strip_self: "\<forall>i \<in> set ins. scriptWitness i = [] \<Longrightarrow> map strip_in ins = ins"
  by (auto simp: strip_in_def intro: map_idI)

lemma tx_canonical_basic:
  assumes "UnserializeTransaction False s = Inr (tx, r)"
  shows "tx_ok tx \<and> \<not> HasWitness tx \<and> s = SerializeTransaction False tx @ r"
proof -
  obtain ver t ins u outs v lt where p: "ser_readdata32 s = Inr (ver, t)"
    "Unserialize_vector Unserialize_CTxIn t = Inr (ins, u)"
    "Unserialize_vector Unserialize_CTxOut u = Inr (outs, v)"
    "ser_readdata32 v = Inr (lt, r)"
    and tx: "tx = \<lparr>vin = ins, vout = outs, nVersion = ver, nLockTime = lt\<rparr>"
    using assms by (auto simp: UnserializeTransaction_def read_vin_vout_def split: if_splits)
  note ins = vector_txin_strip [OF p(2)]
  then show ?thesis
    using u32.ser_unser [OF p(1)] u32.ser_unser [OF p(4)] txout.vector_canonical [OF p(3)]
    by (auto simp: tx tx_ok_def HasWitness_def list_ex_iff SerializeTransaction_def map_strip_self
        list_all_iff vector_ok_def)
qed

text \<open>
  In the extended format the encoding of a transaction with a witness is unique.
\<close>

lemma tx_canonical_ext:
  assumes "UnserializeTransaction True s = Inr (tx, r)" "HasWitness tx"
  shows "tx_ok tx \<and> s = SerializeTransaction True tx @ r"
proof -
  obtain ver t flags ins outs u where p: "ser_readdata32 s = Inr (ver, t)"
    "read_vin_vout True t = Inr ((flags, ins, outs), u)"
    using assms(1) by (auto simp: UnserializeTransaction_def)
  have w0: "\<forall>i \<in> set ins. scriptWitness i = []"
    using p(2) by (fastforce simp: read_vin_vout_def split: if_splits dest: vector_txin_strip)
  have "flags AND 1 \<noteq> 0"
  proof
    assume "flags AND 1 = 0"
    then have "vin tx = ins" using assms(1) p by (auto simp: UnserializeTransaction_def split: if_splits)
    with w0 assms(2) show False by (auto simp: HasWitness_def list_ex_iff)
  qed
  then obtain ins' v lt where q: "read_witnesses ins u = Inr (ins', v)" "flags XOR 1 = 0"
    "ser_readdata32 v = Inr (lt, r)"
    and tx: "tx = \<lparr>vin = ins', vout = outs, nVersion = ver, nLockTime = lt\<rparr>"
    using assms(1) p by (auto simp: UnserializeTransaction_def split: if_splits)
  have f: "flags = 1" using q(2) by (metis xor.assoc xor.left_neutral xor_self_eq xor.comm_neutral)
  obtain t1 t2 t3 where rd: "Unserialize_vector Unserialize_CTxIn t = Inr ([], t1)"
    "ser_readdata8 t1 = Inr (flags, t2)" "Unserialize_vector Unserialize_CTxIn t2 = Inr (ins, t3)"
    "Unserialize_vector Unserialize_CTxOut t3 = Inr (outs, u)"
    using p(2) f by (auto simp: read_vin_vout_def split: if_splits)
  note wit = read_witnesses_props [OF q(1) w0]
  have "Serialize_vector Serialize_CTxIn ins' = Serialize_vector Serialize_CTxIn ins"
    using wit Serialize_vector_strip [of ins'] by simp
  then show ?thesis
    using u32.ser_unser [OF p(1)] u32.ser_unser [OF q(3)] vector_txin_strip [OF rd(1)]
      u8.ser_unser [OF rd(2)] vector_txin_strip [OF rd(3)] txout.vector_canonical [OF rd(4)] wit assms(2) f
    by (auto simp: tx tx_ok_def SerializeTransaction_def Let_def)
qed

section \<open>Identifiers and values\<close>

lemma SerializeTransaction_strip: "SerializeTransaction False (strip_witness tx) = SerializeTransaction False tx"
  by (simp add: SerializeTransaction_def strip_witness_def Serialize_vector_strip)

lemma ComputeHash_strip: "ComputeHash (strip_witness tx) = ComputeHash tx"
  by (simp add: ComputeHash_def SerializeTransaction_strip)

lemma GetValueOut_loop_eq:
  assumes "MoneyRange acc"
  shows "GetValueOut_loop acc outs =
    (if (\<forall>out \<in> set outs. MoneyRange (nValue out)) \<and> acc + sum_list (map nValue outs) \<le> MAX_MONEY
     then Some (acc + sum_list (map nValue outs)) else None)"
  using assms
proof (induction outs arbitrary: acc)
  case (Cons out outs)
  have nn: "0 \<le> sum_list (map nValue outs)" if "\<forall>out \<in> set outs. MoneyRange (nValue out)"
    using that by (intro sum_list_nonneg) (auto simp: MoneyRange_def)
  show ?case
  proof (cases "MoneyRange (nValue out) \<and> MoneyRange (acc + nValue out)")
    case True
    then show ?thesis using Cons.IH [of "acc + nValue out"] by (simp add: add.assoc)
  next
    case False
    then show ?thesis using nn Cons.prems by (auto simp: MoneyRange_def)
  qed
qed (simp add: MoneyRange_def)

lemma coinbase_not_coinstake: "\<not> (IsCoinBase tx \<and> IsCoinStake tx)"
  by (auto simp: IsCoinBase_def IsCoinStake_def)

section \<open>Properties\<close>

definition sample_tx :: CTransaction where
  "sample_tx =
     \<lparr>vin = [\<lparr>prevout = COutPoint (replicate 32 1) 0, scriptSig = [], nSequence = - 1, scriptWitness = [[7], [8]]\<rparr>],
      vout = [\<lparr>nValue = 5, scriptPubKey = [0x51]\<rparr>], nVersion = 2, nLockTime = 0\<rparr>"

lemma sample_tx_ok: "tx_ok sample_tx" "HasWitness sample_tx" "vin sample_tx \<noteq> []"
  by (simp_all add: sample_tx_def tx_ok_def vector_ok_def txin_ok_def txout_ok_def outpoint_ok_def
      bytes_ok_def int64_ok_def strip_in_def HasWitness_def unat_MAX_SIZE)

text \<open>
  C20: a transaction serialised with its witness is read back exactly, unless it has outputs and no
  input.
\<close>
theorem tx_roundtrip:
  assumes "tx_ok tx" "vin tx \<noteq> [] \<or> vout tx = []"
  shows "UnserializeTransaction True (SerializeTransaction True tx @ r) = Inr (tx, r)"
  using assms by (rule tx_roundtrip_ext)

theorem tx_roundtrip_witness:
  "UnserializeTransaction True (SerializeTransaction True sample_tx @ [9]) = Inr (sample_tx, [9])"
  by (rule tx_roundtrip) (simp_all add: sample_tx_ok)

text \<open>
  C21: the bytes of a transaction that carries a witness, and those of a transaction in the format
  without witness, are determined by the transaction: nothing else decodes to it.
\<close>
theorem tx_canonical:
  assumes "UnserializeTransaction fAllowWitness s = Inr (tx, r)" "HasWitness tx \<or> \<not> fAllowWitness"
  shows "tx_ok tx \<and> s = SerializeTransaction fAllowWitness tx @ r"
  using assms tx_canonical_basic [of s tx r] tx_canonical_ext [of s tx r] by (cases fAllowWitness) auto

theorem tx_canonical_witness:
  "tx_ok sample_tx \<and> SerializeTransaction True sample_tx @ [9] = SerializeTransaction True sample_tx @ [9]"
proof (rule tx_canonical)
  show "UnserializeTransaction True (SerializeTransaction True sample_tx @ [9]) = Inr (sample_tx, [9])"
    by (rule tx_roundtrip_ext) (simp_all add: sample_tx_ok)
qed (simp add: sample_tx_ok)

text \<open>
  C35: the identifier of a transaction does not depend on its witness, and the witness identifier of a
  transaction without witness is its identifier.
\<close>
theorem ComputeHash_ignores_witness:
  "ComputeHash (strip_witness tx) = ComputeHash tx \<and>
   ComputeWitnessHash (strip_witness tx) = ComputeHash tx"
proof -
  have "\<not> HasWitness (strip_witness tx)"
    by (simp add: HasWitness_def strip_witness_def strip_in_def list_ex_iff)
  then show ?thesis by (simp add: ComputeHash_strip ComputeWitnessHash_def)
qed

text \<open>
  C34: the value of the outputs is their sum if each output and the sum are in the money range, and an
  exception otherwise; no partial sum can mask an overflow.
\<close>
theorem GetValueOut_eq:
  "GetValueOut tx =
    (if (\<forall>out \<in> set (vout tx). MoneyRange (nValue out)) \<and> sum_list (map nValue (vout tx)) \<le> MAX_MONEY
     then Some (sum_list (map nValue (vout tx))) else None)"
  using GetValueOut_loop_eq [of 0 "vout tx"] by (simp add: GetValueOut_def MoneyRange_def MAX_MONEY_def)

theorem GetValueOut_eq_witness:
  "GetValueOut sample_tx = Some 5"
  using GetValueOut_eq [of sample_tx] by (simp add: sample_tx_def MoneyRange_def MAX_MONEY_def)

end
