(* ===== verification/SigHash.thy ===== *)
theory SigHash
  imports EvalProps Transaction
begin

text \<open>
  The digest a signature signs, and the checker that ties the script interpreter to a transaction
  (\<open>src/src/script/interpreter.cpp\<close>, lines 1108 to 1439).

  The hash type is an \<open>int\<close> in the code, of which only the bits are used.  A digest is the hash of a
  byte string, the preimage; the preimages are definitions of their own, so that what a signature
  commits to can be stated without assumptions on the hash function.
\<close>

section \<open>The original digest\<close>

function count_separators :: "byte list \<Rightarrow> nat" where
  "count_separators it =
     (case GetScriptOp it of (ok, opcode, _, it') \<Rightarrow>
        if ok then (if opcode = OP_CODESEPARATOR then 1 else 0) + count_separators it' else 0)"
  by pat_completeness auto
termination
  by (relation "measure length") (auto dest: GetScriptOp_ok_shorter [OF sym])

function write_script_code :: "byte list \<Rightarrow> byte list \<Rightarrow> byte list" where
  "write_script_code itBegin it =
     (case GetScriptOp it of (ok, opcode, _, it') \<Rightarrow>
        if ok then
          if opcode = OP_CODESEPARATOR
          then take (length itBegin - length it' - 1) itBegin @ write_script_code it' it'
          else write_script_code itBegin it'
        else if itBegin \<noteq> [] then take (length itBegin - length it') itBegin
        else [])"
  by pat_completeness auto
termination
  by (relation "measure (\<lambda>(_, it). length it)") (auto dest: GetScriptOp_ok_shorter [OF sym])

declare count_separators.simps [simp del] write_script_code.simps [simp del]

definition SerializeScriptCode :: "CScript \<Rightarrow> byte list" where
  "SerializeScriptCode scriptCode =
     WriteCompactSize (of_nat (length scriptCode - count_separators scriptCode)) @
     write_script_code scriptCode scriptCode"

definition fAnyoneCanPay :: "u32 \<Rightarrow> bool" where
  "fAnyoneCanPay nHashType \<longleftrightarrow> nHashType AND SIGHASH_ANYONECANPAY \<noteq> 0"

definition fHashSingle :: "u32 \<Rightarrow> bool" where
  "fHashSingle nHashType \<longleftrightarrow> nHashType AND 0x1f = SIGHASH_SINGLE"

definition fHashNone :: "u32 \<Rightarrow> bool" where
  "fHashNone nHashType \<longleftrightarrow> nHashType AND 0x1f = SIGHASH_NONE"

definition SerializeInput :: "CTransaction \<Rightarrow> CScript \<Rightarrow> nat \<Rightarrow> u32 \<Rightarrow> nat \<Rightarrow> byte list" where
  "SerializeInput txTo scriptCode nIn nHashType nInput0 =
     (let nInput = (if fAnyoneCanPay nHashType then nIn else nInput0)
      in Serialize_COutPoint (prevout (vin txTo ! nInput)) @
         (if nInput \<noteq> nIn then Serialize_bytes [] else SerializeScriptCode scriptCode) @
         (if nInput \<noteq> nIn \<and> (fHashSingle nHashType \<or> fHashNone nHashType) then ser_writedata32 0
          else ser_writedata32 (nSequence (vin txTo ! nInput))))"

definition SerializeOutput :: "CTransaction \<Rightarrow> nat \<Rightarrow> u32 \<Rightarrow> nat \<Rightarrow> byte list" where
  "SerializeOutput txTo nIn nHashType nOutput =
     (if fHashSingle nHashType \<and> nOutput \<noteq> nIn then Serialize_CTxOut CTxOut_null
      else Serialize_CTxOut (vout txTo ! nOutput))"

definition SerializeSigTx :: "CTransaction \<Rightarrow> CScript \<Rightarrow> nat \<Rightarrow> u32 \<Rightarrow> byte list" where
  "SerializeSigTx txTo scriptCode nIn nHashType =
     (let nInputs = (if fAnyoneCanPay nHashType then 1 else length (vin txTo));
          nOutputs = (if fHashNone nHashType then 0
                      else if fHashSingle nHashType then nIn + 1 else length (vout txTo))
      in ser_writedata32 (nVersion txTo) @
         WriteCompactSize (of_nat nInputs) @
         concat (map (SerializeInput txTo scriptCode nIn nHashType) [0..<nInputs]) @
         WriteCompactSize (of_nat nOutputs) @
         concat (map (SerializeOutput txTo nIn nHashType) [0..<nOutputs]) @
         ser_writedata32 (nLockTime txTo))"

definition sighash_preimage :: "CScript \<Rightarrow> CTransaction \<Rightarrow> nat \<Rightarrow> u32 \<Rightarrow> byte list" where
  "sighash_preimage scriptCode txTo nIn nHashType =
     SerializeSigTx txTo scriptCode nIn nHashType @ ser_writedata32 nHashType"

section \<open>The segregated witness digest\<close>

definition GetPrevoutHash :: "CTransaction \<Rightarrow> uint256" where
  "GetPrevoutHash txTo =
     CHashWriter_GetHash (map (\<lambda>txin. Serialize_COutPoint (prevout txin)) (vin txTo))"

definition GetSequenceHash :: "CTransaction \<Rightarrow> uint256" where
  "GetSequenceHash txTo = CHashWriter_GetHash (map (\<lambda>txin. ser_writedata32 (nSequence txin)) (vin txTo))"

definition GetOutputsHash :: "CTransaction \<Rightarrow> uint256" where
  "GetOutputsHash txTo = CHashWriter_GetHash (map Serialize_CTxOut (vout txTo))"

record PrecomputedTransactionData =
  p_hashPrevouts :: uint256
  p_hashSequence :: uint256
  p_hashOutputs :: uint256
  p_ready :: bool

definition Precompute :: "CTransaction \<Rightarrow> PrecomputedTransactionData" where
  "Precompute txTo =
     (if HasWitness txTo then
        \<lparr>p_hashPrevouts = GetPrevoutHash txTo, p_hashSequence = GetSequenceHash txTo,
         p_hashOutputs = GetOutputsHash txTo, p_ready = True\<rparr>
      else
        \<lparr>p_hashPrevouts = uint256_null, p_hashSequence = uint256_null, p_hashOutputs = uint256_null,
         p_ready = False\<rparr>)"

definition cached ::
  "PrecomputedTransactionData option \<Rightarrow> (PrecomputedTransactionData \<Rightarrow> uint256) \<Rightarrow> uint256 \<Rightarrow> uint256" where
  "cached cache field h =
     (case cache of
        None \<Rightarrow> h
      | Some c \<Rightarrow> if p_ready c then field c else h)"

definition witness_hashOutputs ::
  "CTransaction \<Rightarrow> nat \<Rightarrow> u32 \<Rightarrow> PrecomputedTransactionData option \<Rightarrow> uint256" where
  "witness_hashOutputs txTo nIn nHashType cache =
     (if \<not> fHashSingle nHashType \<and> \<not> fHashNone nHashType
      then cached cache p_hashOutputs (GetOutputsHash txTo)
      else if fHashSingle nHashType \<and> nIn < length (vout txTo)
      then CHashWriter_GetHash [Serialize_CTxOut (vout txTo ! nIn)]
      else uint256_null)"

definition witness_preimage ::
  "CScript \<Rightarrow> CTransaction \<Rightarrow> nat \<Rightarrow> u32 \<Rightarrow> int \<Rightarrow> PrecomputedTransactionData option \<Rightarrow> byte list" where
  "witness_preimage scriptCode txTo nIn nHashType amount cache =
     (let hashPrevouts = (if \<not> fAnyoneCanPay nHashType
            then cached cache p_hashPrevouts (GetPrevoutHash txTo) else uint256_null);
          hashSequence = (if \<not> fAnyoneCanPay nHashType \<and> \<not> fHashSingle nHashType \<and> \<not> fHashNone nHashType
            then cached cache p_hashSequence (GetSequenceHash txTo) else uint256_null);
          hashOutputs = witness_hashOutputs txTo nIn nHashType cache
      in ser_writedata32 (nVersion txTo) @ hashPrevouts @ hashSequence @
         Serialize_COutPoint (prevout (vin txTo ! nIn)) @ Serialize_bytes scriptCode @
         ser_int64 amount @ ser_writedata32 (nSequence (vin txTo ! nIn)) @ hashOutputs @
         ser_writedata32 (nLockTime txTo) @ ser_writedata32 nHashType)"

definition uint256_one :: uint256 where
  "uint256_one = 1 # replicate 31 0"

definition SignatureHash ::
  "CScript \<Rightarrow> CTransaction \<Rightarrow> nat \<Rightarrow> u32 \<Rightarrow> int \<Rightarrow> SigVersion \<Rightarrow> PrecomputedTransactionData option \<Rightarrow> uint256" where
  "SignatureHash scriptCode txTo nIn nHashType amount sigversion cache =
     (if sigversion = WITNESS_V0
      then CHashWriter_GetHash [witness_preimage scriptCode txTo nIn nHashType amount cache]
      else if fHashSingle nHashType \<and> nIn \<ge> length (vout txTo) then uint256_one
      else CHashWriter_GetHash [sighash_preimage scriptCode txTo nIn nHashType])"

section \<open>The transaction's checker\<close>

definition tx_CheckSig ::
  "secp256k1 \<Rightarrow> CTransaction \<Rightarrow> nat \<Rightarrow> int \<Rightarrow> PrecomputedTransactionData option \<Rightarrow>
   valtype \<Rightarrow> valtype \<Rightarrow> CScript \<Rightarrow> SigVersion \<Rightarrow> bool" where
  "tx_CheckSig ctx txTo nIn amount txdata vchSigIn vchPubKey scriptCode sigversion =
     (let pubkey = CPubKey_Set vchPubKey
      in if \<not> CPubKey_IsValid pubkey then False
         else if vchSigIn = [] then False
         else
           let nHashType = ucast (last vchSigIn);
               vchSig = butlast vchSigIn;
               sighash = SignatureHash scriptCode txTo nIn nHashType amount sigversion txdata
           in CPubKey_Verify ctx pubkey sighash vchSig)"

definition tx_CheckLockTime :: "CTransaction \<Rightarrow> nat \<Rightarrow> int \<Rightarrow> bool" where
  "tx_CheckLockTime txTo nIn lockTime =
     (if \<not> ((uint (nLockTime txTo) < LOCKTIME_THRESHOLD \<and> lockTime < LOCKTIME_THRESHOLD) \<or>
            (uint (nLockTime txTo) \<ge> LOCKTIME_THRESHOLD \<and> lockTime \<ge> LOCKTIME_THRESHOLD))
      then False
      else if lockTime > uint (nLockTime txTo) then False
      else if nSequence (vin txTo ! nIn) = SEQUENCE_FINAL then False
      else True)"

abbreviation (input) SEQUENCE_LOCKTIME_TYPE_FLAG :: int where "SEQUENCE_LOCKTIME_TYPE_FLAG \<equiv> 0x400000"
abbreviation (input) SEQUENCE_LOCKTIME_MASK :: int where "SEQUENCE_LOCKTIME_MASK \<equiv> 0xffff"

definition tx_CheckSequence :: "CTransaction \<Rightarrow> nat \<Rightarrow> int \<Rightarrow> bool" where
  "tx_CheckSequence txTo nIn sequence =
     (let txToSequence = uint (nSequence (vin txTo ! nIn));
          nLockTimeMask = SEQUENCE_LOCKTIME_TYPE_FLAG OR SEQUENCE_LOCKTIME_MASK;
          txToSequenceMasked = txToSequence AND nLockTimeMask;
          nSequenceMasked = sequence AND nLockTimeMask
      in if nVersion txTo < 2 then False
         else if txToSequence AND SEQUENCE_LOCKTIME_DISABLE_FLAG \<noteq> 0 then False
         else if \<not> ((txToSequenceMasked < SEQUENCE_LOCKTIME_TYPE_FLAG \<and>
                      nSequenceMasked < SEQUENCE_LOCKTIME_TYPE_FLAG) \<or>
                     (txToSequenceMasked \<ge> SEQUENCE_LOCKTIME_TYPE_FLAG \<and>
                      nSequenceMasked \<ge> SEQUENCE_LOCKTIME_TYPE_FLAG))
         then False
         else if nSequenceMasked > txToSequenceMasked then False
         else True)"

definition TransactionSignatureChecker ::
  "secp256k1 \<Rightarrow> CTransaction \<Rightarrow> nat \<Rightarrow> int \<Rightarrow> PrecomputedTransactionData option \<Rightarrow> SignatureChecker" where
  "TransactionSignatureChecker ctx txTo nIn amount txdata =
     \<lparr>CheckSig = tx_CheckSig ctx txTo nIn amount txdata,
      CheckLockTime = tx_CheckLockTime txTo nIn,
      CheckSequence = tx_CheckSequence txTo nIn\<rparr>"

section \<open>The original digest as the serialisation of a modified transaction\<close>

text \<open>
  The reference: a copy of the transaction in which the script under signature, without its code
  separators, stands in the signed input, and the parts the hash type leaves open are blanked.
\<close>

definition without_separators :: "CScript \<Rightarrow> CScript" where
  "without_separators sc = ops_bytes (filter (\<lambda>(opcode, _). opcode \<noteq> OP_CODESEPARATOR) (fst (script_ops sc)))"

definition sighash_in :: "CScript \<Rightarrow> nat \<Rightarrow> u32 \<Rightarrow> nat \<Rightarrow> CTxIn \<Rightarrow> CTxIn" where
  "sighash_in sc nIn ht i txin =
     \<lparr>prevout = prevout txin, scriptSig = (if i = nIn then without_separators sc else []),
      nSequence = (if i \<noteq> nIn \<and> (fHashSingle ht \<or> fHashNone ht) then 0 else nSequence txin),
      scriptWitness = []\<rparr>"

definition sighash_ins :: "CScript \<Rightarrow> CTransaction \<Rightarrow> nat \<Rightarrow> u32 \<Rightarrow> CTxIn list" where
  "sighash_ins sc tx nIn ht =
     (if fAnyoneCanPay ht then [sighash_in sc nIn ht nIn (vin tx ! nIn)]
      else map (\<lambda>i. sighash_in sc nIn ht i (vin tx ! i)) [0..<length (vin tx)])"

definition sighash_outs :: "CTransaction \<Rightarrow> nat \<Rightarrow> u32 \<Rightarrow> CTxOut list" where
  "sighash_outs tx nIn ht =
     (if fHashNone ht then []
      else if fHashSingle ht then replicate nIn CTxOut_null @ [vout tx ! nIn]
      else vout tx)"

definition sighash_tx :: "CScript \<Rightarrow> CTransaction \<Rightarrow> nat \<Rightarrow> u32 \<Rightarrow> CTransaction" where
  "sighash_tx sc tx nIn ht =
     \<lparr>vin = sighash_ins sc tx nIn ht, vout = sighash_outs tx nIn ht,
      nVersion = nVersion tx, nLockTime = nLockTime tx\<rparr>"

lemma op_bytes_separator:
  "op_ok (OP_CODESEPARATOR, vch) \<Longrightarrow> vch = [] \<and> length (op_bytes (OP_CODESEPARATOR, vch)) = 1"
  by (simp add: op_ok_def op_bytes_def op_size_bytes_def)

lemma GetScriptOp_Nil_rest: "GetScriptOp [] = (False, opcode, vch, pc') \<Longrightarrow> pc' = []"
  by (simp add: GetScriptOp_def)

lemma write_script_code_parsed:
  "snd (script_ops it) \<Longrightarrow>
     write_script_code (before @ it) it =
       before @ ops_bytes (filter (\<lambda>(opcode, _). opcode \<noteq> OP_CODESEPARATOR) (fst (script_ops it)))"
proof (induction it arbitrary: before rule: script_induct)
  case Nil
  then show ?case by (subst write_script_code.simps) (auto simp: GetScriptOp_def)
next
  case (Fail pc opcode vch pc')
  then show ?case by (simp add: script_ops_fail)
next
  case (Step pc opcode vch pc')
  note b = GetScriptOp_ok_bytes [OF Step(2)]
  have "snd (script_ops pc')" using Step by (simp add: script_ops_step)
  note IH = Step.IH [OF this]
  show ?case
  proof (cases "opcode = OP_CODESEPARATOR")
    case True
    then have "length pc = Suc (length pc')" using b op_bytes_separator [of vch] by auto
    then show ?thesis
      using True Step(2) IH [of "[]"] b
      by (subst write_script_code.simps) (simp add: script_ops_step)
  next
    case False
    then show ?thesis
      using Step(2) IH [of "before @ op_bytes (opcode, vch)"] b
      by (subst write_script_code.simps) (simp add: script_ops_step)
  qed
qed

lemma count_separators_eq:
  "count_separators it = length (filter (\<lambda>(opcode, _). opcode = OP_CODESEPARATOR) (fst (script_ops it)))"
proof (induction it rule: script_induct)
  case (Step pc opcode vch pc')
  then show ?case by (subst count_separators.simps) (simp add: script_ops_step)
next
  case Nil
  then show ?case by (subst count_separators.simps) (simp add: GetScriptOp_def)
qed (subst count_separators.simps, simp add: script_ops_fail)

lemma length_without_separators:
  "snd (script_ops sc) \<Longrightarrow> length sc = length (without_separators sc) + count_separators sc"
proof (induction sc rule: script_induct)
  case (Step pc opcode vch pc')
  then show ?case
    using GetScriptOp_ok_bytes [OF Step(2)] op_bytes_separator [of vch]
    by (auto simp: script_ops_step without_separators_def count_separators_eq)
qed (simp_all add: script_ops_fail without_separators_def count_separators_eq)

lemma SerializeScriptCode_eq:
  "snd (script_ops sc) \<Longrightarrow> SerializeScriptCode sc = Serialize_bytes (without_separators sc)"
  using write_script_code_parsed [of sc "[]"] length_without_separators [of sc]
  by (simp add: SerializeScriptCode_def Serialize_bytes_def without_separators_def)

lemma SerializeInput_eq:
  assumes "snd (script_ops sc)"
  shows "SerializeInput tx sc nIn ht i =
    (if fAnyoneCanPay ht then Serialize_CTxIn (sighash_in sc nIn ht nIn (vin tx ! nIn))
     else Serialize_CTxIn (sighash_in sc nIn ht i (vin tx ! i)))"
  using assms by (simp add: SerializeInput_def Serialize_CTxIn_def sighash_in_def SerializeScriptCode_eq)

lemma SerializeSigTx_eq:
  assumes "snd (script_ops sc)"
  shows "SerializeSigTx tx sc nIn ht = SerializeTransaction False (sighash_tx sc tx nIn ht)"
proof -
  let ?n = "if fHashNone ht then 0 else if fHashSingle ht then nIn + 1 else length (vout tx)"
  have outs: "map (SerializeOutput tx nIn ht) [0..<?n] = map Serialize_CTxOut (sighash_outs tx nIn ht)"
    by (auto simp: sighash_outs_def SerializeOutput_def intro: nth_equalityI)
  have "length (sighash_outs tx nIn ht) = ?n" by (simp add: sighash_outs_def)
  moreover have "\<not> fAnyoneCanPay ht \<Longrightarrow> SerializeInput tx sc nIn ht =
      (\<lambda>i. Serialize_CTxIn (sighash_in sc nIn ht i (vin tx ! i)))"
    using assms by (auto simp: SerializeInput_eq)
  ultimately show ?thesis
    using outs assms
    by (simp add: SerializeSigTx_def SerializeTransaction_def sighash_tx_def Let_def Serialize_vector_def
        sighash_ins_def SerializeInput_eq comp_def)
qed

lemma sighash_preimage_eq:
  "snd (script_ops sc) \<Longrightarrow>
     sighash_preimage sc tx nIn ht = SerializeTransaction False (sighash_tx sc tx nIn ht) @ ser_writedata32 ht"
  by (simp add: sighash_preimage_def SerializeSigTx_eq)


section \<open>What a signature commits to\<close>

lemma script_ops_CHECKSIG: "script_ops [0xac] = ([(0xac, [])], True)"
  by (simp add: script_ops.simps GetScriptOp_def)

lemma length_ser_writedata32 [simp]: "length (ser_writedata32 w) = 4"
  by (simp add: ser_writedata32_def)

lemma bytes_ok_without_separators: "snd (script_ops sc) \<Longrightarrow> bytes_ok sc \<Longrightarrow> bytes_ok (without_separators sc)"
  using length_without_separators [of sc] by (simp add: bytes_ok_def)

lemma tx_ok_sighash_tx:
  assumes "tx_ok tx" "snd (script_ops sc)" "bytes_ok sc" "nIn < length (vin tx)"
    "fHashSingle ht \<Longrightarrow> nIn < length (vout tx)"
  shows "tx_ok (sighash_tx sc tx nIn ht)"
proof -
  have ins: "txin_ok (strip_in (vin tx ! i))" if "i < length (vin tx)" for i
    using assms(1) that by (simp add: tx_ok_def vector_ok_def list_all_length)
  then have si: "txin_ok (sighash_in sc nIn ht i (vin tx ! i))" if "i < length (vin tx)" for i
    using that bytes_ok_without_separators [OF assms(2,3)]
    by (fastforce simp: txin_ok_def sighash_in_def strip_in_def bytes_ok_def)
  have strip: "strip_in (sighash_in sc nIn ht i x) = sighash_in sc nIn ht i x" for i x
    by (simp add: strip_in_def sighash_in_def)
  have wit: "scriptWitness (sighash_in sc nIn ht i x) = []" for i x by (simp add: sighash_in_def)
  have "vector_ok txin_ok (map strip_in (sighash_ins sc tx nIn ht))"
    using assms(1,4) si
    by (auto simp: sighash_ins_def vector_ok_def tx_ok_def list_all_iff comp_def strip unat_MAX_SIZE)
  moreover have "vector_ok txout_ok (sighash_outs tx nIn ht)"
    using assms(1,5)
    by (auto simp: sighash_outs_def vector_ok_def tx_ok_def list_all_iff CTxOut_null_def txout_ok_def
        int64_ok_def bytes_ok_def)
  ultimately show ?thesis
    by (auto simp: tx_ok_def sighash_tx_def sighash_ins_def list_all_iff wit vector_ok_def)
qed

lemma strip_sighash_tx: "strip_witness (sighash_tx sc tx nIn ht) = sighash_tx sc tx nIn ht"
  by (simp add: strip_witness_def sighash_tx_def sighash_ins_def comp_def strip_in_def sighash_in_def)

lemma SerializeTransaction_inject:
  assumes "tx_ok a" "tx_ok b" "SerializeTransaction False a = SerializeTransaction False b"
  shows "strip_witness a = strip_witness b"
  using tx_roundtrip_basic [OF assms(1), of "[]"] tx_roundtrip_basic [OF assms(2), of "[]"] assms(3) by simp

lemma sighash_preimage_inject:
  assumes "tx_ok tx" "snd (script_ops sc)" "bytes_ok sc" "nIn < length (vin tx)"
    and "tx_ok tx'" "snd (script_ops sc')" "bytes_ok sc'" "nIn' < length (vin tx')"
    and "fHashSingle ht \<Longrightarrow> nIn < length (vout tx)" "fHashSingle ht' \<Longrightarrow> nIn' < length (vout tx')"
    and eq: "sighash_preimage sc tx nIn ht = sighash_preimage sc' tx' nIn' ht'"
  shows "ht = ht' \<and> sighash_tx sc tx nIn ht = sighash_tx sc' tx' nIn' ht"
proof -
  have "SerializeTransaction False (sighash_tx sc tx nIn ht) =
      SerializeTransaction False (sighash_tx sc' tx' nIn' ht') \<and> ser_writedata32 ht = ser_writedata32 ht'"
    using eq assms(2,6) by (simp add: sighash_preimage_eq)
  moreover from this have "ht = ht'"
    using u32.unser_ser [of ht "[]"] u32.unser_ser [of ht' "[]"] by simp
  ultimately show ?thesis
    using SerializeTransaction_inject tx_ok_sighash_tx assms by (metis strip_sighash_tx)
qed

lemma sighash_in_inject:
  assumes "map (\<lambda>i. sighash_in sc nIn ht i (vin tx ! i)) [0..<length (vin tx)] =
      map (\<lambda>i. sighash_in sc' nIn' ht i (vin tx' ! i)) [0..<length (vin tx')]"
    and "\<not> fHashSingle ht" "\<not> fHashNone ht" "nIn < length (vin tx)"
  shows "map prevout (vin tx) = map prevout (vin tx') \<and> map nSequence (vin tx) = map nSequence (vin tx') \<and>
    (without_separators sc \<noteq> [] \<longrightarrow> nIn = nIn' \<and> without_separators sc = without_separators sc')"
proof -
  have len: "length (vin tx) = length (vin tx')" using arg_cong [OF assms(1), of length] by simp
  have e: "sighash_in sc nIn ht i (vin tx ! i) = sighash_in sc' nIn' ht i (vin tx' ! i)"
    if "i < length (vin tx)" for i
    using arg_cong [OF assms(1), of "\<lambda>l. l ! i"] that len by simp
  have "prevout (vin tx ! i) = prevout (vin tx' ! i) \<and> nSequence (vin tx ! i) = nSequence (vin tx' ! i)"
    if "i < length (vin tx)" for i
    using arg_cong [OF e [OF that], of prevout] arg_cong [OF e [OF that], of nSequence] assms(2,3)
    by (simp add: sighash_in_def)
  then have "map prevout (vin tx) = map prevout (vin tx')" "map nSequence (vin tx) = map nSequence (vin tx')"
    using len by (simp_all add: list_eq_iff_nth_eq)
  moreover have "scriptSig (sighash_in sc nIn ht nIn x) = without_separators sc" for x
    by (simp add: sighash_in_def)
  then have "without_separators sc = (if nIn = nIn' then without_separators sc' else [])"
    using arg_cong [OF e [OF assms(4)], of scriptSig] by (simp add: sighash_in_def)
  ultimately show ?thesis by (auto split: if_splits)
qed

text \<open>
  C16: two messages signed with the default hash type are equal only if the transactions agree on
  version, spent outputs, sequence numbers, outputs and lock time, and the input index and the script under
  signature agree.
\<close>
theorem sighash_all_commits:
  assumes "tx_ok tx" "snd (script_ops sc)" "bytes_ok sc" "nIn < length (vin tx)"
    and "tx_ok tx'" "snd (script_ops sc')" "bytes_ok sc'" "nIn' < length (vin tx')"
    and ht: "\<not> fAnyoneCanPay ht" "\<not> fHashSingle ht" "\<not> fHashNone ht"
    and ht': "\<not> fHashSingle ht'"
    and eq: "sighash_preimage sc tx nIn ht = sighash_preimage sc' tx' nIn' ht'"
  shows "nVersion tx = nVersion tx' \<and> map prevout (vin tx) = map prevout (vin tx') \<and>
    map nSequence (vin tx) = map nSequence (vin tx') \<and> vout tx = vout tx' \<and>
    nLockTime tx = nLockTime tx' \<and> ht = ht' \<and>
    (without_separators sc \<noteq> [] \<longrightarrow> nIn = nIn' \<and> without_separators sc = without_separators sc')"
proof -
  have e: "ht = ht'" "sighash_tx sc tx nIn ht = sighash_tx sc' tx' nIn' ht"
    using sighash_preimage_inject [OF assms(1-8) _ _ eq] ht ht' by auto
  then have "map (\<lambda>i. sighash_in sc nIn ht i (vin tx ! i)) [0..<length (vin tx)] =
      map (\<lambda>i. sighash_in sc' nIn' ht i (vin tx' ! i)) [0..<length (vin tx')]"
    using ht by (simp add: sighash_tx_def sighash_ins_def)
  from sighash_in_inject [OF this ht(2,3) assms(4)] show ?thesis
    using e ht by (simp add: sighash_tx_def sighash_outs_def)
qed

theorem sighash_all_commits_witness:
  "vout sample_tx = vout (strip_witness sample_tx) \<and> nLockTime sample_tx = nLockTime (strip_witness sample_tx)"
proof -
  have "tx_ok (strip_witness sample_tx)" "vin (strip_witness sample_tx) \<noteq> []"
    by (simp_all add: strip_witness_def sample_tx_def tx_ok_def vector_ok_def txin_ok_def txout_ok_def outpoint_ok_def
        bytes_ok_def int64_ok_def strip_in_def unat_MAX_SIZE)
  moreover have "sighash_preimage [0xac] sample_tx 0 1 = sighash_preimage [0xac] (strip_witness sample_tx) 0 1"
    by (simp add: sighash_preimage_def SerializeSigTx_def SerializeInput_def SerializeOutput_def strip_witness_def
        strip_in_def sample_tx_def)
  ultimately show ?thesis
    using sighash_all_commits [of sample_tx "[0xac]" 0 "strip_witness sample_tx" "[0xac]" 0 1 1]
    by (simp add: sample_tx_ok script_ops_CHECKSIG bytes_ok_def unat_MAX_SIZE fAnyoneCanPay_def fHashSingle_def
        fHashNone_def)
qed

text \<open>The parts of a transaction that a hash type covers.\<close>

definition sighash_agree :: "u32 \<Rightarrow> nat \<Rightarrow> CTransaction \<Rightarrow> CTransaction \<Rightarrow> bool" where
  "sighash_agree ht nIn tx tx' \<longleftrightarrow>
     nVersion tx = nVersion tx' \<and> nLockTime tx = nLockTime tx' \<and>
     nIn < length (vin tx) \<and> nIn < length (vin tx') \<and>
     prevout (vin tx ! nIn) = prevout (vin tx' ! nIn) \<and>
     nSequence (vin tx ! nIn) = nSequence (vin tx' ! nIn) \<and>
     (\<not> fAnyoneCanPay ht \<longrightarrow> map prevout (vin tx) = map prevout (vin tx') \<and>
        (\<not> fHashSingle ht \<and> \<not> fHashNone ht \<longrightarrow> map nSequence (vin tx) = map nSequence (vin tx'))) \<and>
     (\<not> fHashSingle ht \<and> \<not> fHashNone ht \<longrightarrow> vout tx = vout tx') \<and>
     (fHashSingle ht \<longrightarrow> (nIn < length (vout tx) \<longleftrightarrow> nIn < length (vout tx')) \<and>
        (nIn < length (vout tx) \<longrightarrow> vout tx ! nIn = vout tx' ! nIn))"

lemma map_eq_nth: "map f xs = map f ys \<Longrightarrow> i < length xs \<Longrightarrow> f (xs ! i) = f (ys ! i)"
  by (metis length_map nth_map)

lemma SerializeInput_agree:
  assumes "sighash_agree ht nIn tx tx'" "fAnyoneCanPay ht \<or> i < length (vin tx)"
  shows "SerializeInput tx sc nIn ht i = SerializeInput tx' sc nIn ht i"
  using assms map_eq_nth [of prevout "vin tx" "vin tx'" i] map_eq_nth [of nSequence "vin tx" "vin tx'" i]
  by (auto simp: SerializeInput_def sighash_agree_def Let_def)

lemma SerializeSigTx_agree:
  assumes "sighash_agree ht nIn tx tx'" "fHashSingle ht \<longrightarrow> nIn < length (vout tx)"
  shows "SerializeSigTx tx sc nIn ht = SerializeSigTx tx' sc nIn ht"
proof -
  let ?n = "\<lambda>tx. if fAnyoneCanPay ht then 1 else length (vin tx)"
  let ?m = "\<lambda>tx. if fHashNone ht then 0 else if fHashSingle ht then nIn + 1 else length (vout tx)"
  have n: "?n tx = ?n tx'"
    using assms(1) by (metis sighash_agree_def length_map)
  have m: "?m tx = ?m tx'"
    using assms(1) by (simp add: sighash_agree_def)
  have ins: "map (SerializeInput tx sc nIn ht) [0..<?n tx] = map (SerializeInput tx' sc nIn ht) [0..<?n tx]"
    using SerializeInput_agree [OF assms(1)] by auto
  have outs: "map (SerializeOutput tx nIn ht) [0..<?m tx] = map (SerializeOutput tx' nIn ht) [0..<?m tx]"
    using assms by (simp add: SerializeOutput_def sighash_agree_def)
  have "nVersion tx = nVersion tx'" "nLockTime tx = nLockTime tx'"
    using assms(1) by (simp_all add: sighash_agree_def)
  then show ?thesis
    unfolding SerializeSigTx_def Let_def using ins outs by (simp only: n m)
qed

lemma GetHashes_map:
  "GetPrevoutHash tx = CHashWriter_GetHash (map Serialize_COutPoint (map prevout (vin tx)))"
  "GetSequenceHash tx = CHashWriter_GetHash (map ser_writedata32 (map nSequence (vin tx)))"
  by (simp_all add: GetPrevoutHash_def GetSequenceHash_def comp_def)

lemma witness_preimage_agree:
  assumes "sighash_agree ht nIn tx tx'"
  shows "witness_preimage sc tx nIn ht amount None = witness_preimage sc tx' nIn ht amount None"
  using assms
  by (auto simp: witness_preimage_def sighash_agree_def cached_def GetHashes_map witness_hashOutputs_def
      GetOutputsHash_def Let_def)

text \<open>
  C17: the digest depends on nothing but the parts the hash type covers: transactions that agree on
  them have the same digest, in both signature versions.
\<close>
theorem SignatureHash_agree:
  assumes "sighash_agree ht nIn tx tx'"
  shows "SignatureHash sc tx nIn ht amount ver None = SignatureHash sc tx' nIn ht amount ver None"
proof -
  have "sighash_preimage sc tx nIn ht = sighash_preimage sc tx' nIn ht"
    if "\<not> (fHashSingle ht \<and> nIn \<ge> length (vout tx))"
    using SerializeSigTx_agree [OF assms, of sc] that by (simp add: sighash_preimage_def not_le)
  moreover have "fHashSingle ht \<Longrightarrow> (nIn < length (vout tx) \<longleftrightarrow> nIn < length (vout tx'))"
    using assms by (simp add: sighash_agree_def)
  ultimately show ?thesis
    using witness_preimage_agree [OF assms] by (auto simp: SignatureHash_def)
qed

theorem SignatureHash_agree_witness:
  "SignatureHash [0xac] sample_tx 0 2 5 BASE None = SignatureHash [0xac] (sample_tx\<lparr>vout := []\<rparr>) 0 2 5 BASE None"
  by (rule SignatureHash_agree)
    (simp add: sighash_agree_def sample_tx_def fAnyoneCanPay_def fHashSingle_def fHashNone_def)

text \<open>
  C28: a digest computed with the precomputed hashes of the transaction is the one computed without.
\<close>
theorem SignatureHash_cache:
  "SignatureHash sc tx nIn ht amount ver (Some (Precompute tx)) = SignatureHash sc tx nIn ht amount ver None"
  by (simp add: SignatureHash_def witness_preimage_def cached_def witness_hashOutputs_def Precompute_def
      cong: if_cong)

text \<open>
  C27: the original digest, computed by the in-place serialiser, is the double hash of the serialised
  modified copy of the transaction followed by the hash type.
\<close>
theorem SignatureHash_legacy:
  assumes "snd (script_ops sc)"
  shows "SignatureHash sc tx nIn ht amount BASE cache =
    (if fHashSingle ht \<and> nIn \<ge> length (vout tx) then uint256_one
     else Hash (SerializeTransaction False (sighash_tx sc tx nIn ht) @ ser_writedata32 ht))"
  using assms by (simp add: SignatureHash_def sighash_preimage_eq CHashWriter_GetHash_eq)

theorem SignatureHash_legacy_witness:
  "SignatureHash [0xac] sample_tx 0 3 5 BASE None =
     Hash (SerializeTransaction False (sighash_tx [0xac] sample_tx 0 3) @ ser_writedata32 3)"
  using SignatureHash_legacy [of "[0xac]" sample_tx 0 3 5 None]
  by (simp add: script_ops_CHECKSIG) (simp add: sample_tx_def)

end
