(* ===== verification/VerifyScript.thy ===== *)
theory VerifyScript
  imports SigHash
begin

text \<open>
  Verification of a spend: \<open>VerifyScript\<close>, witness programs, and the counting of signature
  operations in witnesses (\<open>src/src/script/interpreter.cpp\<close>, lines 1441 to 1658).

  A failing \<open>assert\<close> of the code is an error of its own, \<open>AssertFail\<close>; all other errors carry the
  \<open>ScriptError\<close> the code stores.  Vectors that are used as stacks are lists whose head is the back of
  the vector.  A null witness pointer is the empty witness.
\<close>

section \<open>Definitions\<close>

datatype verify_error = ScriptErr ScriptError | AssertFail

abbreviation (input) WITNESS_V0_SCRIPTHASH_SIZE :: nat where "WITNESS_V0_SCRIPTHASH_SIZE \<equiv> 32"
abbreviation (input) WITNESS_V0_KEYHASH_SIZE :: nat where "WITNESS_V0_KEYHASH_SIZE \<equiv> 20"

definition p2wpkh_script :: "valtype \<Rightarrow> CScript" where
  "p2wpkh_script program =
     push_vch [of_nat OP_DUP, of_nat OP_HASH160] program @ [of_nat OP_EQUALVERIFY, of_nat OP_CHECKSIG]"

lemma p2wpkh_script_stream:
  "Some (p2wpkh_script program) =
     Option.bind (push_opcode [] OP_DUP) (\<lambda>s. Option.bind (push_opcode s OP_HASH160)
       (\<lambda>s. Option.bind (push_opcode (push_vch s program) OP_EQUALVERIFY)
         (\<lambda>s. push_opcode s OP_CHECKSIG)))"
  by (simp add: p2wpkh_script_def push_opcode_def)

definition run_witness ::
  "secp256k1 \<Rightarrow> valtype list \<Rightarrow> CScript \<Rightarrow> u32 \<Rightarrow> SignatureChecker \<Rightarrow> ScriptError + ScriptError" where
  "run_witness ctx stk script flags checker =
     (if list_ex (\<lambda>e. length e > MAX_SCRIPT_ELEMENT_SIZE) stk then Inl SCRIPT_ERR_PUSH_SIZE
      else
        bindE (EvalScript ctx stk script flags checker WITNESS_V0)
          (\<lambda>(stk', serror).
             if length stk' \<noteq> 1 then Inl SCRIPT_ERR_CLEANSTACK
             else if \<not> CastToBool (hd stk') then Inl SCRIPT_ERR_EVAL_FALSE
             else Inr serror))"

definition VerifyWitnessProgram ::
  "secp256k1 \<Rightarrow> valtype list \<Rightarrow> int \<Rightarrow> valtype \<Rightarrow> u32 \<Rightarrow> SignatureChecker \<Rightarrow> ScriptError + ScriptError" where
  "VerifyWitnessProgram ctx witness witversion program flags checker =
     (if witversion = 0 then
        if length program = WITNESS_V0_SCRIPTHASH_SIZE then
          if witness = [] then Inl SCRIPT_ERR_WITNESS_PROGRAM_WITNESS_EMPTY
          else if CSHA256_Finalize (CSHA256_Write (CSHA256_init uninit) (last witness)) \<noteq> program
          then Inl SCRIPT_ERR_WITNESS_PROGRAM_MISMATCH
          else run_witness ctx (rev (butlast witness)) (last witness) flags checker
        else if length program = WITNESS_V0_KEYHASH_SIZE then
          if length witness \<noteq> 2 then Inl SCRIPT_ERR_WITNESS_PROGRAM_MISMATCH
          else run_witness ctx (rev witness) (p2wpkh_script program) flags checker
        else Inl SCRIPT_ERR_WITNESS_PROGRAM_WRONG_LENGTH
      else if flags AND SCRIPT_VERIFY_DISCOURAGE_UPGRADABLE_WITNESS_PROGRAM \<noteq> 0
      then Inl SCRIPT_ERR_DISCOURAGE_UPGRADABLE_WITNESS_PROGRAM
      else Inr SCRIPT_ERR_OK)"

definition resize1 :: "valtype list \<Rightarrow> valtype list" where
  "resize1 stk = (if stk = [] then [[]] else [last stk])"

definition eval_true ::
  "secp256k1 \<Rightarrow> valtype list \<Rightarrow> CScript \<Rightarrow> u32 \<Rightarrow> SignatureChecker \<Rightarrow> verify_error + valtype list" where
  "eval_true ctx stk script flags checker =
     (case EvalScript ctx stk script flags checker BASE of
        Inl e \<Rightarrow> Inl (ScriptErr e)
      | Inr (stk', _) \<Rightarrow>
          if stk' = [] then Inl (ScriptErr SCRIPT_ERR_EVAL_FALSE)
          else if \<not> CastToBool (hd stk') then Inl (ScriptErr SCRIPT_ERR_EVAL_FALSE)
          else Inr stk')"

definition verify_witness ::
  "secp256k1 \<Rightarrow> CScript \<Rightarrow> bool \<Rightarrow> ScriptError \<Rightarrow> valtype list \<Rightarrow> u32 \<Rightarrow> SignatureChecker \<Rightarrow>
   valtype list \<times> bool \<Rightarrow> verify_error + valtype list \<times> bool" where
  "verify_witness ctx script malleated malleated_error witness flags checker st =
     (if flags AND SCRIPT_VERIFY_WITNESS \<noteq> 0 then
        case IsWitnessProgram script of
          None \<Rightarrow> Inr st
        | Some (witnessversion, witnessprogram) \<Rightarrow>
            if malleated then Inl (ScriptErr malleated_error)
            else
              case VerifyWitnessProgram ctx witness witnessversion witnessprogram flags checker of
                Inl e \<Rightarrow> Inl (ScriptErr e)
              | Inr _ \<Rightarrow> Inr (resize1 (fst st), True)
      else Inr st)"

definition verify_p2sh ::
  "secp256k1 \<Rightarrow> CScript \<Rightarrow> CScript \<Rightarrow> valtype list \<Rightarrow> u32 \<Rightarrow> SignatureChecker \<Rightarrow> valtype list \<Rightarrow>
   valtype list \<times> bool \<Rightarrow> verify_error + valtype list \<times> bool" where
  "verify_p2sh ctx sigScript pubKeyScript witness flags checker stackCopy st =
     (if flags AND SCRIPT_VERIFY_P2SH \<noteq> 0 \<and> IsPayToScriptHash pubKeyScript then
        if \<not> IsPushOnly sigScript then Inl (ScriptErr SCRIPT_ERR_SIG_PUSHONLY)
        else case stackCopy of
          [] \<Rightarrow> Inl AssertFail
        | pubKey2 # stk \<Rightarrow>
            bindE (eval_true ctx stk pubKey2 flags checker)
              (\<lambda>stk'. verify_witness ctx pubKey2 (sigScript \<noteq> push_vch [] pubKey2)
                 SCRIPT_ERR_WITNESS_MALLEATED_P2SH witness flags checker (stk', snd st))
      else Inr st)"

definition verify_end :: "valtype list \<Rightarrow> u32 \<Rightarrow> valtype list \<times> bool \<Rightarrow> verify_error + unit" where
  "verify_end witness flags st =
     (if flags AND SCRIPT_VERIFY_CLEANSTACK \<noteq> 0 \<and>
         (flags AND SCRIPT_VERIFY_P2SH = 0 \<or> flags AND SCRIPT_VERIFY_WITNESS = 0) then Inl AssertFail
      else if flags AND SCRIPT_VERIFY_CLEANSTACK \<noteq> 0 \<and> length (fst st) \<noteq> 1
      then Inl (ScriptErr SCRIPT_ERR_CLEANSTACK)
      else if flags AND SCRIPT_VERIFY_WITNESS \<noteq> 0 \<and> flags AND SCRIPT_VERIFY_P2SH = 0 then Inl AssertFail
      else if flags AND SCRIPT_VERIFY_WITNESS \<noteq> 0 \<and> \<not> snd st \<and> witness \<noteq> []
      then Inl (ScriptErr SCRIPT_ERR_WITNESS_UNEXPECTED)
      else Inr ())"

definition VerifyScript ::
  "secp256k1 \<Rightarrow> CScript \<Rightarrow> CScript \<Rightarrow> valtype list \<Rightarrow> u32 \<Rightarrow> SignatureChecker \<Rightarrow> verify_error + unit" where
  "VerifyScript ctx sigScript pubKeyScript witness flags checker =
     (if flags AND SCRIPT_VERIFY_SIGPUSHONLY \<noteq> 0 \<and> \<not> IsPushOnly sigScript
      then Inl (ScriptErr SCRIPT_ERR_SIG_PUSHONLY)
      else case EvalScript ctx [] sigScript flags checker BASE of
        Inl e \<Rightarrow> Inl (ScriptErr e)
      | Inr (stackCopy, _) \<Rightarrow>
          bindE (eval_true ctx stackCopy pubKeyScript flags checker)
            (\<lambda>stk. bindE (verify_witness ctx pubKeyScript (sigScript \<noteq> [])
                SCRIPT_ERR_WITNESS_MALLEATED witness flags checker (stk, False))
              (\<lambda>st. bindE (verify_p2sh ctx sigScript pubKeyScript witness flags checker stackCopy st)
                (verify_end witness flags))))"

definition WitnessSigOps :: "int \<Rightarrow> valtype \<Rightarrow> valtype list \<Rightarrow> nat" where
  "WitnessSigOps witversion witprogram witness =
     (if witversion = 0 \<and> length witprogram = WITNESS_V0_KEYHASH_SIZE then 1
      else if witversion = 0 \<and> length witprogram = WITNESS_V0_SCRIPTHASH_SIZE \<and> witness \<noteq> []
      then GetSigOpCount (last witness) True
      else 0)"

function last_data :: "valtype \<Rightarrow> byte list \<Rightarrow> valtype" where
  "last_data data pc =
     (if pc = [] then data
      else case GetScriptOp pc of (_, _, vch, pc') \<Rightarrow> last_data vch pc')"
  by pat_completeness auto
termination
  by (relation "measure (\<lambda>(_, pc). length pc)") (auto dest: GetScriptOp_shorter [OF sym])

declare last_data.simps [simp del]

definition CountWitnessSigOps :: "CScript \<Rightarrow> CScript \<Rightarrow> valtype list \<Rightarrow> u32 \<Rightarrow> nat option" where
  "CountWitnessSigOps sigScript pubKeyScript witness flags =
     (if flags AND SCRIPT_VERIFY_WITNESS = 0 then Some 0
      else if flags AND SCRIPT_VERIFY_P2SH = 0 then None
      else case IsWitnessProgram pubKeyScript of
        Some (witnessversion, witnessprogram) \<Rightarrow>
          Some (WitnessSigOps witnessversion witnessprogram witness)
      | None \<Rightarrow>
          if IsPayToScriptHash pubKeyScript \<and> IsPushOnly sigScript then
            case IsWitnessProgram (last_data [] sigScript) of
              Some (witnessversion, witnessprogram) \<Rightarrow>
                Some (WitnessSigOps witnessversion witnessprogram witness)
            | None \<Rightarrow> Some 0
          else Some 0)"

section \<open>Running the standard scripts\<close>

lemmas verify_run = VerifyScript_def eval_true_def verify_witness_def verify_p2sh_def verify_end_def
  IsPayToScriptHash_def script_run

lemma fExec_of_Nil: "vfExec st = [] \<Longrightarrow> fExec_of st"
  by (simp add: fExec_of_def)

lemma eval_loop_push:
  assumes "length b \<le> MAX_SCRIPT_ELEMENT_SIZE" "vfExec st = []"
    "length (stack st) + length (altstack st) < MAX_STACK_SIZE"
    "\<not> (has_flag env SCRIPT_VERIFY_MINIMALDATA \<and> \<not> CheckMinimalPush b (push_op b))"
  shows "eval_loop env (push_vch [] b @ rest) st = eval_loop env rest (st\<lparr>stack := b # stack st\<rparr>)"
proof -
  have "push_op b \<le> 78" "\<not> disabled_opcode (push_op b)" "push_op b \<noteq> 171"
    by (auto simp: push_op_def disabled_opcode_def)
  then show ?thesis
    using assms GetScriptOp_push_vch [of b rest] fExec_of_Nil [of st]
    by (auto simp: eval_loop_step eval_op_eq eval_body_def count_op_def check_stack_size_def)
qed

lemma eval_loop_opcode:
  assumes "OP_16 < opcode" "opcode < 256" "\<not> disabled_opcode opcode" "opcode \<noteq> OP_CODESEPARATOR"
    "vfExec st = []" "nOpCount st < MAX_OPS_PER_SCRIPT"
  shows "eval_loop env (of_nat opcode # rest) st =
    bindE (bindE (exec_op env opcode rest True (count_op opcode st)) check_stack_size)
      (\<lambda>r. case r of ReturnTrue stk \<Rightarrow> Inr (stk, SCRIPT_ERR_UNKNOWN_ERROR)
                   | Next st' \<Rightarrow> eval_loop env rest st')"
  using assms GetScriptOp_opcode [of opcode rest]
  by (simp add: eval_loop_step eval_op_eq eval_body_def fExec_of_Nil)

lemma exec_op_simps:
  "exec_op env OP_DUP pc fExec st = bindE (op_DUP st) (\<lambda>st. Inr (Next st))"
  "exec_op env OP_HASH160 pc fExec st = bindE (op_hash OP_HASH160 st) (\<lambda>st. Inr (Next st))"
  "exec_op env OP_EQUAL pc fExec st = bindE (op_EQUAL OP_EQUAL st) (\<lambda>st. Inr (Next st))"
  "exec_op env OP_EQUALVERIFY pc fExec st = bindE (op_EQUAL OP_EQUALVERIFY st) (\<lambda>st. Inr (Next st))"
  "exec_op env OP_CHECKSIG pc fExec st = bindE (op_CHECKSIG env OP_CHECKSIG st) (\<lambda>st. Inr (Next st))"
  by (simp_all add: exec_op_def exec_control_op_def exec_stack_op_def exec_data_op_def)

lemma CheckMinimalPush_hash:
  "length h = 20 \<or> length h = 32 \<Longrightarrow> CheckMinimalPush h (push_op h)"
  by (auto simp: CheckMinimalPush_def push_op_def)

lemma script_hash_HASH160: "script_hash OP_HASH160 = Hash160"
  by (rule ext) (simp add: script_hash_def Hash160_def)

lemma op_step_pass:
  assumes "exec_op env opcode rest True (count_op opcode st) = Inr (Next st')"
    "length (stack st') + length (altstack st') \<le> MAX_STACK_SIZE"
    "OP_16 < opcode" "opcode < 256" "\<not> disabled_opcode opcode" "opcode \<noteq> OP_CODESEPARATOR"
    "vfExec st = []" "nOpCount st < MAX_OPS_PER_SCRIPT"
  shows "eval_loop env (of_nat opcode # rest) st = eval_loop env rest st'"
  using assms by (simp add: eval_loop_opcode check_stack_size_def)

lemma op_step_fail:
  assumes "exec_op env opcode rest True (count_op opcode st) = Inl e"
    "OP_16 < opcode" "opcode < 256" "\<not> disabled_opcode opcode" "opcode \<noteq> OP_CODESEPARATOR"
    "vfExec st = []" "nOpCount st < MAX_OPS_PER_SCRIPT"
  shows "eval_loop env (of_nat opcode # rest) st = Inl e"
  using assms by (simp add: eval_loop_opcode)

lemma standard_opcodes:
  "\<not> disabled_opcode OP_DUP" "\<not> disabled_opcode OP_HASH160" "\<not> disabled_opcode OP_EQUAL"
  "\<not> disabled_opcode OP_EQUALVERIFY" "\<not> disabled_opcode OP_CHECKSIG"
  by (simp_all add: disabled_opcode_def)

lemma op_CHECKSIG_D:
  assumes "op_CHECKSIG env OP_CHECKSIG st = Inr st'" "stack st = pk # sig # rest"
  shows "\<exists>b. st' = st\<lparr>stack := bool_vch b # rest\<rparr>"
  using assms by (auto simp: op_CHECKSIG_def Let_def split: if_splits)

lemma eval_CHECKSIG_end:
  assumes "stack st = pk # sig # rest" "altstack st = []" "vfExec st = []"
    "nOpCount st < MAX_OPS_PER_SCRIPT" "length rest < MAX_STACK_SIZE"
  shows "eval_loop env [of_nat OP_CHECKSIG] st =
    bindE (op_CHECKSIG env OP_CHECKSIG (count_op OP_CHECKSIG st)) (\<lambda>st. Inr (stack st, SCRIPT_ERR_OK))"
proof (cases "op_CHECKSIG env OP_CHECKSIG (count_op OP_CHECKSIG st)")
  case (Inl e)
  then show ?thesis
    using op_step_fail [of env "OP_CHECKSIG" "[]" st e] assms
    by (simp add: exec_op_simps standard_opcodes)
next
  case (Inr st')
  moreover obtain b where "st' = (count_op OP_CHECKSIG st)\<lparr>stack := bool_vch b # rest\<rparr>"
    using op_CHECKSIG_D [OF Inr] assms(1) by auto
  ultimately show ?thesis
    using op_step_pass [of env "OP_CHECKSIG" "[]" st st'] assms
    by (simp add: exec_op_simps standard_opcodes eval_loop_Nil)
qed

abbreviation (input) env_of :: "secp256k1 \<Rightarrow> u32 \<Rightarrow> SignatureChecker \<Rightarrow> SigVersion \<Rightarrow> eval_env" where
  "env_of ctx flags checker ver \<equiv>
     \<lparr>e_ctx = ctx, e_flags = flags, e_checker = checker, e_sigversion = ver\<rparr>"

lemma eval_loop_p2pkh:
  assumes "length h = 20" "length rest + 4 \<le> MAX_STACK_SIZE"
    and st: "st = \<lparr>stack = pk # sig # rest, altstack = [], vfExec = [], nOpCount = 0, pbegincodehash = code\<rparr>"
  shows "eval_loop env (of_nat OP_DUP # of_nat OP_HASH160 # push_vch [] h @
        [of_nat OP_EQUALVERIFY, of_nat OP_CHECKSIG]) st =
    (if Hash160 pk \<noteq> h then Inl SCRIPT_ERR_EQUALVERIFY
     else bindE (op_CHECKSIG env OP_CHECKSIG (st\<lparr>nOpCount := 4\<rparr>)) (\<lambda>st. Inr (stack st, SCRIPT_ERR_OK)))"
    (is "eval_loop env (_ # ?s1) st = ?R")
proof -
  let ?s3 = "[of_nat OP_EQUALVERIFY, of_nat OP_CHECKSIG] :: byte list"
  let ?s2 = "push_vch [] h @ ?s3"
  let ?st1 = "st\<lparr>stack := pk # pk # sig # rest, nOpCount := 1\<rparr>"
  let ?st2 = "st\<lparr>stack := Hash160 pk # pk # sig # rest, nOpCount := 2\<rparr>"
  let ?st3 = "st\<lparr>stack := h # Hash160 pk # pk # sig # rest, nOpCount := 2\<rparr>"
  let ?st4 = "st\<lparr>nOpCount := 3\<rparr>"
  have "eval_loop env (of_nat OP_DUP # ?s1) st = eval_loop env ?s1 ?st1"
    using assms by (intro op_step_pass) (simp_all add: exec_op_simps op_DUP_def count_op_def standard_opcodes)
  also have "\<dots> = eval_loop env ?s2 ?st2"
    using assms
    by (intro op_step_pass) (simp_all add: exec_op_simps op_hash_def count_op_def standard_opcodes script_hash_HASH160)
  also have "\<dots> = eval_loop env ?s3 ?st3"
    using assms eval_loop_push [of h ?st2 env ?s3] CheckMinimalPush_hash [of h] by simp
  also have "\<dots> = ?R"
  proof (cases "Hash160 pk = h")
    case True
    have "eval_loop env ?s3 ?st3 = eval_loop env [of_nat OP_CHECKSIG] ?st4"
      using assms True
      by (intro op_step_pass) (simp_all add: exec_op_simps op_EQUAL_def count_op_def standard_opcodes)
    also have "\<dots> = ?R"
      using assms True eval_CHECKSIG_end [of ?st4 pk sig rest env] by (simp add: count_op_def)
    finally show ?thesis .
  next
    case False
    then have "eval_loop env ?s3 ?st3 = Inl SCRIPT_ERR_EQUALVERIFY"
      using assms
      by (intro op_step_fail) (simp_all add: exec_op_simps op_EQUAL_def count_op_def standard_opcodes)
    then show ?thesis using False by simp
  qed
  finally show ?thesis .
qed

lemma EvalScript_p2pkh:
  assumes "length h = 20" "length rest + 4 \<le> MAX_STACK_SIZE"
  shows "EvalScript ctx (pk # sig # rest) (p2wpkh_script h) flags checker ver =
    (if Hash160 pk \<noteq> h then Inl SCRIPT_ERR_EQUALVERIFY
     else bindE (op_CHECKSIG (env_of ctx flags checker ver) OP_CHECKSIG
        \<lparr>stack = pk # sig # rest, altstack = [], vfExec = [], nOpCount = 4,
         pbegincodehash = p2wpkh_script h\<rparr>) (\<lambda>st. Inr (stack st, SCRIPT_ERR_OK)))"
proof -
  have p: "p2wpkh_script h = of_nat OP_DUP # of_nat OP_HASH160 # push_vch [] h @
      [of_nat OP_EQUALVERIFY, of_nat OP_CHECKSIG]"
    by (simp add: p2wpkh_script_def push_vch_def)
  then have "length (p2wpkh_script h) \<le> MAX_SCRIPT_SIZE"
    using assms by (simp add: push_vch_def)
  then show ?thesis
    using eval_loop_p2pkh [OF assms refl, of "env_of ctx flags checker ver" pk sig "p2wpkh_script h"]
    unfolding EvalScript_def p by simp
qed

lemma p2sh_bytes: "length h = 20 \<Longrightarrow> [of_nat OP_HASH160, 20] @ h @ [of_nat OP_EQUAL] =
    of_nat OP_HASH160 # push_vch [] h @ [of_nat OP_EQUAL]"
  by (simp add: push_vch_def)


lemma EvalScript_p2sh:
  assumes "length h = 20" "length rest + 2 \<le> MAX_STACK_SIZE"
    and s: "s = [of_nat OP_HASH160, 20] @ h @ [of_nat OP_EQUAL]"
  shows "EvalScript ctx (x # rest) s flags checker ver = Inr (bool_vch (Hash160 x = h) # rest, SCRIPT_ERR_OK)"
proof -
  let ?env = "env_of ctx flags checker ver"
  let ?st = "\<lparr>stack = x # rest, altstack = [], vfExec = [], nOpCount = 0, pbegincodehash = s\<rparr>"
  let ?st1 = "?st\<lparr>stack := Hash160 x # rest, nOpCount := 1\<rparr>"
  let ?st2 = "?st\<lparr>stack := h # Hash160 x # rest, nOpCount := 1\<rparr>"
  let ?st3 = "?st\<lparr>stack := bool_vch (Hash160 x = h) # rest, nOpCount := 2\<rparr>"
  have "eval_loop ?env s ?st = eval_loop ?env (push_vch [] h @ [of_nat OP_EQUAL]) ?st1"
    unfolding s p2sh_bytes [OF assms(1)] using assms(2)
    by (intro op_step_pass)
      (simp_all add: exec_op_simps op_hash_def count_op_def standard_opcodes script_hash_HASH160)
  also have "\<dots> = eval_loop ?env [of_nat OP_EQUAL] ?st2"
    using assms eval_loop_push [of h ?st1 ?env "[of_nat OP_EQUAL]"] CheckMinimalPush_hash [of h] by simp
  also have "\<dots> = eval_loop ?env [] ?st3"
    using assms(2)
    by (intro op_step_pass) (simp_all add: exec_op_simps op_EQUAL_def count_op_def standard_opcodes)
  finally show ?thesis
    using assms(1) by (simp add: EvalScript_def s eval_loop_Nil)
qed

lemma EvalScript_Nil [simp]: "EvalScript ctx stk [] flags checker ver = Inr (stk, SCRIPT_ERR_OK)"
  by (simp add: EvalScript_def eval_loop_Nil)

lemma EvalScript_witness_v0:
  assumes "IsWitnessProgram s = Some (0, program)" "length program = 20 \<or> length program = 32"
  shows "EvalScript ctx [] s flags checker ver = Inr ([program, []], SCRIPT_ERR_OK)"
proof -
  have s: "s = push_vch [] [] @ push_vch [] program @ []"
    using assms by (auto simp: IsWitnessProgram_iff push_vch_def EncodeOP_N_def)
  let ?env = "env_of ctx flags checker ver"
  let ?st = "\<lparr>stack = [], altstack = [], vfExec = [], nOpCount = 0, pbegincodehash = s\<rparr>"
  have "eval_loop ?env s ?st = eval_loop ?env (push_vch [] program @ []) (?st\<lparr>stack := [[]]\<rparr>)"
    using eval_loop_push [of "[]" ?st ?env "push_vch [] program @ []"]
    by (simp add: s CheckMinimalPush_def push_op_def)
  also have "\<dots> = eval_loop ?env [] (?st\<lparr>stack := [program, []]\<rparr>)"
    using assms(2) eval_loop_push [of program "?st\<lparr>stack := [[]]\<rparr>" ?env "[]"] CheckMinimalPush_hash [of program]
    by auto
  finally show ?thesis
    using assms(2) by (auto simp: EvalScript_def eval_loop_Nil push_vch_def s)
qed

section \<open>The assertions of the code\<close>

definition verify_flags_ok :: "u32 \<Rightarrow> bool" where
  "verify_flags_ok flags \<longleftrightarrow>
     (flags AND SCRIPT_VERIFY_CLEANSTACK \<noteq> 0 \<longrightarrow> flags AND SCRIPT_VERIFY_WITNESS \<noteq> 0) \<and>
     (flags AND SCRIPT_VERIFY_WITNESS \<noteq> 0 \<longrightarrow> flags AND SCRIPT_VERIFY_P2SH \<noteq> 0)"


lemma eval_true_InrD:
  "eval_true ctx stk s flags checker = Inr stk' \<Longrightarrow>
     \<exists>e. EvalScript ctx stk s flags checker BASE = Inr (stk', e) \<and> stk' \<noteq> [] \<and> CastToBool (hd stk')"
  by (auto simp: eval_true_def split: sum.splits if_splits)





section \<open>Witness programs\<close>

lemma witness_program_not_p2sh: "IsWitnessProgram s = Some (0, program) \<Longrightarrow> \<not> IsPayToScriptHash s"
  by (auto simp: IsWitnessProgram_iff IsPayToScriptHash_def EncodeOP_N_def)

lemma IsPushOnly_Nil [simp]: "IsPushOnly []"
  by (simp add: IsPushOnly_iff)

lemma VerifyScript_witness_v0:
  assumes "flags AND SCRIPT_VERIFY_WITNESS \<noteq> 0" "flags AND SCRIPT_VERIFY_P2SH \<noteq> 0"
    and w: "IsWitnessProgram pubKeyScript = Some (0, program)" "length program = 20 \<or> length program = 32"
  shows "VerifyScript ctx sigScript pubKeyScript witness flags checker = Inr () \<longleftrightarrow>
    sigScript = [] \<and> CastToBool program \<and>
    (\<exists>e. VerifyWitnessProgram ctx witness 0 program flags checker = Inr e)"
proof (cases "sigScript = []")
  case False
  then show ?thesis
    using assms by (auto simp: VerifyScript_def verify_witness_def split: sum.splits)
next
  case True
  have "eval_true ctx [] pubKeyScript flags checker =
      (if CastToBool program then Inr [program, []] else Inl (ScriptErr SCRIPT_ERR_EVAL_FALSE))"
    by (simp add: eval_true_def EvalScript_witness_v0 [OF w])
  then show ?thesis
    using assms True witness_program_not_p2sh [OF w(1)]
    by (auto simp: VerifyScript_def verify_witness_def verify_p2sh_def verify_end_def resize1_def
        split: sum.splits)
qed

lemma run_witness_iff:
  "run_witness ctx stk s flags checker = Inr e \<longleftrightarrow>
     (\<forall>x \<in> set stk. length x \<le> MAX_SCRIPT_ELEMENT_SIZE) \<and>
     (\<exists>x. EvalScript ctx stk s flags checker WITNESS_V0 = Inr ([x], e) \<and> CastToBool x)"
  by (cases "EvalScript ctx stk s flags checker WITNESS_V0")
    (auto simp: run_witness_def list_ex_iff not_le length_Suc_conv split: if_splits)

lemma CastToBool_bool_vch [simp]: "CastToBool (bool_vch b) = b"
  by (cases b) (simp_all add: bool_vch_def)

lemma op_CHECKSIG_result:
  assumes "stack st = pk # sig # rest"
  shows "(\<exists>st'. op_CHECKSIG env OP_CHECKSIG st = Inr st' \<and> stack st' = stk \<and> CastToBool (hd stk)) \<longleftrightarrow>
    stk = vchTrue # rest \<and>
    (\<exists>code. drop_signature env (pbegincodehash st) sig = Inr code \<and>
       check_encodings env sig pk = Inr () \<and> CheckSig (e_checker env) sig pk code (e_sigversion env))"
  using assms
  by (cases "drop_signature env (pbegincodehash st) sig"; cases "check_encodings env sig pk")
    (auto simp: op_CHECKSIG_def Let_def bool_vch_def)

text \<open>
  C12: a spend of a version 0 key hash program succeeds exactly if the script is empty, the program is
  not zero, the witness is a signature and a key that hashes to the program, both well encoded, and
  the signature verifies against the implied script.
\<close>
theorem VerifyScript_P2WPKH:
  assumes flags: "flags AND SCRIPT_VERIFY_WITNESS \<noteq> 0" "flags AND SCRIPT_VERIFY_P2SH \<noteq> 0"
    and w: "IsWitnessProgram pubKeyScript = Some (0, program)" "length program = 20"
  shows "VerifyScript ctx sigScript pubKeyScript witness flags checker = Inr () \<longleftrightarrow>
    sigScript = [] \<and> CastToBool program \<and>
    (\<exists>sig pk. witness = [sig, pk] \<and> length sig \<le> MAX_SCRIPT_ELEMENT_SIZE \<and>
       length pk \<le> MAX_SCRIPT_ELEMENT_SIZE \<and> Hash160 pk = program \<and>
       check_encodings (env_of ctx flags checker WITNESS_V0) sig pk = Inr () \<and>
       CheckSig checker sig pk (p2wpkh_script program) WITNESS_V0)"
proof -
  let ?env = "env_of ctx flags checker WITNESS_V0"
  have run: "(\<exists>e. run_witness ctx [pk, sig] (p2wpkh_script program) flags checker = Inr e) \<longleftrightarrow>
      length sig \<le> MAX_SCRIPT_ELEMENT_SIZE \<and> length pk \<le> MAX_SCRIPT_ELEMENT_SIZE \<and>
      Hash160 pk = program \<and> check_encodings ?env sig pk = Inr () \<and>
      CheckSig checker sig pk (p2wpkh_script program) WITNESS_V0" for sig pk
  proof -
    let ?st = "\<lparr>stack = [pk, sig], altstack = [], vfExec = [], nOpCount = 4,
      pbegincodehash = p2wpkh_script program\<rparr>"
    have "drop_signature ?env (p2wpkh_script program) sig = Inr (p2wpkh_script program)"
      by (simp add: drop_signature_def)
    then have "(\<exists>st' x. op_CHECKSIG ?env OP_CHECKSIG ?st = Inr st' \<and> stack st' = [x] \<and> CastToBool x) \<longleftrightarrow>
        check_encodings ?env sig pk = Inr () \<and> CheckSig checker sig pk (p2wpkh_script program) WITNESS_V0"
      using op_CHECKSIG_result [of ?st pk sig "[]" ?env "[vchTrue]"]
        op_CHECKSIG_result [of ?st pk sig "[]" ?env "[x]" for x]
      by auto
    then show ?thesis
      using EvalScript_p2pkh [OF w(2), of "[]" ctx pk sig flags checker WITNESS_V0]
      by (auto simp: run_witness_iff)
  qed
  have "(\<exists>e. VerifyWitnessProgram ctx witness 0 program flags checker = Inr e) \<longleftrightarrow>
      (\<exists>sig pk e. witness = [sig, pk] \<and> run_witness ctx [pk, sig] (p2wpkh_script program) flags checker = Inr e)"
    using w(2) by (auto simp: VerifyWitnessProgram_def length_Suc_conv numeral_2_eq_2)
  then show ?thesis
    using VerifyScript_witness_v0 [OF flags w(1)] w(2) run by auto
qed

theorem VerifyScript_P2WPKH_witness:
  "VerifyScript secp256k1_reject [] ([0, 20] @ replicate 20 1) [[3], [2]] 0x801 BaseSignatureChecker \<noteq> Inr ()"
  using VerifyScript_P2WPKH [of "0x801" "[0, 20] @ replicate 20 1" "replicate 20 1" secp256k1_reject "[]"
      "[[3], [2]]" BaseSignatureChecker]
  by (simp add: IsWitnessProgram_def DecodeOP_N_def BaseSignatureChecker_def)

text \<open>
  C13: a spend of a version 0 script hash program succeeds exactly if the script is empty, the program
  is not zero, and the last witness item hashes to the program and, run on the other items, leaves
  exactly one true element.
\<close>
theorem VerifyScript_P2WSH:
  assumes flags: "flags AND SCRIPT_VERIFY_WITNESS \<noteq> 0" "flags AND SCRIPT_VERIFY_P2SH \<noteq> 0"
    and w: "IsWitnessProgram pubKeyScript = Some (0, program)" "length program = 32"
  shows "VerifyScript ctx sigScript pubKeyScript witness flags checker = Inr () \<longleftrightarrow>
    sigScript = [] \<and> CastToBool program \<and> witness \<noteq> [] \<and> sha256 (last witness) = program \<and>
    (\<forall>x \<in> set (butlast witness). length x \<le> MAX_SCRIPT_ELEMENT_SIZE) \<and>
    (\<exists>x e. EvalScript ctx (rev (butlast witness)) (last witness) flags checker WITNESS_V0 = Inr ([x], e) \<and>
       CastToBool x)"
  using VerifyScript_witness_v0 [OF flags w(1)] w(2)
  by (auto simp: VerifyWitnessProgram_def run_witness_iff sha256.fin_once split: if_splits)

theorem VerifyScript_P2WSH_witness:
  "VerifyScript secp256k1_reject [] ([0, 32] @ replicate 32 1) [] 0x801 BaseSignatureChecker \<noteq> Inr ()"
  using VerifyScript_P2WSH [of "0x801" "[0, 32] @ replicate 32 1" "replicate 32 1" secp256k1_reject "[]"
      "[]" BaseSignatureChecker]
  by (simp add: IsWitnessProgram_def DecodeOP_N_def)

section \<open>Script hashes\<close>

lemma eval_loop_push_full:
  assumes "length b \<le> MAX_SCRIPT_ELEMENT_SIZE" "vfExec st = []"
    "length (stack st) + length (altstack st) = MAX_STACK_SIZE" "CheckMinimalPush b (push_op b)"
  shows "eval_loop env (push_vch [] b @ rest) st = Inl SCRIPT_ERR_STACK_SIZE"
proof -
  have "push_op b \<le> 78" "\<not> disabled_opcode (push_op b)" "push_op b \<noteq> 171"
    by (auto simp: push_op_def disabled_opcode_def)
  then show ?thesis
    using assms GetScriptOp_push_vch [of b rest] fExec_of_Nil [of st]
    by (auto simp: eval_loop_step eval_op_eq eval_body_def count_op_def check_stack_size_def)
qed

lemma EvalScript_p2sh_full:
  assumes "IsPayToScriptHash s" "length rest + 2 > MAX_STACK_SIZE"
  shows "EvalScript ctx (x # rest) s flags checker ver = Inl SCRIPT_ERR_STACK_SIZE"
proof -
  obtain h where h: "length h = 20" "s = of_nat OP_HASH160 # push_vch [] h @ [of_nat OP_EQUAL]"
    using assms p2sh_bytes by (auto simp: IsPayToScriptHash_iff)
  let ?env = "env_of ctx flags checker ver"
  let ?st = "\<lparr>stack = x # rest, altstack = [], vfExec = [], nOpCount = 0, pbegincodehash = s\<rparr>"
  let ?st1 = "?st\<lparr>stack := Hash160 x # rest, nOpCount := 1\<rparr>"
  have ex: "exec_op ?env OP_HASH160 pc True (count_op OP_HASH160 ?st) = Inr (Next ?st1)" for pc
    by (simp add: exec_op_simps op_hash_def count_op_def script_hash_HASH160)
  have "eval_loop ?env s ?st = Inl SCRIPT_ERR_STACK_SIZE"
  proof (cases "length rest + 1 = MAX_STACK_SIZE")
    case True
    then have "eval_loop ?env s ?st = eval_loop ?env (push_vch [] h @ [of_nat OP_EQUAL]) ?st1"
      unfolding h(2) using ex by (intro op_step_pass) (simp_all add: h(2) standard_opcodes)
    also have "\<dots> = Inl SCRIPT_ERR_STACK_SIZE"
      using True h(1) CheckMinimalPush_hash [of h] by (intro eval_loop_push_full) simp_all
    finally show ?thesis .
  next
    case False
    then show ?thesis
      using assms(2) ex [of "push_vch [] h @ [of_nat OP_EQUAL]"] standard_opcodes(2)
        eval_loop_opcode [of OP_HASH160 ?st ?env "push_vch [] h @ [of_nat OP_EQUAL]"] h(2)
      by (simp add: check_stack_size_def)
  qed
  moreover have "length s \<le> MAX_SCRIPT_SIZE" using h by (simp add: push_vch_def)
  ultimately show ?thesis by (simp add: EvalScript_def)
qed

text \<open>
  C14: a spend of a script hash that succeeds has only pushes in its script, provides a script with
  that hash, and that script has evaluated to true on the remaining elements; a witness is accepted only
  for a script that is a witness program pushed alone.
\<close>
theorem VerifyScript_P2SH:
  assumes "VerifyScript ctx sigScript pubKeyScript witness flags checker = Inr ()"
    and "flags AND SCRIPT_VERIFY_P2SH \<noteq> 0" "length h = 20"
    and spk: "pubKeyScript = [of_nat OP_HASH160, 20] @ h @ [of_nat OP_EQUAL]"
  shows "IsPushOnly sigScript \<and>
    (\<exists>redeem rest e stk. EvalScript ctx [] sigScript flags checker BASE = Inr (redeem # rest, e) \<and>
       Hash160 redeem = h \<and> eval_true ctx rest redeem flags checker = Inr stk \<and>
       (flags AND SCRIPT_VERIFY_WITNESS \<noteq> 0 \<and> witness \<noteq> [] \<longrightarrow>
          sigScript = push_vch [] redeem \<and>
          (\<exists>version program e. IsWitnessProgram redeem = Some (version, program) \<and>
             VerifyWitnessProgram ctx witness version program flags checker = Inr e)))"
proof -
  have p2sh: "IsPayToScriptHash pubKeyScript" using assms(3) spk by (auto simp: IsPayToScriptHash_iff)
  have nw: "IsWitnessProgram pubKeyScript = None"
    using spk by (simp add: IsWitnessProgram_def)
  obtain copy e stk st st' where ev: "EvalScript ctx [] sigScript flags checker BASE = Inr (copy, e)"
    and t: "eval_true ctx copy pubKeyScript flags checker = Inr stk"
    and p: "verify_p2sh ctx sigScript pubKeyScript witness flags checker copy (stk, False) = Inr st'"
    and fin: "verify_end witness flags st' = Inr ()"
    using assms(1) by (auto simp: VerifyScript_def verify_witness_def nw split: if_splits sum.splits)
  obtain redeem rest stk' where push: "IsPushOnly sigScript" and copy: "copy = redeem # rest"
    and r: "eval_true ctx rest redeem flags checker = Inr stk'"
    and w: "verify_witness ctx redeem (sigScript \<noteq> push_vch [] redeem) SCRIPT_ERR_WITNESS_MALLEATED_P2SH
      witness flags checker (stk', False) = Inr st'"
    using p p2sh assms(2) by (auto simp: verify_p2sh_def split: if_splits list.splits)
  have "Hash160 redeem = h"
  proof (cases "length rest + 2 \<le> MAX_STACK_SIZE")
    case True
    then show ?thesis
      using eval_true_InrD [OF t] EvalScript_p2sh [OF assms(3) True spk] copy by auto
  next
    case False
    then show ?thesis
      using eval_true_InrD [OF t] EvalScript_p2sh_full copy p2sh by fastforce
  qed
  then show ?thesis
    using push ev copy r w fin
    by (auto simp: verify_witness_def verify_end_def split: if_splits option.splits sum.splits)
qed

theorem VerifyScript_P2SH_witness:
  "IsPushOnly [2, 0x51, 0x51]"
proof -
  let ?h = "Hash160 [0x51, 0x51]"
  let ?s = "[of_nat OP_HASH160, 20] @ ?h @ [of_nat OP_EQUAL]"
  have e: "EvalScript secp256k1_reject [] [2, 0x51, 0x51] 1 BaseSignatureChecker BASE = Inr ([[0x51, 0x51]], SCRIPT_ERR_OK)"
    "EvalScript secp256k1_reject [] [0x51, 0x51] 1 BaseSignatureChecker BASE = Inr ([[1], [1]], SCRIPT_ERR_OK)"
    by (simp_all add: script_run ScriptNum_serialize_1)
  have h: "length ?h = 20" by (simp add: length_Hash160)
  have "EvalScript secp256k1_reject [[0x51, 0x51]] ?s 1 BaseSignatureChecker BASE = Inr ([[1]], SCRIPT_ERR_OK)"
    using EvalScript_p2sh [OF h, of "[]" ?s] by (simp add: bool_vch_def)
  moreover have "IsPayToScriptHash ?s" using h by (auto simp: IsPayToScriptHash_iff)
  ultimately have "VerifyScript secp256k1_reject [2, 0x51, 0x51] ?s [] 1 BaseSignatureChecker = Inr ()"
    using e by (simp add: VerifyScript_def eval_true_def verify_witness_def verify_p2sh_def verify_end_def
      IsPushOnly.simps GetScriptOp_def push_size_def)
  from VerifyScript_P2SH [OF this _ h] show ?thesis by simp
qed

section \<open>Key hashes\<close>

lemma script_ops_p2pkh:
  assumes "length h = 20"
  shows "script_ops (p2wpkh_script h) =
    ([(OP_DUP, []), (OP_HASH160, []), (20, h), (OP_EQUALVERIFY, []), (OP_CHECKSIG, [])], True)"
proof -
  let ?ops = "[(OP_DUP, []), (OP_HASH160, []), (20, h), (OP_EQUALVERIFY, []), (OP_CHECKSIG, [])]"
  have "p2wpkh_script h = ops_bytes ?ops"
    using assms by (simp add: p2wpkh_script_def push_vch_def op_bytes_def op_size_bytes_def)
  moreover have "\<forall>x \<in> set ?ops. op_ok x"
    using assms by (simp add: op_ok_def)
  ultimately show ?thesis
    using script_ops_ops_bytes [of ?ops "[]"] by simp
qed

lemma FindAndDelete_none: "fst (FindAndDelete s b) = 0 \<Longrightarrow> snd (FindAndDelete s b) = s"
  by (auto simp: FindAndDelete_def split: prod.splits if_splits)

lemma drop_signature_p2pkh:
  assumes "length h = 20" "sig \<noteq> h" "length sig < 2 ^ 32"
  shows "drop_signature env (p2wpkh_script h) sig = Inr (p2wpkh_script h)"
proof -
  have x: "push_vch [] sig = op_bytes (push_op sig, sig)" "op_ok (push_op sig, sig)"
    using push_vch_op_bytes [OF assms(3)] by auto
  have "push_op sig \<le> 78" by (simp add: push_op_def)
  then have ops: "filter (\<lambda>y. y = (push_op sig, sig)) (fst (script_ops (p2wpkh_script h))) = []"
    using assms(1,2) by (auto simp: script_ops_p2pkh)
  have c: "fst (FindAndDelete (p2wpkh_script h) (push_vch [] sig)) = 0"
    using FindAndDelete_op(1) [OF x(2), of "p2wpkh_script h"] ops x(1) by simp
  then have "snd (FindAndDelete (p2wpkh_script h) (push_vch [] sig)) = p2wpkh_script h"
    by (rule FindAndDelete_none)
  then show ?thesis
    using c by (simp add: drop_signature_def split_beta)
qed


lemma CheckMinimalPush_long: "2 \<le> length b \<Longrightarrow> length b \<le> 65535 \<Longrightarrow> CheckMinimalPush b (push_op b)"
  by (auto simp: CheckMinimalPush_def push_op_def)

lemma EvalScript_two_pushes:
  assumes "2 \<le> length a" "length a \<le> 520" "2 \<le> length b" "length b \<le> 520"
  shows "EvalScript ctx [] (push_vch [] a @ push_vch [] b) flags checker ver = Inr ([b, a], SCRIPT_ERR_OK)"
proof -
  let ?env = "env_of ctx flags checker ver"
  let ?st = "\<lparr>stack = [], altstack = [], vfExec = [], nOpCount = 0,
    pbegincodehash = push_vch [] a @ push_vch [] b\<rparr>"
  have "eval_loop ?env (push_vch [] a @ push_vch [] b @ []) ?st =
      eval_loop ?env (push_vch [] b @ []) (?st\<lparr>stack := [a]\<rparr>)"
    using eval_loop_push [of a ?st ?env "push_vch [] b @ []"] CheckMinimalPush_long [of a] assms by simp
  also have "\<dots> = eval_loop ?env [] (?st\<lparr>stack := [b, a]\<rparr>)"
    using eval_loop_push [of b "?st\<lparr>stack := [a]\<rparr>" ?env "[]"] CheckMinimalPush_long [of b] assms by simp
  finally show ?thesis
    using assms by (simp add: EvalScript_def eval_loop_Nil push_vch_def)
qed

lemma IsPushOnly_two_pushes:
  assumes "length a \<le> 520" "length b \<le> 520"
  shows "IsPushOnly (push_vch [] a @ push_vch [] b)"
  using assms script_ops_push_vch [of a "push_vch [] b"] script_ops_push_vch [of b "[]"]
  by (auto simp: IsPushOnly_iff push_op_def)

lemma p2pkh_no_template:
  assumes "length h = 20"
  shows "IsWitnessProgram (p2wpkh_script h) = None" "\<not> IsPayToScriptHash (p2wpkh_script h)"
  using assms by (simp_all add: p2wpkh_script_def push_vch_def IsWitnessProgram_def IsPayToScriptHash_def)

lemma verify_stages_skip:
  "IsWitnessProgram s = None \<Longrightarrow> verify_witness ctx s m e witness flags checker st = Inr st"
  "\<not> IsPayToScriptHash s \<Longrightarrow> verify_p2sh ctx sigScript s witness flags checker copy st = Inr st"
  by (simp_all add: verify_witness_def verify_p2sh_def)

lemma eval_true_iff:
  "eval_true ctx stk s flags checker = Inr stk' \<longleftrightarrow>
     (\<exists>e. EvalScript ctx stk s flags checker BASE = Inr (stk', e)) \<and> stk' \<noteq> [] \<and> CastToBool (hd stk')"
  by (auto simp: eval_true_def split: sum.splits if_splits)

lemma eval_true_p2pkh:
  assumes "length h = 20" "drop_signature (env_of ctx flags checker BASE) (p2wpkh_script h) sig = Inr code"
  shows "eval_true ctx [pk, sig] (p2wpkh_script h) flags checker = Inr stk \<longleftrightarrow>
      stk = [vchTrue] \<and> Hash160 pk = h \<and> check_encodings (env_of ctx flags checker BASE) sig pk = Inr () \<and>
      CheckSig checker sig pk code BASE"
proof -
  let ?env = "env_of ctx flags checker BASE"
  let ?st = "\<lparr>stack = [pk, sig], altstack = [], vfExec = [], nOpCount = 4, pbegincodehash = p2wpkh_script h\<rparr>"
  have "(\<exists>e. EvalScript ctx [pk, sig] (p2wpkh_script h) flags checker BASE = Inr (stk, e)) \<longleftrightarrow>
      Hash160 pk = h \<and> (\<exists>st'. op_CHECKSIG ?env OP_CHECKSIG ?st = Inr st' \<and> stack st' = stk)"
    using EvalScript_p2pkh [OF assms(1), of "[]" ctx pk sig flags checker BASE]
    by (cases "op_CHECKSIG ?env OP_CHECKSIG ?st") auto
  then have "eval_true ctx [pk, sig] (p2wpkh_script h) flags checker = Inr stk \<longleftrightarrow>
      Hash160 pk = h \<and> stk \<noteq> [] \<and>
      (\<exists>st'. op_CHECKSIG ?env OP_CHECKSIG ?st = Inr st' \<and> stack st' = stk \<and> CastToBool (hd stk))"
    by (simp only: eval_true_iff) blast
  also have "\<dots> \<longleftrightarrow> Hash160 pk = h \<and> stk \<noteq> [] \<and> stk = [vchTrue] \<and> check_encodings ?env sig pk = Inr () \<and>
      CheckSig checker sig pk code BASE"
    using op_CHECKSIG_result [of ?st pk sig "[]" ?env stk] assms(2) by simp
  finally show ?thesis by auto
qed

text \<open>
  C15: a key hash output is spent by a signature and a key exactly if the key hashes to it, both are
  well encoded and the signature verifies.
\<close>
theorem VerifyScript_P2PKH:
  assumes flags: "verify_flags_ok flags" and h: "length h = 20"
    and sig: "2 \<le> length sig" "length sig \<le> 520" "sig \<noteq> h" and pk: "2 \<le> length pk" "length pk \<le> 520"
  shows "VerifyScript ctx (push_vch [] sig @ push_vch [] pk) (p2wpkh_script h) [] flags checker = Inr () \<longleftrightarrow>
    Hash160 pk = h \<and> check_encodings (env_of ctx flags checker BASE) sig pk = Inr () \<and>
    CheckSig checker sig pk (p2wpkh_script h) BASE"
proof -
  have "drop_signature (env_of ctx flags checker BASE) (p2wpkh_script h) sig = Inr (p2wpkh_script h)"
    using drop_signature_p2pkh [OF h sig(3)] sig(2) by simp
  note ev = eval_true_p2pkh [OF h this]
  have v: "VerifyScript ctx (push_vch [] sig @ push_vch [] pk) (p2wpkh_script h) [] flags checker =
      bindE (eval_true ctx [pk, sig] (p2wpkh_script h) flags checker)
        (\<lambda>stk. verify_end [] flags (stk, False))"
    using EvalScript_two_pushes [OF sig(1,2) pk, of ctx flags checker BASE]
      IsPushOnly_two_pushes [OF sig(2) pk(2)] p2pkh_no_template [OF h]
    by (simp add: VerifyScript_def verify_stages_skip)
  have "verify_end [] flags ([vchTrue], False) = Inr ()"
    using flags by (auto simp: verify_end_def verify_flags_ok_def)
  then show ?thesis
    unfolding v using ev [of pk "[vchTrue]"] ev [of pk stk for stk]
    by (cases "eval_true ctx [pk, sig] (p2wpkh_script h) flags checker") fastforce+
qed

lemma pair_not_replicate: "[a, b] \<noteq> replicate 20 c"
  by (auto dest: arg_cong [of _ _ length])

theorem VerifyScript_P2PKH_witness:
  "VerifyScript secp256k1_reject (push_vch [] [3, 3] @ push_vch [] [2, 2]) (p2wpkh_script (replicate 20 1)) [] 0x801
     BaseSignatureChecker \<noteq> Inr ()"
  using VerifyScript_P2PKH [of "0x801" "replicate 20 1" "[3, 3]" "[2, 2]" secp256k1_reject BaseSignatureChecker]
  by (simp add: verify_flags_ok_def BaseSignatureChecker_def pair_not_replicate)

end
