(* ===== verification/SoftFork.thy ===== *)
theory SoftFork
  imports VerifyScript
begin

text \<open>
  Every verification flag is a restriction: what verifies under a set of flags verifies, with the
  same stacks, under every subset of them.  This is what makes the rules the flags stand for soft forks.
\<close>

section \<open>Opcodes under fewer flags\<close>

definition sub_flags :: "u32 \<Rightarrow> u32 \<Rightarrow> bool" where
  "sub_flags f g \<longleftrightarrow> f AND g = f"

lemma sub_flagsD: "sub_flags f g \<Longrightarrow> f AND m \<noteq> 0 \<Longrightarrow> g AND m \<noteq> 0"
proof
  assume f: "sub_flags f g" "f AND m \<noteq> 0" and "g AND m = 0"
  then have "(f AND g) AND m = 0" by (simp add: and.assoc)
  with f show False by (simp add: sub_flags_def)
qed

definition sub_env :: "eval_env \<Rightarrow> eval_env \<Rightarrow> bool" where
  "sub_env env' env \<longleftrightarrow>
     e_ctx env' = e_ctx env \<and> e_checker env' = e_checker env \<and> e_sigversion env' = e_sigversion env \<and>
     sub_flags (e_flags env') (e_flags env)"

lemma sub_env_flag: "sub_env env' env \<Longrightarrow> has_flag env' f \<Longrightarrow> has_flag env f"
  using sub_flagsD by (auto simp: sub_env_def has_flag_def)

lemma sub_env_fields:
  "sub_env env' env \<Longrightarrow> e_ctx env' = e_ctx env \<and> e_checker env' = e_checker env \<and> e_sigversion env' = e_sigversion env"
  by (simp add: sub_env_def)

lemma CScriptNum_mono: "CScriptNum vch m k = Inr n \<Longrightarrow> (m' \<longrightarrow> m) \<Longrightarrow> CScriptNum vch m' k = Inr n"
  by (auto simp: CScriptNum_def split: if_splits)

lemma script_num_mono:
  assumes "sub_env env' env" "script_num env vch k = Inr n"
  shows "script_num env' vch k = Inr n"
proof -
  have "CScriptNum vch (has_flag env SCRIPT_VERIFY_MINIMALDATA) k = Inr n"
    using assms(2) by (auto simp: script_num_def split: sum.splits)
  then have "CScriptNum vch (has_flag env' SCRIPT_VERIFY_MINIMALDATA) k = Inr n"
    by (rule CScriptNum_mono) (use sub_env_flag [OF assms(1)] in blast)
  then show ?thesis by (simp add: script_num_def)
qed

lemma CheckSignatureEncoding_mono:
  assumes "sub_flags f g" "CheckSignatureEncoding ctx sig g = Inr ()"
  shows "CheckSignatureEncoding ctx sig f = Inr ()"
proof (cases "sig = []")
  case False
  have "f AND (SCRIPT_VERIFY_DERSIG OR SCRIPT_VERIFY_LOW_S OR SCRIPT_VERIFY_STRICTENC) \<noteq> 0 \<Longrightarrow>
      IsValidSignatureEncoding sig True"
    "f AND SCRIPT_VERIFY_LOW_S \<noteq> 0 \<Longrightarrow> IsLowDERSignature ctx sig True = Inr ()"
    "f AND SCRIPT_VERIFY_STRICTENC \<noteq> 0 \<Longrightarrow> IsDefinedHashtypeSignature sig"
    using assms False sub_flagsD [OF assms(1)]
    by (auto simp: CheckSignatureEncoding_def split: if_splits)
  then show ?thesis
    using False by (auto simp: CheckSignatureEncoding_def)
qed (simp add: CheckSignatureEncoding_def)

lemma CheckPubKeyEncoding_mono:
  "sub_flags f g \<Longrightarrow> CheckPubKeyEncoding pk g ver = Inr () \<Longrightarrow> CheckPubKeyEncoding pk f ver = Inr ()"
  using sub_flagsD [of f g] by (auto simp: CheckPubKeyEncoding_def split: if_splits)

lemma check_encodings_mono:
  "sub_env env' env \<Longrightarrow> check_encodings env sig pk = Inr () \<Longrightarrow> check_encodings env' sig pk = Inr ()"
  by (auto simp: check_encodings_def sub_env_def CheckSignatureEncoding_mono CheckPubKeyEncoding_mono)

lemma drop_signature_mono:
  "sub_env env' env \<Longrightarrow> drop_signature env code sig = Inr code' \<Longrightarrow> drop_signature env' code sig = Inr code'"
  using sub_env_flag [of env' env] sub_env_fields [of env' env]
  by (auto simp: drop_signature_def split: if_splits prod.splits)

lemma drop_signatures_mono:
  "sub_env env' env \<Longrightarrow> drop_signatures env code sigs = Inr code' \<Longrightarrow> drop_signatures env' code sigs = Inr code'"
  by (induction sigs arbitrary: code) (auto dest: drop_signature_mono)

lemma multisig_loop_mono:
  "sub_env env' env \<Longrightarrow> multisig_loop env code sigs keys = Inr b \<Longrightarrow> multisig_loop env' code sigs keys = Inr b"
proof (induction env code sigs keys rule: multisig_loop.induct)
  case (3 env code sig sigs pk keys)
  have e: "check_encodings env sig pk = Inr ()"
    using "3.prems"(2) by (cases "check_encodings env sig pk") auto
  note e' = check_encodings_mono [OF "3.prems"(1) e]
  show ?case
    using "3.IH" [OF e refl refl] "3.prems" e e' sub_env_fields [OF "3.prems"(1)]
    by (auto simp: Let_def split: if_splits)
qed auto

lemma multisig_cleanup_mono:
  "sub_env env' env \<Longrightarrow> multisig_cleanup env b n i stk = Inr stk' \<Longrightarrow> multisig_cleanup env' b n i stk = Inr stk'"
  by (induction n arbitrary: i stk) (auto dest: sub_env_flag split: if_splits)

lemma multisig_finish_mono:
  "sub_env env' env \<Longrightarrow> multisig_finish env opcode b st stk = Inr st' \<Longrightarrow> multisig_finish env' opcode b st stk = Inr st'"
  by (auto simp: multisig_finish_def dest: sub_env_flag split: if_splits list.splits)

lemma multisig_keys_mono:
  "sub_env env' env \<Longrightarrow> multisig_keys env st = Inr r \<Longrightarrow> multisig_keys env' st = Inr r"
  by (auto simp: multisig_keys_def Let_def dest: script_num_mono split: if_splits)

lemma multisig_sigs_mono:
  "sub_env env' env \<Longrightarrow> multisig_sigs env k st = Inr r \<Longrightarrow> multisig_sigs env' k st = Inr r"
  by (auto simp: multisig_sigs_def Let_def dest: script_num_mono split: if_splits)

lemma op_CHECKMULTISIG_mono:
  assumes "sub_env env' env" "op_CHECKMULTISIG env opcode st = Inr st'"
  shows "op_CHECKMULTISIG env' opcode st = Inr st'"
proof -
  obtain k st1 where k: "multisig_keys env st = Inr (k, st1)"
    using assms(2) by (auto simp: op_CHECKMULTISIG_def)
  obtain s where s: "multisig_sigs env k st1 = Inr s"
    using assms(2) k by (auto simp: op_CHECKMULTISIG_def)
  let ?sigs = "take s (drop (k + 2) (stack st1))" and ?keys = "take k (drop 1 (stack st1))"
  obtain code where c: "drop_signatures env (pbegincodehash st1) ?sigs = Inr code"
    using assms(2) k s by (auto simp: op_CHECKMULTISIG_def Let_def)
  obtain b where b: "multisig_loop env code ?sigs ?keys = Inr b"
    using assms(2) k s c by (auto simp: op_CHECKMULTISIG_def Let_def simp del: multisig_loop.simps)
  obtain stk where m: "multisig_cleanup env b (k + s + 2) (k + 2) (stack st1) = Inr stk"
      "multisig_finish env opcode b st1 stk = Inr st'"
    using assms(2) k s c b
    by (auto simp: op_CHECKMULTISIG_def Let_def simp del: multisig_loop.simps multisig_cleanup.simps)
  show ?thesis
    using multisig_keys_mono [OF assms(1) k] multisig_sigs_mono [OF assms(1) s]
      drop_signatures_mono [OF assms(1) c] multisig_loop_mono [OF assms(1) b]
      multisig_cleanup_mono [OF assms(1) m(1)] multisig_finish_mono [OF assms(1) m(2)]
    by (simp add: op_CHECKMULTISIG_def Let_def del: multisig_loop.simps multisig_cleanup.simps)
qed

lemma op_CHECKSIG_mono:
  assumes "sub_env env' env" "op_CHECKSIG env opcode st = Inr st'"
  shows "op_CHECKSIG env' opcode st = Inr st'"
proof -
  obtain pk sig rest where s: "stack st = pk # sig # rest"
    using assms(2) by (auto simp: op_CHECKSIG_def split: list.splits)
  obtain code where c: "drop_signature env (pbegincodehash st) sig = Inr code"
    "check_encodings env sig pk = Inr ()"
    using assms(2) s by (auto simp: op_CHECKSIG_def)
  show ?thesis
    using assms s c drop_signature_mono [OF assms(1) c(1)] check_encodings_mono [OF assms(1) c(2)]
      sub_env_flag [OF assms(1)] sub_env_fields [OF assms(1)]
    by (auto simp: op_CHECKSIG_def Let_def split: if_splits)
qed


lemma op_num_mono:
  assumes "sub_env env' env"
  shows "op_unary_num env opcode st = Inr st' \<Longrightarrow> op_unary_num env' opcode st = Inr st'"
    and "op_WITHIN env st = Inr st' \<Longrightarrow> op_WITHIN env' st = Inr st'"
    and "op_PICK_ROLL env opcode st = Inr st' \<Longrightarrow> op_PICK_ROLL env' opcode st = Inr st'"
  using script_num_mono [OF assms]
  by (auto simp: op_unary_num_def op_WITHIN_def op_PICK_ROLL_def split: list.splits)

lemma op_binary_num_mono:
  assumes "sub_env env' env" "op_binary_num env opcode st = Inr st'"
  shows "op_binary_num env' opcode st = Inr st'"
  using assms(2) script_num_mono [OF assms(1)]
  by (auto simp: op_binary_num_def split: list.splits)

lemma op_locktime_mono:
  assumes "sub_env env' env"
  shows "op_CHECKLOCKTIMEVERIFY env st = Inr st' \<Longrightarrow> op_CHECKLOCKTIMEVERIFY env' st = Inr st'"
    and "op_CHECKSEQUENCEVERIFY env st = Inr st' \<Longrightarrow> op_CHECKSEQUENCEVERIFY env' st = Inr st'"
  using script_num_mono [OF assms] sub_env_flag [OF assms] sub_env_fields [OF assms]
  by (auto simp: op_CHECKLOCKTIMEVERIFY_def op_CHECKSEQUENCEVERIFY_def split: list.splits if_splits)

lemma op_control_mono:
  assumes "sub_env env' env"
  shows "op_NOPx env st = Inr st' \<Longrightarrow> op_NOPx env' st = Inr st'"
    and "op_IF env opcode fExec st = Inr st' \<Longrightarrow> op_IF env' opcode fExec st = Inr st'"
  using sub_env_flag [OF assms] sub_env_fields [OF assms]
  by (auto simp: op_NOPx_def op_IF_def split: list.splits if_splits)

lemma if_mono:
  "(if c then a else b) = y \<Longrightarrow> (c \<Longrightarrow> a = y \<Longrightarrow> a' = y) \<Longrightarrow> (\<not> c \<Longrightarrow> b = y \<Longrightarrow> b' = y) \<Longrightarrow>
     (if c then a' else b') = y"
  by (cases c) auto

lemma exec_control_op_mono:
  assumes "sub_env env' env" "exec_control_op env opcode fExec st = Some (Inr st')"
  shows "exec_control_op env' opcode fExec st = Some (Inr st')"
  using assms(2) unfolding exec_control_op_def
  by (elim if_mono) (simp_all add: op_locktime_mono [OF assms(1)] op_control_mono [OF assms(1)])

lemma exec_stack_op_mono:
  assumes "sub_env env' env" "exec_stack_op env opcode st = Some (Inr st')"
  shows "exec_stack_op env' opcode st = Some (Inr st')"
  using assms(2) unfolding exec_stack_op_def
  by (elim if_mono) (simp_all add: op_num_mono(3) [OF assms(1)])

lemma exec_data_op_mono:
  assumes "sub_env env' env" "exec_data_op env opcode pc st = Some (Inr st')"
  shows "exec_data_op env' opcode pc st = Some (Inr st')"
  using assms(2) unfolding exec_data_op_def
  by (elim if_mono) (simp_all add: op_num_mono(1,2) [OF assms(1)] op_binary_num_mono [OF assms(1)]
      op_CHECKSIG_mono [OF assms(1)] op_CHECKMULTISIG_mono [OF assms(1)])

lemma exec_op_None:
  "exec_control_op env opcode fExec st = None \<longleftrightarrow> exec_control_op env' opcode fExec st = None"
  "exec_stack_op env opcode st = None \<longleftrightarrow> exec_stack_op env' opcode st = None"
  "exec_data_op env opcode pc st = None \<longleftrightarrow> exec_data_op env' opcode pc st = None"
  by (simp_all add: exec_control_op_def exec_stack_op_def exec_data_op_def)

lemma exec_op_mono:
  assumes "sub_env env' env" "exec_op env opcode pc fExec st = Inr r"
  shows "exec_op env' opcode pc fExec st = Inr r"
proof (cases "opcode = OP_SPEND \<or> opcode = OP_CREATE \<or> opcode = OP_CALL")
  case True
  then show ?thesis using assms(2) by (auto simp: exec_op_def)
next
  case False
  then obtain st' where r: "r = Next st'" using assms(2) by (auto simp: exec_op_def)
  show ?thesis
  proof (cases "exec_control_op env opcode fExec st")
    case (Some x)
    then have "x = Inr st'" using assms(2) False r by (auto simp: exec_op_def)
    then show ?thesis
      using exec_control_op_mono [OF assms(1)] Some False r by (simp add: exec_op_def)
  next
    case c: None
    note c' = c [unfolded exec_op_None(1) [of env _ _ _ env']]
    show ?thesis
    proof (cases "exec_stack_op env opcode st")
      case (Some x)
      then have "x = Inr st'" using assms(2) False r c by (auto simp: exec_op_def)
      then show ?thesis
        using exec_stack_op_mono [OF assms(1)] Some False r c' by (simp add: exec_op_def)
    next
      case s: None
      note s' = s [unfolded exec_op_None(2) [of env _ _ env']]
      have "exec_data_op env opcode pc st = Some (Inr st')"
        using assms(2) False r c s by (auto simp: exec_op_def split: option.splits)
      then show ?thesis
        using exec_data_op_mono [OF assms(1)] False r c' s' by (simp add: exec_op_def)
    qed
  qed
qed

section \<open>Scripts under fewer flags\<close>

lemma eval_body_mono:
  assumes "sub_env env' env" "eval_body env opcode vch pc st = Inr r"
  shows "eval_body env' opcode vch pc st = Inr r"
  using assms(2) exec_op_mono [OF assms(1)] sub_env_flag [OF assms(1)]
  unfolding eval_body_def by (auto split: if_splits)

lemma eval_op_mono:
  assumes "sub_env env' env" "eval_op env opcode vch pc st = Inr r"
  shows "eval_op env' opcode vch pc st = Inr r"
proof -
  obtain q where q: "eval_body env opcode vch pc st = Inr q" "check_stack_size q = Inr r"
    using assms(2) by (auto simp: eval_op_eq split: if_splits)
  show ?thesis
    using assms(2) q eval_body_mono [OF assms(1) q(1)] sub_env_flag [OF assms(1)] sub_env_fields [OF assms(1)]
    unfolding eval_op_eq by (auto split: if_splits)
qed

lemma eval_loop_mono:
  assumes "sub_env env' env" "eval_loop env pc st = Inr r"
  shows "eval_loop env' pc st = Inr r"
  using assms(2)
proof (induction pc arbitrary: st rule: script_induct)
  case (Step pc opcode vch pc')
  then obtain q where q: "eval_op env opcode vch pc' st = Inr q"
    by (auto simp: eval_loop_step)
  then show ?case
    using Step eval_op_mono [OF assms(1) q] by (auto simp: eval_loop_step split: eval_result.splits)
qed (simp_all add: eval_loop_fail eval_loop_Nil)

lemma EvalScript_mono:
  assumes "sub_flags f g" "EvalScript ctx stk s g checker ver = Inr r"
  shows "EvalScript ctx stk s f checker ver = Inr r"
proof -
  have "sub_env (env_of ctx f checker ver) (env_of ctx g checker ver)"
    using assms(1) by (simp add: sub_env_def)
  then show ?thesis
    using assms(2) eval_loop_mono unfolding EvalScript_def by (auto split: if_splits)
qed

lemma eval_true_mono:
  "sub_flags f g \<Longrightarrow> eval_true ctx stk s g checker = Inr stk' \<Longrightarrow> eval_true ctx stk s f checker = Inr stk'"
  unfolding eval_true_iff using EvalScript_mono by blast

lemma VerifyWitnessProgram_mono:
  assumes "sub_flags f g" "VerifyWitnessProgram ctx witness version program g checker = Inr e"
  shows "VerifyWitnessProgram ctx witness version program f checker = Inr e"
proof -
  have "run_witness ctx stk s g checker = Inr e \<Longrightarrow> run_witness ctx stk s f checker = Inr e" for stk s
    unfolding run_witness_iff using EvalScript_mono [OF assms(1)] by blast
  then show ?thesis
    using assms(2) sub_flagsD [OF assms(1)] unfolding VerifyWitnessProgram_def by (auto split: if_splits)
qed


lemma verify_witness_mono:
  assumes "sub_flags f g" "verify_witness ctx s m e witness g checker st = Inr st'"
  shows "verify_witness ctx s m e witness f checker st =
    Inr (if f AND SCRIPT_VERIFY_WITNESS \<noteq> 0 then st' else st)"
  using assms(2) sub_flagsD [OF assms(1), of SCRIPT_VERIFY_WITNESS] VerifyWitnessProgram_mono [OF assms(1)]
  by (auto simp: verify_witness_def split: if_splits option.splits sum.splits)

lemma verify_p2sh_mono:
  assumes "sub_flags f g" "verify_p2sh ctx sigScript s witness g checker copy st = Inr st'"
    and "f AND SCRIPT_VERIFY_WITNESS \<noteq> 0 \<longrightarrow> f AND SCRIPT_VERIFY_P2SH \<noteq> 0"
    and st: "st2 = (if f AND SCRIPT_VERIFY_WITNESS \<noteq> 0 then st else st1)"
  shows "\<exists>st''. verify_p2sh ctx sigScript s witness f checker copy st2 = Inr st'' \<and>
    (f AND SCRIPT_VERIFY_WITNESS \<noteq> 0 \<longrightarrow> st'' = st')"
proof (cases "f AND SCRIPT_VERIFY_P2SH \<noteq> 0 \<and> IsPayToScriptHash s")
  case True
  then obtain redeem rest stk where r: "IsPushOnly sigScript" "copy = redeem # rest"
    "eval_true ctx rest redeem g checker = Inr stk"
    "verify_witness ctx redeem (sigScript \<noteq> push_vch [] redeem) SCRIPT_ERR_WITNESS_MALLEATED_P2SH
       witness g checker (stk, snd st) = Inr st'"
    using assms(2) sub_flagsD [OF assms(1)] by (auto simp: verify_p2sh_def split: if_splits list.splits)
  have "\<exists>st''. verify_witness ctx redeem (sigScript \<noteq> push_vch [] redeem) SCRIPT_ERR_WITNESS_MALLEATED_P2SH
       witness f checker (stk, snd st2) = Inr st'' \<and> (f AND SCRIPT_VERIFY_WITNESS \<noteq> 0 \<longrightarrow> st'' = st')"
  proof (cases "f AND SCRIPT_VERIFY_WITNESS \<noteq> 0")
    case w: True
    then show ?thesis using verify_witness_mono [OF assms(1) r(4)] st by simp
  qed (simp add: verify_witness_def)
  then show ?thesis
    using True r(1,2) eval_true_mono [OF assms(1) r(3)] by (simp add: verify_p2sh_def)
next
  case False
  then show ?thesis
    using assms(2,3) st sub_flagsD [OF assms(1), of SCRIPT_VERIFY_P2SH]
    by (cases st2) (auto simp: verify_p2sh_def split: if_splits)
qed

text \<open>
  C1: every flag is a restriction: a spend that verifies under some flags verifies under every
  consistent subset of them.
\<close>
theorem VerifyScript_mono:
  assumes "sub_flags f g" "verify_flags_ok f"
    and "VerifyScript ctx sigScript pubKeyScript witness g checker = Inr ()"
  shows "VerifyScript ctx sigScript pubKeyScript witness f checker = Inr ()"
proof -
  note sub = sub_flagsD [OF assms(1)]
  obtain copy e stk st st' where g: "EvalScript ctx [] sigScript g checker BASE = Inr (copy, e)"
      "eval_true ctx copy pubKeyScript g checker = Inr stk"
      "verify_witness ctx pubKeyScript (sigScript \<noteq> []) SCRIPT_ERR_WITNESS_MALLEATED witness g checker
         (stk, False) = Inr st"
      "verify_p2sh ctx sigScript pubKeyScript witness g checker copy st = Inr st'"
      "verify_end witness g st' = Inr ()"
    and push: "g AND SCRIPT_VERIFY_SIGPUSHONLY \<noteq> 0 \<longrightarrow> IsPushOnly sigScript"
    using assms(3) by (auto simp: VerifyScript_def split: if_splits sum.splits)
  let ?st = "if f AND SCRIPT_VERIFY_WITNESS \<noteq> 0 then st else (stk, False)"
  obtain st'' where p: "verify_p2sh ctx sigScript pubKeyScript witness f checker copy ?st = Inr st''"
    "f AND SCRIPT_VERIFY_WITNESS \<noteq> 0 \<longrightarrow> st'' = st'"
    using verify_p2sh_mono [OF assms(1) g(4) _ refl] assms(2) unfolding verify_flags_ok_def by blast
  have "verify_end witness f st'' = Inr ()"
    using g(5) p(2) assms(2) sub [of SCRIPT_VERIFY_CLEANSTACK] sub [of SCRIPT_VERIFY_WITNESS]
    by (auto simp: verify_end_def verify_flags_ok_def split: if_splits)
  then show ?thesis
    using EvalScript_mono [OF assms(1) g(1)] eval_true_mono [OF assms(1) g(2)]
      verify_witness_mono [OF assms(1) g(3)] p(1) push sub [of SCRIPT_VERIFY_SIGPUSHONLY]
    by (auto simp add: VerifyScript_def)
qed

theorem VerifyScript_mono_witness:
  "VerifyScript secp256k1_reject [0x51] [0x51, 0x87] [] 0x1 BaseSignatureChecker = Inr ()"
proof (rule VerifyScript_mono)
  show "VerifyScript secp256k1_reject [0x51] [0x51, 0x87] [] 0x5 BaseSignatureChecker = Inr ()"
    by (simp add: verify_run)
qed (simp_all add: sub_flags_def verify_flags_ok_def)

end
