(* ===== verification/Coins.thy ===== *)
theory Coins
  imports Transaction "HOL-Library.AList"
begin

text \<open>
  The views on the set of unspent outputs (\<open>src/src/coins.h\<close>, \<open>src/src/coins.cpp\<close>, and the coin
  database of \<open>src/src/txdb.cpp\<close>).

  A view is a database or a cache over another view, as the pointers \<open>base\<close> chain them.  A \<open>CCoinsMap\<close>
  is the list of its entries in iteration order; the order depends on the salt of the hash function
  and the theorems hold for every order.  The methods that are \<open>const\<close> in C++ still fill the caches,
  so they return the view too.  \<open>cachedCoinsUsage\<close>, an estimate of the memory in use, is not part of
  the model, and the database is the map it stores: its batches are applied at once.

  The abstraction of a view is the partial map from outpoints to unspent coins.
\<close>

section \<open>Coins and cache entries\<close>

record Coin =
  c_out :: CTxOut
  c_fCoinBase :: bool
  c_fCoinStake :: bool
  c_nHeight :: u32

text \<open>The height is a bit field of 30 bits.\<close>

definition Coin_make :: "CTxOut \<Rightarrow> int \<Rightarrow> bool \<Rightarrow> bool \<Rightarrow> Coin" where
  "Coin_make outIn nHeightIn fCoinBaseIn fCoinStakeIn =
     \<lparr>c_out = outIn, c_fCoinBase = fCoinBaseIn, c_fCoinStake = fCoinStakeIn,
      c_nHeight = take_bit 30 (of_int nHeightIn)\<rparr>"

definition coinEmpty :: Coin where
  "coinEmpty = \<lparr>c_out = CTxOut_null, c_fCoinBase = False, c_fCoinStake = False, c_nHeight = 0\<rparr>"

definition Coin_Clear :: "Coin \<Rightarrow> Coin" where
  "Coin_Clear c = c\<lparr>c_out := CTxOut_null, c_fCoinBase := False, c_fCoinStake := False, c_nHeight := 0\<rparr>"

definition Coin_IsSpent :: "Coin \<Rightarrow> bool" where
  "Coin_IsSpent c \<longleftrightarrow> CTxOut_IsNull (c_out c)"

record CCoinsCacheEntry =
  e_coin :: Coin
  e_DIRTY :: bool
  e_FRESH :: bool

type_synonym CCoinsMap = "(COutPoint \<times> CCoinsCacheEntry) list"

record coins_cache =
  hashBlock :: uint256
  cacheCoins :: CCoinsMap

record coins_db =
  db_coins :: "(COutPoint \<times> Coin) list"
  db_best :: uint256

datatype CCoinsView =
    CCoinsViewDB coins_db
  | CCoinsViewCache coins_cache CCoinsView

text \<open>The \<open>assert\<close>s of the code, and the two exceptions it throws.\<close>

datatype coins_error = CoinsAssert | ReplacesNonPruned | FreshMisapplied

section \<open>Queries\<close>

definition FetchCoin_with ::
  "(COutPoint \<Rightarrow> Coin option \<times> CCoinsView) \<Rightarrow> coins_cache \<Rightarrow> CCoinsView \<Rightarrow> COutPoint \<Rightarrow>
   CCoinsCacheEntry option \<times> coins_cache \<times> CCoinsView" where
  "FetchCoin_with baseGetCoin c base outpoint =
     (case map_of (cacheCoins c) outpoint of
        Some entry \<Rightarrow> (Some entry, c, base)
      | None \<Rightarrow>
          (case baseGetCoin outpoint of
             (None, base) \<Rightarrow> (None, c, base)
           | (Some tmp, base) \<Rightarrow>
               let ret = \<lparr>e_coin = tmp, e_DIRTY = False, e_FRESH = Coin_IsSpent tmp\<rparr>
               in (Some ret, c\<lparr>cacheCoins := (outpoint, ret) # cacheCoins c\<rparr>, base)))"

definition entry_unspent :: "CCoinsCacheEntry option \<Rightarrow> Coin option" where
  "entry_unspent r =
     (case r of
        None \<Rightarrow> None
      | Some entry \<Rightarrow> if \<not> Coin_IsSpent (e_coin entry) then Some (e_coin entry) else None)"

primrec GetCoin :: "CCoinsView \<Rightarrow> COutPoint \<Rightarrow> Coin option \<times> CCoinsView" where
  "GetCoin (CCoinsViewDB d) outpoint = (map_of (db_coins d) outpoint, CCoinsViewDB d)"
| "GetCoin (CCoinsViewCache c base) outpoint =
     (case FetchCoin_with (GetCoin base) c base outpoint of
        (r, c, base) \<Rightarrow> (entry_unspent r, CCoinsViewCache c base))"

type_synonym cache_view = "coins_cache \<times> CCoinsView"

definition FetchCoin :: "cache_view \<Rightarrow> COutPoint \<Rightarrow> CCoinsCacheEntry option \<times> cache_view" where
  "FetchCoin v outpoint = FetchCoin_with (GetCoin (snd v)) (fst v) (snd v) outpoint"

definition AccessCoin :: "cache_view \<Rightarrow> COutPoint \<Rightarrow> Coin \<times> cache_view" where
  "AccessCoin v outpoint =
     (case FetchCoin v outpoint of
        (None, v) \<Rightarrow> (coinEmpty, v)
      | (Some entry, v) \<Rightarrow> (e_coin entry, v))"

definition HaveCoin :: "cache_view \<Rightarrow> COutPoint \<Rightarrow> bool \<times> cache_view" where
  "HaveCoin v outpoint =
     (case FetchCoin v outpoint of
        (None, v) \<Rightarrow> (False, v)
      | (Some entry, v) \<Rightarrow> (\<not> Coin_IsSpent (e_coin entry), v))"

definition HaveCoinInCache :: "cache_view \<Rightarrow> COutPoint \<Rightarrow> bool" where
  "HaveCoinInCache v outpoint =
     (case map_of (cacheCoins (fst v)) outpoint of
        None \<Rightarrow> False
      | Some entry \<Rightarrow> \<not> Coin_IsSpent (e_coin entry))"

definition GetCacheSize :: "cache_view \<Rightarrow> nat" where
  "GetCacheSize v = length (cacheCoins (fst v))"

primrec GetBestBlock :: "CCoinsView \<Rightarrow> uint256 \<times> CCoinsView" where
  "GetBestBlock (CCoinsViewDB d) = (db_best d, CCoinsViewDB d)"
| "GetBestBlock (CCoinsViewCache c base) =
     (if hashBlock c = uint256_null then
        (case GetBestBlock base of (h, base) \<Rightarrow> (h, CCoinsViewCache (c\<lparr>hashBlock := h\<rparr>) base))
      else (hashBlock c, CCoinsViewCache c base))"

section \<open>Updates\<close>

definition SetBestBlock :: "cache_view \<Rightarrow> uint256 \<Rightarrow> cache_view" where
  "SetBestBlock v h = ((fst v)\<lparr>hashBlock := h\<rparr>, snd v)"

definition set_entries :: "cache_view \<Rightarrow> CCoinsMap \<Rightarrow> cache_view" where
  "set_entries v es = ((fst v)\<lparr>cacheCoins := es\<rparr>, snd v)"

definition AddCoin ::
  "cache_view \<Rightarrow> COutPoint \<Rightarrow> Coin \<Rightarrow> bool \<Rightarrow> coins_error + cache_view" where
  "AddCoin v outpoint coin possible_overwrite =
     (if Coin_IsSpent coin then Inl CoinsAssert
      else if IsUnspendable (scriptPubKey (c_out coin)) then Inr v
      else
        let it = (case map_of (cacheCoins (fst v)) outpoint of
                    Some entry \<Rightarrow> entry
                  | None \<Rightarrow> \<lparr>e_coin = coinEmpty, e_DIRTY = False, e_FRESH = False\<rparr>)
        in if \<not> possible_overwrite \<and> \<not> Coin_IsSpent (e_coin it) then Inl ReplacesNonPruned
           else
             let fresh = (\<not> possible_overwrite \<and> \<not> e_DIRTY it);
                 entry = \<lparr>e_coin = coin, e_DIRTY = True, e_FRESH = (e_FRESH it \<or> fresh)\<rparr>
             in Inr (set_entries v (AList.update outpoint entry (cacheCoins (fst v)))))"

definition SpendCoin :: "cache_view \<Rightarrow> COutPoint \<Rightarrow> Coin option \<times> cache_view" where
  "SpendCoin v outpoint =
     (case FetchCoin v outpoint of
        (None, v) \<Rightarrow> (None, v)
      | (Some entry, v) \<Rightarrow>
          if e_FRESH entry
          then (Some (e_coin entry), set_entries v (AList.delete outpoint (cacheCoins (fst v))))
          else
            let entry' = entry\<lparr>e_DIRTY := True, e_coin := Coin_Clear (e_coin entry)\<rparr>
            in (Some (e_coin entry), set_entries v (AList.update outpoint entry' (cacheCoins (fst v)))))"

definition Uncache :: "cache_view \<Rightarrow> COutPoint \<Rightarrow> cache_view" where
  "Uncache v outpoint =
     (case map_of (cacheCoins (fst v)) outpoint of
        None \<Rightarrow> v
      | Some entry \<Rightarrow>
          if \<not> e_DIRTY entry \<and> \<not> e_FRESH entry
          then set_entries v (AList.delete outpoint (cacheCoins (fst v)))
          else v)"

text \<open>One turn of the loop of \<open>CCoinsViewCache::BatchWrite\<close>; \<open>es\<close> is \<open>cacheCoins\<close> of the parent.\<close>

definition batch_entry :: "COutPoint \<times> CCoinsCacheEntry \<Rightarrow> CCoinsMap \<Rightarrow> coins_error + CCoinsMap" where
  "batch_entry it es =
     (case it of (outpoint, child) \<Rightarrow>
        if \<not> e_DIRTY child then Inr es
        else case map_of es outpoint of
          None \<Rightarrow>
            if \<not> (e_FRESH child \<and> Coin_IsSpent (e_coin child))
            then Inr (AList.update outpoint
                   \<lparr>e_coin = e_coin child, e_DIRTY = True, e_FRESH = e_FRESH child\<rparr> es)
            else Inr es
        | Some us \<Rightarrow>
            if e_FRESH child \<and> \<not> Coin_IsSpent (e_coin us) then Inl FreshMisapplied
            else if e_FRESH us \<and> Coin_IsSpent (e_coin child) then Inr (AList.delete outpoint es)
            else Inr (AList.update outpoint (us\<lparr>e_coin := e_coin child, e_DIRTY := True\<rparr>) es))"

primrec batch_entries :: "CCoinsMap \<Rightarrow> CCoinsMap \<Rightarrow> coins_error + CCoinsMap" where
  "batch_entries [] es = Inr es"
| "batch_entries (it # its) es = bindE (batch_entry it es) (batch_entries its)"

text \<open>The loop of \<open>CCoinsViewDB::BatchWrite\<close>.\<close>

primrec db_entries :: "CCoinsMap \<Rightarrow> (COutPoint \<times> Coin) list \<Rightarrow> (COutPoint \<times> Coin) list" where
  "db_entries [] d = d"
| "db_entries (it # its) d =
     db_entries its
       (if e_DIRTY (snd it) then
          if Coin_IsSpent (e_coin (snd it)) then AList.delete (fst it) d
          else AList.update (fst it) (e_coin (snd it)) d
        else d)"

definition BatchWrite :: "CCoinsView \<Rightarrow> CCoinsMap \<Rightarrow> uint256 \<Rightarrow> coins_error + CCoinsView" where
  "BatchWrite v mapCoins h =
     (case v of
        CCoinsViewDB d \<Rightarrow>
          if h = uint256_null then Inl CoinsAssert
          else Inr (CCoinsViewDB \<lparr>db_coins = db_entries mapCoins (db_coins d), db_best = h\<rparr>)
      | CCoinsViewCache c base \<Rightarrow>
          bindE (batch_entries mapCoins (cacheCoins c))
            (\<lambda>es. Inr (CCoinsViewCache \<lparr>hashBlock = h, cacheCoins = es\<rparr> base)))"

definition Flush :: "cache_view \<Rightarrow> coins_error + cache_view" where
  "Flush v =
     bindE (BatchWrite (snd v) (cacheCoins (fst v)) (hashBlock (fst v)))
       (\<lambda>base. Inr ((fst v)\<lparr>cacheCoins := []\<rparr>, base))"

section \<open>Abstraction and invariant\<close>

primrec utxo :: "CCoinsView \<Rightarrow> COutPoint \<Rightarrow> Coin option" where
  "utxo (CCoinsViewDB d) outpoint = map_of (db_coins d) outpoint"
| "utxo (CCoinsViewCache c base) outpoint =
     (case map_of (cacheCoins c) outpoint of
        Some entry \<Rightarrow> entry_unspent (Some entry)
      | None \<Rightarrow> utxo base outpoint)"

text \<open>
  What the flags of an entry mean, relative to what the parent has for the outpoint: an entry that
  is not dirty agrees with the parent, and the parent has nothing for a fresh entry.
\<close>

definition entry_ok :: "Coin option \<Rightarrow> CCoinsCacheEntry \<Rightarrow> bool" where
  "entry_ok u e \<longleftrightarrow> (\<not> e_DIRTY e \<longrightarrow> entry_unspent (Some e) = u) \<and> (e_FRESH e \<longrightarrow> u = None)"

definition entries_ok :: "(COutPoint \<Rightarrow> Coin option) \<Rightarrow> CCoinsMap \<Rightarrow> bool" where
  "entries_ok u es \<longleftrightarrow>
     distinct (map fst es) \<and> (\<forall>outpoint e. map_of es outpoint = Some e \<longrightarrow> entry_ok (u outpoint) e)"

primrec view_inv :: "CCoinsView \<Rightarrow> bool" where
  "view_inv (CCoinsViewDB d) \<longleftrightarrow> (\<forall>outpoint c. map_of (db_coins d) outpoint = Some c \<longrightarrow> \<not> Coin_IsSpent c)"
| "view_inv (CCoinsViewCache c base) \<longleftrightarrow> view_inv base \<and> entries_ok (utxo base) (cacheCoins c)"

definition cache_utxo :: "cache_view \<Rightarrow> COutPoint \<Rightarrow> Coin option" where
  "cache_utxo v = utxo (CCoinsViewCache (fst v) (snd v))"

definition cache_inv :: "cache_view \<Rightarrow> bool" where
  "cache_inv v \<longleftrightarrow> view_inv (CCoinsViewCache (fst v) (snd v))"

lemma entry_unspent_simps [simp]:
  "entry_unspent None = None"
  "entry_unspent (Some e) = (if Coin_IsSpent (e_coin e) then None else Some (e_coin e))"
  by (simp_all add: entry_unspent_def)

lemma Coin_Clear_spent [simp]: "Coin_IsSpent (Coin_Clear c)"
  by (simp add: Coin_IsSpent_def Coin_Clear_def CTxOut_IsNull_def CTxOut_null_def)

lemma coinEmpty_spent [simp]: "Coin_IsSpent coinEmpty"
  by (simp add: Coin_IsSpent_def coinEmpty_def CTxOut_IsNull_def CTxOut_null_def)

lemma utxo_unspent: "view_inv v \<Longrightarrow> utxo v outpoint = Some c \<Longrightarrow> \<not> Coin_IsSpent c"
  by (induction v) (auto split: option.splits if_splits)

lemma entries_ok_Cons:
  "entries_ok u ((outpoint, e) # es) \<longleftrightarrow>
     outpoint \<notin> fst ` set es \<and> entry_ok (u outpoint) e \<and> entries_ok u es"
proof -
  have "map_of es outpoint = None" if "outpoint \<notin> fst ` set es"
    using that by (simp add: map_of_eq_None_iff)
  then show ?thesis by (auto simp: entries_ok_def split: if_splits)
qed

lemma entries_ok_update:
  assumes "entries_ok u es" "entry_ok (u outpoint) e"
  shows "entries_ok u (AList.update outpoint e es)"
  using assms by (auto simp: entries_ok_def distinct_update update_conv' split: if_splits)

lemma entries_ok_delete: "entries_ok u es \<Longrightarrow> entries_ok u (AList.delete outpoint es)"
  by (auto simp: entries_ok_def distinct_delete delete_conv' split: if_splits)

lemma utxo_base_cong:
  "utxo base' = utxo base \<Longrightarrow> cacheCoins c' = cacheCoins c \<Longrightarrow>
     utxo (CCoinsViewCache c' base') = utxo (CCoinsViewCache c base)"
  by (rule ext) (simp split: option.split)

section \<open>Queries\<close>

lemma FetchCoin_with_correct:
  assumes "entries_ok (utxo base) (cacheCoins c)" "view_inv base"
    and get: "fst (baseGet outpoint) = utxo base outpoint" "view_inv (snd (baseGet outpoint))"
      "utxo (snd (baseGet outpoint)) = utxo base"
    and f: "FetchCoin_with baseGet c base outpoint = (r, c', base')"
  shows "entry_unspent r = utxo (CCoinsViewCache c base) outpoint \<and> view_inv base' \<and> utxo base' = utxo base \<and>
    entries_ok (utxo base) (cacheCoins c') \<and> utxo (CCoinsViewCache c' base') = utxo (CCoinsViewCache c base) \<and>
    hashBlock c' = hashBlock c \<and> r = map_of (cacheCoins c') outpoint"
proof (cases "map_of (cacheCoins c) outpoint")
  case (Some e)
  then have "r = Some e" "c' = c" "base' = base" using f by (auto simp: FetchCoin_with_def)
  then show ?thesis using Some assms by simp
next
  case None
  then have new: "outpoint \<notin> fst ` set (cacheCoins c)" by (simp add: map_of_eq_None_iff)
  obtain g b where g: "baseGet outpoint = (g, b)" by (cases "baseGet outpoint")
  show ?thesis
  proof (cases g)
    case None
    then have "r = None" "c' = c" "base' = b"
      using f g \<open>map_of (cacheCoins c) outpoint = None\<close> by (auto simp: FetchCoin_with_def)
    then show ?thesis
      using assms g None \<open>map_of (cacheCoins c) outpoint = None\<close> utxo_base_cong [of b base c c] by simp
  next
    case (Some coin)
    then have u: "utxo base outpoint = Some coin" "\<not> Coin_IsSpent coin"
      using get(1) g utxo_unspent [OF assms(2)] by auto
    let ?e = "\<lparr>e_coin = coin, e_DIRTY = False, e_FRESH = Coin_IsSpent coin\<rparr>"
    have r: "r = Some ?e" "c' = c\<lparr>cacheCoins := (outpoint, ?e) # cacheCoins c\<rparr>" "base' = b"
      using f g Some \<open>map_of (cacheCoins c) outpoint = None\<close> by (auto simp: FetchCoin_with_def Let_def)
    have "entries_ok (utxo base) ((outpoint, ?e) # cacheCoins c)"
      using assms(1) new u by (simp add: entries_ok_Cons entry_ok_def)
    moreover have "utxo (CCoinsViewCache c' base') = utxo (CCoinsViewCache c base)"
      using u get(3) g \<open>map_of (cacheCoins c) outpoint = None\<close>
      by (intro ext) (simp add: r split: option.split)
    ultimately show ?thesis
      using r u get g \<open>map_of (cacheCoins c) outpoint = None\<close> by auto
  qed
qed

lemma GetCoin_correct:
  assumes "view_inv v"
  shows "fst (GetCoin v outpoint) = utxo v outpoint \<and> view_inv (snd (GetCoin v outpoint)) \<and>
    utxo (snd (GetCoin v outpoint)) = utxo v"
  using assms
proof (induction v)
  case (CCoinsViewCache c base)
  obtain r c' base' where f: "FetchCoin_with (GetCoin base) c base outpoint = (r, c', base')"
    by (cases "FetchCoin_with (GetCoin base) c base outpoint") auto
  show ?case
    using FetchCoin_with_correct [OF _ _ _ _ _ f] CCoinsViewCache f by (auto simp del: utxo.simps)
qed simp

lemma FetchCoin_correct:
  assumes "cache_inv v" "FetchCoin v outpoint = (r, v')"
  shows "entry_unspent r = cache_utxo v outpoint \<and> cache_inv v' \<and> cache_utxo v' = cache_utxo v \<and>
    r = map_of (cacheCoins (fst v')) outpoint \<and> hashBlock (fst v') = hashBlock (fst v)"
  using FetchCoin_with_correct [of "snd v" "fst v" "GetCoin (snd v)" outpoint r "fst v'" "snd v'"]
    GetCoin_correct [of "snd v" outpoint] assms
  by (auto simp: FetchCoin_def cache_inv_def cache_utxo_def simp del: utxo.simps)

lemma AccessCoin_correct:
  assumes "cache_inv v" "AccessCoin v outpoint = (coin, v')"
  shows "(if Coin_IsSpent coin then None else Some coin) = cache_utxo v outpoint \<and> cache_inv v' \<and>
    cache_utxo v' = cache_utxo v"
  using assms FetchCoin_correct [OF assms(1), of outpoint]
  by (cases "FetchCoin v outpoint") (auto simp: AccessCoin_def split: option.splits)

lemma HaveCoin_correct:
  assumes "cache_inv v" "HaveCoin v outpoint = (b, v')"
  shows "b = (cache_utxo v outpoint \<noteq> None) \<and> cache_inv v' \<and> cache_utxo v' = cache_utxo v"
proof -
  obtain r v1 where f: "FetchCoin v outpoint = (r, v1)" by (cases "FetchCoin v outpoint")
  have "b = (entry_unspent r \<noteq> None)" "v' = v1"
    using assms(2) f by (auto simp: HaveCoin_def split: option.splits)
  moreover note FetchCoin_correct [OF assms(1) f]
  ultimately show ?thesis by metis
qed

section \<open>Updates\<close>

lemma cache_inv_set:
  "cache_inv v \<Longrightarrow> cache_inv (set_entries v es) = entries_ok (utxo (snd v)) es"
  by (simp add: cache_inv_def set_entries_def)

lemma cache_invD: "cache_inv v \<Longrightarrow> entries_ok (utxo (snd v)) (cacheCoins (fst v)) \<and> view_inv (snd v)"
  by (simp add: cache_inv_def)

lemma cache_utxo_set:
  "cache_utxo (set_entries v (AList.update outpoint e (cacheCoins (fst v)))) =
     (cache_utxo v)(outpoint := entry_unspent (Some e))"
  "cache_utxo (set_entries v (AList.delete outpoint (cacheCoins (fst v)))) =
     (cache_utxo v)(outpoint := utxo (snd v) outpoint)"
  by (auto simp: cache_utxo_def set_entries_def update_conv' delete_conv')

lemma cache_utxo_entry:
  "map_of (cacheCoins (fst v)) outpoint = Some e \<Longrightarrow> cache_utxo v outpoint = entry_unspent (Some e)"
  "map_of (cacheCoins (fst v)) outpoint = None \<Longrightarrow> cache_utxo v outpoint = utxo (snd v) outpoint"
  by (auto simp: cache_utxo_def)

lemma AddCoin_correct:
  assumes "cache_inv v" "\<not> Coin_IsSpent coin"
    "IsUnspendable (scriptPubKey (c_out coin)) \<or> overwrite \<or> cache_utxo v outpoint = None"
  shows "\<exists>v'. AddCoin v outpoint coin overwrite = Inr v' \<and> cache_inv v' \<and>
    cache_utxo v' = (if IsUnspendable (scriptPubKey (c_out coin)) then cache_utxo v
                     else (cache_utxo v)(outpoint \<mapsto> coin))"
proof (cases "IsUnspendable (scriptPubKey (c_out coin))")
  case True
  then show ?thesis using assms by (simp add: AddCoin_def)
next
  case False
  note ok = cache_invD [OF assms(1)]
  define it where "it = (case map_of (cacheCoins (fst v)) outpoint of
      Some entry \<Rightarrow> entry
    | None \<Rightarrow> \<lparr>e_coin = coinEmpty, e_DIRTY = False, e_FRESH = False\<rparr>)"
  define entry where "entry = \<lparr>e_coin = coin, e_DIRTY = True,
    e_FRESH = (e_FRESH it \<or> (\<not> overwrite \<and> \<not> e_DIRTY it))\<rparr>"
  let ?v = "set_entries v (AList.update outpoint entry (cacheCoins (fst v)))"
  have it: "(e_FRESH it \<longrightarrow> utxo (snd v) outpoint = None) \<and>
      (\<not> overwrite \<longrightarrow> Coin_IsSpent (e_coin it) \<and> (\<not> e_DIRTY it \<longrightarrow> utxo (snd v) outpoint = None))"
  proof (cases "map_of (cacheCoins (fst v)) outpoint")
    case (Some e)
    then have "entry_ok (utxo (snd v) outpoint) e" using ok by (auto simp: entries_ok_def)
    then show ?thesis
      using Some assms(3) False cache_utxo_entry(1) [OF Some]
      by (auto simp: it_def entry_ok_def split: if_splits)
  next
    case None
    then show ?thesis using assms(3) False cache_utxo_entry(2) [OF None] by (auto simp: it_def)
  qed
  have "AddCoin v outpoint coin overwrite = Inr ?v"
    using assms(2) False it unfolding AddCoin_def it_def [symmetric] Let_def entry_def by auto
  moreover have "entries_ok (utxo (snd v)) (AList.update outpoint entry (cacheCoins (fst v)))"
    using ok it by (intro entries_ok_update) (auto simp: entry_ok_def entry_def)
  ultimately show ?thesis
    using assms False by (auto simp: cache_inv_set cache_utxo_set entry_def)
qed

lemma SpendCoin_correct:
  assumes "cache_inv v" "SpendCoin v outpoint = (r, v')"
  shows "cache_inv v' \<and> cache_utxo v' = (cache_utxo v)(outpoint := None) \<and>
    (cache_utxo v outpoint = Some coin \<longrightarrow> r = Some coin)"
proof -
  obtain e v1 where f: "FetchCoin v outpoint = (e, v1)" by (cases "FetchCoin v outpoint")
  note c = FetchCoin_correct [OF assms(1) f]
  then have inv: "cache_inv v1" by simp
  note ok = cache_invD [OF inv]
  show ?thesis
  proof (cases e)
    case None
    then have "r = None" "v' = v1" using assms(2) f by (auto simp: SpendCoin_def)
    then show ?thesis using c None by (simp add: fun_upd_idem)
  next
    case (Some en)
    then have m: "map_of (cacheCoins (fst v1)) outpoint = Some en" using c by simp
    then have eo: "entry_ok (utxo (snd v1) outpoint) en" using ok by (auto simp: entries_ok_def)
    have r: "r = Some (e_coin en)" using assms(2) f Some by (auto simp: SpendCoin_def Let_def split: if_splits)
    have coin: "cache_utxo v outpoint = Some coin \<Longrightarrow> e_coin en = coin"
      using c Some by (auto split: if_splits)
    show ?thesis
    proof (cases "e_FRESH en")
      case True
      then have "v' = set_entries v1 (AList.delete outpoint (cacheCoins (fst v1)))"
        using assms(2) f Some by (auto simp: SpendCoin_def)
      then show ?thesis
        using True eo ok inv c r coin
        by (auto simp: cache_inv_set cache_utxo_set entry_ok_def intro: entries_ok_delete)
    next
      case False
      then have v': "v' = set_entries v1 (AList.update outpoint
          (en\<lparr>e_DIRTY := True, e_coin := Coin_Clear (e_coin en)\<rparr>) (cacheCoins (fst v1)))"
        using assms(2) f Some by (auto simp: SpendCoin_def Let_def)
      have "entry_ok (utxo (snd v1) outpoint) (en\<lparr>e_DIRTY := True, e_coin := Coin_Clear (e_coin en)\<rparr>)"
        using False by (simp add: entry_ok_def)
      then show ?thesis
        using v' ok inv c r coin by (auto simp: cache_inv_set cache_utxo_set intro: entries_ok_update)
    qed
  qed
qed

lemma Uncache_correct:
  assumes "cache_inv v"
  shows "cache_inv (Uncache v outpoint) \<and> cache_utxo (Uncache v outpoint) = cache_utxo v"
proof (cases "map_of (cacheCoins (fst v)) outpoint")
  case (Some e)
  then have "entry_ok (utxo (snd v) outpoint) e" using cache_invD [OF assms] by (auto simp: entries_ok_def)
  then show ?thesis
    using Some assms cache_invD [OF assms] cache_utxo_entry(1) [OF Some]
    by (auto simp: Uncache_def cache_inv_set cache_utxo_set entry_ok_def fun_upd_idem intro!: entries_ok_delete)
qed (use assms in \<open>simp add: Uncache_def\<close>)


section \<open>Writing a cache back to its parent\<close>

lemma entries_okD: "entries_ok u es \<Longrightarrow> map_of es outpoint = Some e \<Longrightarrow> entry_ok (u outpoint) e"
  by (auto simp: entries_ok_def)

lemma utxo_update:
  "utxo (CCoinsViewCache (c\<lparr>cacheCoins := AList.update outpoint e es\<rparr>) base) =
     (utxo (CCoinsViewCache (c\<lparr>cacheCoins := es\<rparr>) base))(outpoint := entry_unspent (Some e))"
  "utxo (CCoinsViewCache (c\<lparr>cacheCoins := AList.delete outpoint es\<rparr>) base) =
     (utxo (CCoinsViewCache (c\<lparr>cacheCoins := es\<rparr>) base))(outpoint := utxo base outpoint)"
  by (auto simp: update_conv' delete_conv')

lemma cacheCoins_self [simp]: "c\<lparr>cacheCoins := cacheCoins c\<rparr> = (c :: coins_cache)"
  by (cases c) simp

lemma batch_entry_correct:
  fixes c :: coins_cache and base :: CCoinsView
  defines "u es \<equiv> utxo (CCoinsViewCache (c\<lparr>cacheCoins := es\<rparr>) base)"
  assumes "entries_ok (utxo base) es" "entry_ok (u es outpoint) child"
  shows "\<exists>es'. batch_entry (outpoint, child) es = Inr es' \<and> entries_ok (utxo base) es' \<and>
    u es' = (u es)(outpoint := entry_unspent (Some child))"
proof (cases "e_DIRTY child")
  case False
  then show ?thesis
    using assms by (auto simp: batch_entry_def entry_ok_def fun_upd_idem)
next
  case dirty: True
  show ?thesis
  proof (cases "map_of es outpoint")
    case None
    then have u: "u es outpoint = utxo base outpoint" by (simp add: u_def)
    show ?thesis
    proof (cases "e_FRESH child \<and> Coin_IsSpent (e_coin child)")
      case True
      then show ?thesis
        using None dirty assms u by (auto simp: batch_entry_def entry_ok_def fun_upd_idem)
    next
      case False
      let ?e = "\<lparr>e_coin = e_coin child, e_DIRTY = True, e_FRESH = e_FRESH child\<rparr>"
      have "entry_ok (utxo base outpoint) ?e"
        using assms(3) u by (simp add: entry_ok_def)
      then show ?thesis
        using False None dirty entries_ok_update [OF assms(2)] utxo_update(1) [where c = c and outpoint = outpoint and e = ?e and es = es and base = base]
        by (auto simp: batch_entry_def u_def)
    qed
  next
    case (Some us)
    note ok = entries_okD [OF assms(2) Some]
    have u: "u es outpoint = entry_unspent (Some us)" using Some by (simp add: u_def)
    have nf: "\<not> (e_FRESH child \<and> \<not> Coin_IsSpent (e_coin us))"
      using assms(3) u by (auto simp: entry_ok_def split: if_splits)
    show ?thesis
    proof (cases "e_FRESH us \<and> Coin_IsSpent (e_coin child)")
      case True
      then have "batch_entry (outpoint, child) es = Inr (AList.delete outpoint es)"
        using Some dirty nf by (auto simp: batch_entry_def)
      then show ?thesis
        using True ok entries_ok_delete [OF assms(2)] utxo_update(2) [where c = c and outpoint = outpoint and es = es and base = base]
        by (simp add: u_def entry_ok_def)
    next
      case False
      let ?e = "us\<lparr>e_coin := e_coin child, e_DIRTY := True\<rparr>"
      have "batch_entry (outpoint, child) es = Inr (AList.update outpoint ?e es)"
        using False Some dirty nf by (auto simp: batch_entry_def)
      moreover have "entry_ok (utxo base outpoint) ?e" using ok by (simp add: entry_ok_def)
      ultimately show ?thesis
        using entries_ok_update [OF assms(2)] utxo_update(1) [where c = c and outpoint = outpoint and e = ?e and es = es and base = base]
        by (simp add: u_def)
    qed
  qed
qed

lemma batch_entries_correct:
  fixes c :: coins_cache and base :: CCoinsView
  defines "u es \<equiv> utxo (CCoinsViewCache (c\<lparr>cacheCoins := es\<rparr>) base)"
  assumes "entries_ok (utxo base) es" "entries_ok (u es) its"
  shows "\<exists>es'. batch_entries its es = Inr es' \<and> entries_ok (utxo base) es' \<and>
    u es' = (\<lambda>outpoint. case map_of its outpoint of Some e \<Rightarrow> entry_unspent (Some e) | None \<Rightarrow> u es outpoint)"
  using assms(2,3)
proof (induction its arbitrary: es)
  case (Cons it its)
  obtain outpoint child where it: "it = (outpoint, child)" by (cases it)
  have ok: "outpoint \<notin> fst ` set its" "entry_ok (u es outpoint) child" "entries_ok (u es) its"
    using Cons.prems(2) by (simp_all add: it entries_ok_Cons)
  obtain es1 where es1: "batch_entry it es = Inr es1" "entries_ok (utxo base) es1"
    "u es1 = (u es)(outpoint := entry_unspent (Some child))"
    using batch_entry_correct [OF Cons.prems(1), of c outpoint child] ok(2) by (auto simp: u_def it)
  have none: "map_of its outpoint = None" using ok(1) by (simp add: map_of_eq_None_iff)
  have "entries_ok (u es1) its"
    using ok(3) none unfolding entries_ok_def es1(3) by fastforce
  from Cons.IH [OF es1(2) this] obtain es' where "batch_entries its es1 = Inr es'" "entries_ok (utxo base) es'"
    "u es' = (\<lambda>outpoint. case map_of its outpoint of Some e \<Rightarrow> entry_unspent (Some e) | None \<Rightarrow> u es1 outpoint)"
    by blast
  then show ?case
    using es1(1,3) none by (intro exI [of _ es']) (auto simp: it fun_eq_iff split: option.split)
qed simp

lemma map_of_db_entries:
  "distinct (map fst its) \<Longrightarrow>
     map_of (db_entries its d) outpoint =
       (case map_of its outpoint of
          Some e \<Rightarrow> if e_DIRTY e then entry_unspent (Some e) else map_of d outpoint
        | None \<Rightarrow> map_of d outpoint)"
proof (induction its arbitrary: d)
  case (Cons it its)
  have "map_of its (fst it) = None" using Cons.prems by (simp add: map_of_eq_None_iff)
  then show ?case
    using Cons by (cases it) (auto simp: update_conv' delete_conv' split: option.split)
qed simp

lemma BatchWrite_correct:
  assumes "view_inv v" "entries_ok (utxo v) its" "h \<noteq> uint256_null"
  shows "\<exists>v'. BatchWrite v its h = Inr v' \<and> view_inv v' \<and>
    utxo v' = (\<lambda>outpoint. case map_of its outpoint of Some e \<Rightarrow> entry_unspent (Some e) | None \<Rightarrow> utxo v outpoint)"
proof (cases v)
  case (CCoinsViewDB d)
  have dist: "distinct (map fst its)" using assms(2) by (simp add: entries_ok_def)
  have "map_of (db_entries its (db_coins d)) outpoint =
      (case map_of its outpoint of Some e \<Rightarrow> entry_unspent (Some e) | None \<Rightarrow> map_of (db_coins d) outpoint)" for outpoint
    using entries_okD [OF assms(2), of outpoint] CCoinsViewDB
    by (auto simp: map_of_db_entries [OF dist] entry_ok_def split: option.split)
  then show ?thesis
    using assms(1,3) CCoinsViewDB by (auto simp: BatchWrite_def split: option.splits if_splits)
next
  case (CCoinsViewCache c base)
  have "entries_ok (utxo (CCoinsViewCache (c\<lparr>cacheCoins := cacheCoins c\<rparr>) base)) its"
    using assms(2) CCoinsViewCache by simp
  from batch_entries_correct [OF _ this, unfolded cacheCoins_self] obtain es' where "batch_entries its (cacheCoins c) = Inr es'"
    "entries_ok (utxo base) es'"
    "utxo (CCoinsViewCache (c\<lparr>cacheCoins := es'\<rparr>) base) =
       (\<lambda>outpoint. case map_of its outpoint of Some e \<Rightarrow> entry_unspent (Some e) | None \<Rightarrow> utxo v outpoint)"
    using assms(1) unfolding CCoinsViewCache by (auto simp del: utxo.simps)
  then show ?thesis
    using assms(1) CCoinsViewCache by (auto simp: BatchWrite_def fun_eq_iff)
qed

lemma Flush_correct:
  assumes "cache_inv v" "hashBlock (fst v) \<noteq> uint256_null"
  shows "\<exists>v'. Flush v = Inr v' \<and> cache_inv v' \<and> cache_utxo v' = cache_utxo v \<and>
    utxo (snd v') = cache_utxo v \<and> cacheCoins (fst v') = [] \<and> hashBlock (fst v') = hashBlock (fst v)"
proof -
  obtain base where b: "BatchWrite (snd v) (cacheCoins (fst v)) (hashBlock (fst v)) = Inr base"
    "view_inv base" "utxo base = cache_utxo v"
    using BatchWrite_correct [of "snd v" "cacheCoins (fst v)" "hashBlock (fst v)"] cache_invD [OF assms(1)] assms(2)
    by (auto simp: cache_utxo_def fun_eq_iff)
  then show ?thesis
    by (simp add: Flush_def cache_inv_def cache_utxo_def entries_ok_def fun_eq_iff)
qed

lemma SetBestBlock_correct:
  "cache_inv (SetBestBlock v h) = cache_inv v" "cache_utxo (SetBestBlock v h) = cache_utxo v"
  by (auto simp: SetBestBlock_def cache_inv_def cache_utxo_def)

lemma GetBestBlock_correct:
  "view_inv (snd (GetBestBlock v)) = view_inv v" "utxo (snd (GetBestBlock v)) = utxo v"
proof -
  have "view_inv (snd (GetBestBlock v)) = view_inv v \<and> utxo (snd (GetBestBlock v)) = utxo v"
  proof (induction v)
    case (CCoinsViewCache c base)
    then show ?case
      using utxo_base_cong [of "snd (GetBestBlock base)" base "c\<lparr>hashBlock := fst (GetBestBlock base)\<rparr>" c]
      by (cases "GetBestBlock base") (simp del: utxo.simps)
  qed simp
  then show "view_inv (snd (GetBestBlock v)) = view_inv v" "utxo (snd (GetBestBlock v)) = utxo v" by auto
qed

section \<open>The interface its clients use\<close>

text \<open>
  The functions of the validation code take a \<open>CCoinsViewCache&\<close>.  They are modelled over the four
  methods they call, and their properties are proved from the laws of these methods.
\<close>

record 'v coins_ops =
  co_AccessCoin :: "'v \<Rightarrow> COutPoint \<Rightarrow> Coin \<times> 'v"
  co_HaveCoin :: "'v \<Rightarrow> COutPoint \<Rightarrow> bool \<times> 'v"
  co_AddCoin :: "'v \<Rightarrow> COutPoint \<Rightarrow> Coin \<Rightarrow> bool \<Rightarrow> coins_error + 'v"
  co_SpendCoin :: "'v \<Rightarrow> COutPoint \<Rightarrow> Coin option \<times> 'v"

locale coins_view =
  fixes ops :: "'v coins_ops"
    and inv :: "'v \<Rightarrow> bool"
    and abs :: "'v \<Rightarrow> COutPoint \<Rightarrow> Coin option"
  assumes access_law: "inv v \<Longrightarrow> co_AccessCoin ops v p = (coin, v') \<Longrightarrow>
      (if Coin_IsSpent coin then None else Some coin) = abs v p \<and> inv v' \<and> abs v' = abs v"
    and have_law: "inv v \<Longrightarrow> co_HaveCoin ops v p = (b, v') \<Longrightarrow>
      b = (abs v p \<noteq> None) \<and> inv v' \<and> abs v' = abs v"
    and add_law: "inv v \<Longrightarrow> \<not> Coin_IsSpent coin \<Longrightarrow>
      IsUnspendable (scriptPubKey (c_out coin)) \<or> overwrite \<or> abs v p = None \<Longrightarrow>
      \<exists>v'. co_AddCoin ops v p coin overwrite = Inr v' \<and> inv v' \<and>
        abs v' = (if IsUnspendable (scriptPubKey (c_out coin)) then abs v else (abs v)(p \<mapsto> coin))"
    and spend_law: "inv v \<Longrightarrow> co_SpendCoin ops v p = (r, v') \<Longrightarrow>
      inv v' \<and> abs v' = (abs v)(p := None) \<and> (abs v p = Some coin \<longrightarrow> r = Some coin)"
    and unspent_law: "inv v \<Longrightarrow> abs v p = Some coin \<Longrightarrow> \<not> Coin_IsSpent coin"

definition cache_ops :: "cache_view coins_ops" where
  "cache_ops =
     \<lparr>co_AccessCoin = AccessCoin, co_HaveCoin = HaveCoin, co_AddCoin = AddCoin, co_SpendCoin = SpendCoin\<rparr>"

interpretation cache: coins_view cache_ops cache_inv cache_utxo
proof unfold_locales
  show "\<not> Coin_IsSpent coin" if "cache_inv v" "cache_utxo v p = Some coin" for v p coin
    using utxo_unspent [of "CCoinsViewCache (fst v) (snd v)"] that by (simp add: cache_inv_def cache_utxo_def)
qed (unfold cache_ops_def coins_ops.simps, fact AccessCoin_correct, fact HaveCoin_correct,
    fact AddCoin_correct, fact SpendCoin_correct)

section \<open>Sequences of operations\<close>

datatype coins_op =
    OpAdd COutPoint Coin bool
  | OpSpend COutPoint
  | OpAccess COutPoint
  | OpHave COutPoint
  | OpUncache COutPoint
  | OpSetBest uint256
  | OpFlush

datatype coins_out = OutUnit | OutCoin "Coin option" | OutBool bool

primrec run_op :: "coins_op \<Rightarrow> cache_view \<Rightarrow> coins_error + coins_out \<times> cache_view" where
  "run_op (OpAdd p coin overwrite) v = bindE (AddCoin v p coin overwrite) (\<lambda>v. Inr (OutUnit, v))"
| "run_op (OpSpend p) v = (case SpendCoin v p of (r, v) \<Rightarrow> Inr (OutCoin r, v))"
| "run_op (OpAccess p) v =
     (case AccessCoin v p of (c, v) \<Rightarrow> Inr (OutCoin (if Coin_IsSpent c then None else Some c), v))"
| "run_op (OpHave p) v = (case HaveCoin v p of (b, v) \<Rightarrow> Inr (OutBool b, v))"
| "run_op (OpUncache p) v = Inr (OutUnit, Uncache v p)"
| "run_op (OpSetBest h) v = Inr (OutUnit, SetBestBlock v h)"
| "run_op OpFlush v = bindE (Flush v) (\<lambda>v. Inr (OutUnit, v))"

primrec run_ops :: "coins_op list \<Rightarrow> cache_view \<Rightarrow> coins_error + coins_out list \<times> cache_view" where
  "run_ops [] v = Inr ([], v)"
| "run_ops (x # xs) v =
     bindE (run_op x v) (\<lambda>(out, v). bindE (run_ops xs v) (\<lambda>(outs, v). Inr (out # outs, v)))"

text \<open>The specification: a partial map and the best block.\<close>

type_synonym utxo_spec = "(COutPoint \<Rightarrow> Coin option) \<times> uint256"

primrec spec_op :: "coins_op \<Rightarrow> utxo_spec \<Rightarrow> coins_out \<times> utxo_spec" where
  "spec_op (OpAdd p coin overwrite) m =
     (OutUnit, if IsUnspendable (scriptPubKey (c_out coin)) then m else ((fst m)(p \<mapsto> coin), snd m))"
| "spec_op (OpSpend p) m = (OutCoin (fst m p), (fst m)(p := None), snd m)"
| "spec_op (OpAccess p) m = (OutCoin (fst m p), m)"
| "spec_op (OpHave p) m = (OutBool (fst m p \<noteq> None), m)"
| "spec_op (OpUncache p) m = (OutUnit, m)"
| "spec_op (OpSetBest h) m = (OutUnit, fst m, h)"
| "spec_op OpFlush m = (OutUnit, m)"

primrec spec_ops :: "coins_op list \<Rightarrow> utxo_spec \<Rightarrow> coins_out list \<times> utxo_spec" where
  "spec_ops [] m = ([], m)"
| "spec_ops (x # xs) m =
     (case spec_op x m of (out, m) \<Rightarrow> case spec_ops xs m of (outs, m) \<Rightarrow> (out # outs, m))"

text \<open>
  What the callers have to guarantee: a coin that is added is unspent, and is announced as a possible
  overwrite if there is one already; a coin that is spent exists; a cache is flushed only when its
  best block is set.
\<close>

primrec op_legal :: "coins_op \<Rightarrow> utxo_spec \<Rightarrow> bool" where
  "op_legal (OpAdd p coin overwrite) m \<longleftrightarrow> \<not> Coin_IsSpent coin \<and> (overwrite \<or> fst m p = None)"
| "op_legal (OpSpend p) m \<longleftrightarrow> fst m p \<noteq> None"
| "op_legal (OpAccess p) m \<longleftrightarrow> True"
| "op_legal (OpHave p) m \<longleftrightarrow> True"
| "op_legal (OpUncache p) m \<longleftrightarrow> True"
| "op_legal (OpSetBest h) m \<longleftrightarrow> True"
| "op_legal OpFlush m \<longleftrightarrow> snd m \<noteq> uint256_null"

primrec ops_legal :: "coins_op list \<Rightarrow> utxo_spec \<Rightarrow> bool" where
  "ops_legal [] m \<longleftrightarrow> True"
| "ops_legal (x # xs) m \<longleftrightarrow> op_legal x m \<and> ops_legal xs (snd (spec_op x m))"

definition cache_abs :: "cache_view \<Rightarrow> utxo_spec" where
  "cache_abs v = (cache_utxo v, hashBlock (fst v))"

lemma hashBlock_query:
  assumes "cache_inv v"
  shows "AccessCoin v p = (c, v') \<Longrightarrow> hashBlock (fst v') = hashBlock (fst v)"
    and "HaveCoin v p = (b, v') \<Longrightarrow> hashBlock (fst v') = hashBlock (fst v)"
    and "SpendCoin v p = (r, v') \<Longrightarrow> hashBlock (fst v') = hashBlock (fst v)"
proof -
  obtain e v1 where f: "FetchCoin v p = (e, v1)" by (cases "FetchCoin v p")
  note h = FetchCoin_correct [OF assms f]
  show "AccessCoin v p = (c, v') \<Longrightarrow> hashBlock (fst v') = hashBlock (fst v)"
    using f h by (simp add: AccessCoin_def split: option.splits)
  show "HaveCoin v p = (b, v') \<Longrightarrow> hashBlock (fst v') = hashBlock (fst v)"
    using f h by (simp add: HaveCoin_def split: option.splits)
  show "SpendCoin v p = (r, v') \<Longrightarrow> hashBlock (fst v') = hashBlock (fst v)"
    using f h by (auto simp: SpendCoin_def set_entries_def Let_def split: option.splits if_splits)
qed

lemma hashBlock_update:
  "AddCoin v p coin overwrite = Inr v' \<Longrightarrow> hashBlock (fst v') = hashBlock (fst v)"
  "hashBlock (fst (Uncache v p)) = hashBlock (fst v)"
  by (auto simp: AddCoin_def Uncache_def set_entries_def Let_def split: option.splits if_splits)

lemma run_op_refines:
  assumes "cache_inv v" "op_legal x (cache_abs v)"
  shows "\<exists>v'. run_op x v = Inr (fst (spec_op x (cache_abs v)), v') \<and> cache_inv v' \<and>
    cache_abs v' = snd (spec_op x (cache_abs v))"
proof (cases x)
  case (OpAdd p coin overwrite)
  with assms AddCoin_correct [OF assms(1), of coin overwrite p] hashBlock_update(1) [of v p coin overwrite]
  show ?thesis by (auto simp: cache_abs_def)
next
  case (OpSpend p)
  obtain r v' where s: "SpendCoin v p = (r, v')" by (cases "SpendCoin v p")
  show ?thesis
    using OpSpend s assms SpendCoin_correct [OF assms(1) s] hashBlock_query(3) [OF assms(1) s]
    by (auto simp: cache_abs_def)
next
  case (OpAccess p)
  obtain c v' where s: "AccessCoin v p = (c, v')" by (cases "AccessCoin v p")
  show ?thesis
    using OpAccess s AccessCoin_correct [OF assms(1) s] hashBlock_query(1) [OF assms(1) s]
    by (simp add: cache_abs_def)
next
  case (OpHave p)
  obtain b v' where s: "HaveCoin v p = (b, v')" by (cases "HaveCoin v p")
  show ?thesis
    using OpHave s HaveCoin_correct [OF assms(1) s] hashBlock_query(2) [OF assms(1) s]
    by (simp add: cache_abs_def)
next
  case OpFlush
  then show ?thesis
    using Flush_correct [OF assms(1)] assms(2) by (auto simp: cache_abs_def)
qed (use assms Uncache_correct hashBlock_update(2) SetBestBlock_correct in
    \<open>auto simp: cache_abs_def SetBestBlock_def\<close>)

text \<open>
  C2: whatever sequence of additions, spends, queries, evictions and flushes is applied to a stack of
  caches over the database, the answers are those of a plain map of unspent coins, no exception is
  thrown and no assertion fails, provided the callers respect the obligations of the operations.
\<close>
theorem coins_cache_refines:
  assumes "cache_inv v" "ops_legal xs (cache_abs v)"
  shows "\<exists>v'. run_ops xs v = Inr (fst (spec_ops xs (cache_abs v)), v') \<and> cache_inv v' \<and>
    cache_abs v' = snd (spec_ops xs (cache_abs v))"
  using assms
proof (induction xs arbitrary: v)
  case (Cons x xs)
  then obtain v1 where "run_op x v = Inr (fst (spec_op x (cache_abs v)), v1)" "cache_inv v1"
    "cache_abs v1 = snd (spec_op x (cache_abs v))"
    using run_op_refines by fastforce
  then show ?case
    using Cons.IH [of v1] Cons.prems(2) by (auto simp: split_beta)
qed simp


definition sample_coin :: Coin where
  "sample_coin = Coin_make \<lparr>nValue = 5, scriptPubKey = [0x51]\<rparr> 7 False False"

lemma sample_coin_ok: "\<not> Coin_IsSpent sample_coin" "\<not> IsUnspendable (scriptPubKey (c_out sample_coin))"
  by (simp_all add: sample_coin_def Coin_make_def Coin_IsSpent_def CTxOut_IsNull_def IsUnspendable_def)

theorem coins_cache_refines_witness:
  "\<exists>v. run_ops [OpSetBest (replicate 32 1), OpAdd (COutPoint (replicate 32 2) 0) sample_coin False, OpFlush,
       OpUncache (COutPoint (replicate 32 2) 0), OpSpend (COutPoint (replicate 32 2) 0),
       OpHave (COutPoint (replicate 32 2) 0)]
     (\<lparr>hashBlock = uint256_null, cacheCoins = []\<rparr>, CCoinsViewDB \<lparr>db_coins = [], db_best = uint256_null\<rparr>) =
     Inr ([OutUnit, OutUnit, OutUnit, OutUnit, OutCoin (Some sample_coin), OutBool False], v)"
proof -
  let ?v = "(\<lparr>hashBlock = uint256_null, cacheCoins = []\<rparr>, CCoinsViewDB \<lparr>db_coins = [], db_best = uint256_null\<rparr>)"
  let ?p = "COutPoint (replicate 32 2) 0"
  let ?xs = "[OpSetBest (replicate 32 1), OpAdd ?p sample_coin False, OpFlush, OpUncache ?p, OpSpend ?p, OpHave ?p]"
  have "cache_inv ?v" by (simp add: cache_inv_def entries_ok_def)
  moreover have m: "cache_abs ?v = (\<lambda>_. None, uint256_null)" by (simp add: cache_abs_def cache_utxo_def fun_eq_iff)
  moreover have "replicate 32 (1 :: byte) \<noteq> uint256_null" by (simp add: uint256_null_def)
  ultimately show ?thesis
    using coins_cache_refines [of ?v ?xs] by (auto simp: sample_coin_ok)
qed

end
