(* ===== verification/UtxoUpdate.thy ===== *)
theory UtxoUpdate
  imports Coins
begin

text \<open>
  The code that updates the set of unspent outputs when a block is connected or disconnected:
  \<open>AddCoins\<close>, \<open>AccessByTxid\<close>, \<open>GetValueIn\<close>, \<open>HaveInputs\<close> (\<open>src/src/coins.cpp\<close>), \<open>UpdateCoins\<close>, \<open>ApplyTxInUndo\<close> and the
  coin part of \<open>DisconnectBlock\<close> (\<open>src/src/validation.cpp\<close>).

  The functions are written over the operations of a view.  The undo data of a transaction is the
  list of the coins its inputs spent.
\<close>

section \<open>Definitions\<close>

primrec AddCoins_loop ::
  "'v coins_ops \<Rightarrow> uint256 \<Rightarrow> bool \<Rightarrow> bool \<Rightarrow> int \<Rightarrow> bool \<Rightarrow> nat \<Rightarrow> CTxOut list \<Rightarrow> 'v \<Rightarrow> coins_error + 'v" where
  "AddCoins_loop ops txid fCoinbase fCoinstake nHeight check i [] v = Inr v"
| "AddCoins_loop ops txid fCoinbase fCoinstake nHeight check i (out # outs) v =
     (case (if check then co_HaveCoin ops v (COutPoint txid (of_nat i)) else (fCoinbase, v)) of
        (overwrite, v) \<Rightarrow>
          bindE (co_AddCoin ops v (COutPoint txid (of_nat i))
                   (Coin_make out nHeight fCoinbase fCoinstake) overwrite)
            (AddCoins_loop ops txid fCoinbase fCoinstake nHeight check (Suc i) outs))"

definition AddCoins :: "'v coins_ops \<Rightarrow> CTransaction \<Rightarrow> int \<Rightarrow> bool \<Rightarrow> 'v \<Rightarrow> coins_error + 'v" where
  "AddCoins ops tx nHeight check v =
     AddCoins_loop ops (ComputeHash tx) (IsCoinBase tx) (IsCoinStake tx) nHeight check 0 (vout tx) v"

primrec spend_inputs :: "'v coins_ops \<Rightarrow> CTxIn list \<Rightarrow> 'v \<Rightarrow> coins_error + Coin list \<times> 'v" where
  "spend_inputs ops [] v = Inr ([], v)"
| "spend_inputs ops (txin # txins) v =
     (case co_SpendCoin ops v (prevout txin) of
        (None, v) \<Rightarrow> Inl CoinsAssert
      | (Some coin, v) \<Rightarrow>
          bindE (spend_inputs ops txins v) (\<lambda>(coins, v). Inr (coin # coins, v)))"

definition UpdateCoins ::
  "'v coins_ops \<Rightarrow> CTransaction \<Rightarrow> int \<Rightarrow> 'v \<Rightarrow> coins_error + Coin list \<times> 'v" where
  "UpdateCoins ops tx nHeight v =
     bindE (if \<not> IsCoinBase tx then spend_inputs ops (vin tx) v else Inr ([], v)) (\<lambda>(undo, v).
     bindE (AddCoins ops tx nHeight False v) (\<lambda>v. Inr (undo, v)))"

text \<open>The coin updates of \<open>ConnectBlock\<close>; the undo data of the first transaction is dropped.\<close>

primrec connect_txs ::
  "'v coins_ops \<Rightarrow> CTransaction list \<Rightarrow> int \<Rightarrow> 'v \<Rightarrow> coins_error + Coin list list \<times> 'v" where
  "connect_txs ops [] nHeight v = Inr ([], v)"
| "connect_txs ops (tx # txs) nHeight v =
     bindE (UpdateCoins ops tx nHeight v) (\<lambda>(undo, v).
     bindE (connect_txs ops txs nHeight v) (\<lambda>(undos, v). Inr (undo # undos, v)))"

definition connect_coins ::
  "'v coins_ops \<Rightarrow> CTransaction list \<Rightarrow> int \<Rightarrow> 'v \<Rightarrow> coins_error + Coin list list \<times> 'v" where
  "connect_coins ops vtx nHeight v =
     bindE (connect_txs ops vtx nHeight v) (\<lambda>(undos, v). Inr (drop 1 undos, v))"

text \<open>\<open>MAX_OUTPUTS_PER_BLOCK\<close>: the initial block weight limit over the weight of an empty output.\<close>

definition MIN_TRANSACTION_OUTPUT_WEIGHT :: nat where
  "MIN_TRANSACTION_OUTPUT_WEIGHT = 4 * length (Serialize_CTxOut CTxOut_null)"

definition MAX_OUTPUTS_PER_BLOCK :: nat where
  "MAX_OUTPUTS_PER_BLOCK = 8000000 div MIN_TRANSACTION_OUTPUT_WEIGHT"

primrec AccessByTxid_loop :: "'v coins_ops \<Rightarrow> uint256 \<Rightarrow> nat \<Rightarrow> nat \<Rightarrow> 'v \<Rightarrow> Coin \<times> 'v" where
  "AccessByTxid_loop ops txid 0 n v = (coinEmpty, v)"
| "AccessByTxid_loop ops txid (Suc fuel) n v =
     (case co_AccessCoin ops v (COutPoint txid (of_nat n)) of
        (alternate, v) \<Rightarrow>
          if \<not> Coin_IsSpent alternate then (alternate, v)
          else AccessByTxid_loop ops txid fuel (Suc n) v)"

definition AccessByTxid :: "'v coins_ops \<Rightarrow> uint256 \<Rightarrow> 'v \<Rightarrow> Coin \<times> 'v" where
  "AccessByTxid ops txid v = AccessByTxid_loop ops txid MAX_OUTPUTS_PER_BLOCK 0 v"

datatype DisconnectResult = DISCONNECT_OK | DISCONNECT_UNCLEAN | DISCONNECT_FAILED

definition ApplyTxInUndo ::
  "'v coins_ops \<Rightarrow> Coin \<Rightarrow> COutPoint \<Rightarrow> 'v \<Rightarrow> coins_error + DisconnectResult \<times> 'v" where
  "ApplyTxInUndo ops undo out v =
     (case co_HaveCoin ops v out of (have_coin, v) \<Rightarrow>
        let fClean = (\<not> have_coin)
        in case (if c_nHeight undo = 0 then
                   (case AccessByTxid ops (o_hash out) v of (alternate, v) \<Rightarrow>
                      if \<not> Coin_IsSpent alternate
                      then (Some (undo\<lparr>c_nHeight := c_nHeight alternate, c_fCoinBase := c_fCoinBase alternate\<rparr>), v)
                      else (None, v))
                 else (Some undo, v)) of
             (None, v) \<Rightarrow> Inr (DISCONNECT_FAILED, v)
           | (Some undo, v) \<Rightarrow>
               bindE (co_AddCoin ops v out undo (\<not> fClean))
                 (\<lambda>v. Inr (if fClean then DISCONNECT_OK else DISCONNECT_UNCLEAN, v)))"

primrec spend_outputs ::
  "'v coins_ops \<Rightarrow> uint256 \<Rightarrow> bool \<Rightarrow> bool \<Rightarrow> int \<Rightarrow> nat \<Rightarrow> CTxOut list \<Rightarrow> 'v \<Rightarrow> bool \<times> 'v" where
  "spend_outputs ops hash is_coinbase is_coinstake nHeight n [] v = (True, v)"
| "spend_outputs ops hash is_coinbase is_coinstake nHeight n (out # outs) v =
     (if \<not> IsUnspendable (scriptPubKey out) then
        (case co_SpendCoin ops v (COutPoint hash (of_nat n)) of
           (r, v) \<Rightarrow>
             (case spend_outputs ops hash is_coinbase is_coinstake nHeight (Suc n) outs v of
                (fClean, v) \<Rightarrow>
                  ((case r of
                      None \<Rightarrow> False
                    | Some coin \<Rightarrow> \<not> (out \<noteq> c_out coin \<or> nHeight \<noteq> uint (c_nHeight coin) \<or>
                        is_coinbase \<noteq> c_fCoinBase coin \<or> is_coinstake \<noteq> c_fCoinStake coin)) \<and> fClean, v)))
      else spend_outputs ops hash is_coinbase is_coinstake nHeight (Suc n) outs v)"

text \<open>The inputs are restored from the last to the first; the list is already reversed.\<close>

primrec restore_inputs ::
  "'v coins_ops \<Rightarrow> (COutPoint \<times> Coin) list \<Rightarrow> 'v \<Rightarrow> coins_error + DisconnectResult \<times> 'v" where
  "restore_inputs ops [] v = Inr (DISCONNECT_OK, v)"
| "restore_inputs ops (pu # pus) v =
     bindE (ApplyTxInUndo ops (snd pu) (fst pu) v) (\<lambda>(res, v).
       if res = DISCONNECT_FAILED then Inr (DISCONNECT_FAILED, v)
       else bindE (restore_inputs ops pus v) (\<lambda>(res', v).
         Inr (if res = DISCONNECT_UNCLEAN \<and> res' = DISCONNECT_OK then DISCONNECT_UNCLEAN else res', v)))"

definition disconnect_tx ::
  "'v coins_ops \<Rightarrow> CTransaction \<Rightarrow> Coin list option \<Rightarrow> int \<Rightarrow> 'v \<Rightarrow> coins_error + DisconnectResult \<times> 'v" where
  "disconnect_tx ops tx txundo nHeight v =
     (case spend_outputs ops (ComputeHash tx) (IsCoinBase tx) (IsCoinStake tx) nHeight 0 (vout tx) v of
        (fClean, v) \<Rightarrow>
          bindE (case txundo of
                   None \<Rightarrow> Inr (DISCONNECT_OK, v)
                 | Some vprevout \<Rightarrow>
                     if length vprevout \<noteq> length (vin tx) then Inr (DISCONNECT_FAILED, v)
                     else restore_inputs ops (rev (zip (map prevout (vin tx)) vprevout)) v)
            (\<lambda>(res, v). Inr (if res = DISCONNECT_OK \<and> \<not> fClean then DISCONNECT_UNCLEAN else res, v)))"

primrec disconnect_txs ::
  "'v coins_ops \<Rightarrow> (CTransaction \<times> Coin list option) list \<Rightarrow> int \<Rightarrow> 'v \<Rightarrow>
   coins_error + DisconnectResult \<times> 'v" where
  "disconnect_txs ops [] nHeight v = Inr (DISCONNECT_OK, v)"
| "disconnect_txs ops (t # ts) nHeight v =
     bindE (disconnect_tx ops (fst t) (snd t) nHeight v) (\<lambda>(res, v).
       if res = DISCONNECT_FAILED then Inr (DISCONNECT_FAILED, v)
       else bindE (disconnect_txs ops ts nHeight v) (\<lambda>(res', v).
         Inr (if res = DISCONNECT_UNCLEAN \<and> res' = DISCONNECT_OK then DISCONNECT_UNCLEAN else res', v)))"

definition disconnect_coins ::
  "'v coins_ops \<Rightarrow> CTransaction list \<Rightarrow> Coin list list \<Rightarrow> int \<Rightarrow> 'v \<Rightarrow>
   coins_error + DisconnectResult \<times> 'v" where
  "disconnect_coins ops vtx vtxundo nHeight v =
     (if length vtxundo + 1 \<noteq> length vtx then Inr (DISCONNECT_FAILED, v)
      else disconnect_txs ops (rev (zip vtx (None # map Some vtxundo))) nHeight v)"

primrec GetValueIn_loop :: "'v coins_ops \<Rightarrow> CTxIn list \<Rightarrow> int \<Rightarrow> 'v \<Rightarrow> int \<times> 'v" where
  "GetValueIn_loop ops [] nResult v = (nResult, v)"
| "GetValueIn_loop ops (txin # txins) nResult v =
     (case co_AccessCoin ops v (prevout txin) of (coin, v) \<Rightarrow>
        GetValueIn_loop ops txins (nResult + nValue (c_out coin)) v)"

definition GetValueIn :: "'v coins_ops \<Rightarrow> CTransaction \<Rightarrow> 'v \<Rightarrow> int \<times> 'v" where
  "GetValueIn ops tx v = (if IsCoinBase tx then (0, v) else GetValueIn_loop ops (vin tx) 0 v)"

definition GetOutputFor :: "'v coins_ops \<Rightarrow> CTxIn \<Rightarrow> 'v \<Rightarrow> CTxOut \<times> 'v" where
  "GetOutputFor ops input v = (case co_AccessCoin ops v (prevout input) of (coin, v) \<Rightarrow> (c_out coin, v))"

primrec HaveInputs_loop :: "'v coins_ops \<Rightarrow> CTxIn list \<Rightarrow> 'v \<Rightarrow> bool \<times> 'v" where
  "HaveInputs_loop ops [] v = (True, v)"
| "HaveInputs_loop ops (txin # txins) v =
     (case co_HaveCoin ops v (prevout txin) of (b, v) \<Rightarrow>
        if \<not> b then (False, v) else HaveInputs_loop ops txins v)"

definition HaveInputs :: "'v coins_ops \<Rightarrow> CTransaction \<Rightarrow> 'v \<Rightarrow> bool \<times> 'v" where
  "HaveInputs ops tx v = (if \<not> IsCoinBase tx then HaveInputs_loop ops (vin tx) v else (True, v))"

section \<open>The effect on the map of unspent coins\<close>

text \<open>The coins a transaction creates; unspendable outputs are never added.\<close>

primrec out_coins :: "uint256 \<Rightarrow> bool \<Rightarrow> bool \<Rightarrow> int \<Rightarrow> nat \<Rightarrow> CTxOut list \<Rightarrow> (COutPoint \<times> Coin) list" where
  "out_coins txid cb cs h i [] = []"
| "out_coins txid cb cs h i (out # outs) =
     (if IsUnspendable (scriptPubKey out) then [] else [(COutPoint txid (of_nat i), Coin_make out h cb cs)]) @
     out_coins txid cb cs h (Suc i) outs"

definition new_coins :: "CTransaction \<Rightarrow> int \<Rightarrow> (COutPoint \<times> Coin) list" where
  "new_coins tx h = out_coins (ComputeHash tx) (IsCoinBase tx) (IsCoinStake tx) h 0 (vout tx)"

definition spent_points :: "CTransaction \<Rightarrow> COutPoint list" where
  "spent_points tx = (if IsCoinBase tx then [] else map prevout (vin tx))"

definition connect_utxo :: "CTransaction \<Rightarrow> int \<Rightarrow> (COutPoint \<Rightarrow> Coin option) \<Rightarrow> COutPoint \<Rightarrow> Coin option" where
  "connect_utxo tx h m = (m |` (- set (spent_points tx))) ++ map_of (new_coins tx h)"

text \<open>A coin the undo data can restore.\<close>

definition restorable :: "Coin \<Rightarrow> bool" where
  "restorable c \<longleftrightarrow> \<not> Coin_IsSpent c \<and> c_nHeight c \<noteq> 0 \<and> \<not> IsUnspendable (scriptPubKey (c_out c))"

text \<open>What \<open>UpdateCoins\<close> needs of a transaction.\<close>

definition tx_spendable :: "(COutPoint \<Rightarrow> Coin option) \<Rightarrow> int \<Rightarrow> CTransaction \<Rightarrow> bool" where
  "tx_spendable m h tx \<longleftrightarrow>
     distinct (spent_points tx) \<and> (\<forall>p \<in> set (spent_points tx). m p \<noteq> None) \<and>
     length (vout tx) \<le> 2 ^ 32 \<and> (\<forall>out \<in> set (vout tx). nValue out \<noteq> - 1) \<and>
     (\<forall>p \<in> fst ` set (new_coins tx h). m p = None)"

definition tx_connectable :: "(COutPoint \<Rightarrow> Coin option) \<Rightarrow> int \<Rightarrow> CTransaction \<Rightarrow> bool" where
  "tx_connectable m h tx \<longleftrightarrow>
     distinct (spent_points tx) \<and> (\<forall>p \<in> set (spent_points tx). \<exists>c. m p = Some c \<and> restorable c) \<and>
     length (vout tx) \<le> 2 ^ 32 \<and> (\<forall>out \<in> set (vout tx). nValue out \<noteq> - 1) \<and>
     (\<forall>p \<in> fst ` set (new_coins tx h). m p = None)"

primrec txs_connectable :: "(COutPoint \<Rightarrow> Coin option) \<Rightarrow> int \<Rightarrow> CTransaction list \<Rightarrow> bool" where
  "txs_connectable m h [] \<longleftrightarrow> True"
| "txs_connectable m h (tx # txs) \<longleftrightarrow> tx_connectable m h tx \<and> txs_connectable (connect_utxo tx h m) h txs"

definition connect_utxos :: "CTransaction list \<Rightarrow> int \<Rightarrow> (COutPoint \<Rightarrow> Coin option) \<Rightarrow> COutPoint \<Rightarrow> Coin option" where
  "connect_utxos txs h m = foldl (\<lambda>m tx. connect_utxo tx h m) m txs"

lemma connect_utxos_simps [simp]:
  "connect_utxos [] h m = m" "connect_utxos (tx # txs) h m = connect_utxos txs h (connect_utxo tx h m)"
  by (simp_all add: connect_utxos_def)

definition tx_undo :: "CTransaction \<Rightarrow> Coin list \<Rightarrow> Coin list option" where
  "tx_undo tx undo = (if IsCoinBase tx then None else Some undo)"

lemma out_coins_keys:
  "p \<in> fst ` set (out_coins txid cb cs h i outs) \<Longrightarrow>
     \<exists>j. i \<le> j \<and> j < i + length outs \<and> p = COutPoint txid (of_nat j)"
proof (induction outs arbitrary: i)
  case (Cons out outs)
  show ?case
  proof (cases "p = COutPoint txid (of_nat i)")
    case False
    then have "p \<in> fst ` set (out_coins txid cb cs h (Suc i) outs)"
      using Cons.prems by (auto split: if_splits)
    from Cons.IH [OF this] obtain j where "Suc i \<le> j" "j < Suc i + length outs" "p = COutPoint txid (of_nat j)"
      by blast
    then show ?thesis by (intro exI [of _ j]) simp
  qed (rule exI [of _ i], simp)
qed simp

lemma out_coins_fresh:
  assumes "i < j" "j + length outs \<le> 2 ^ 32"
  shows "COutPoint txid (of_nat i) \<notin> fst ` set (out_coins txid cb cs h j outs)"
proof
  assume "COutPoint txid (of_nat i) \<in> fst ` set (out_coins txid cb cs h j outs)"
  then obtain k where "j \<le> k" "k < j + length outs" "(of_nat i :: u32) = of_nat k"
    using out_coins_keys [of "COutPoint txid (of_nat i)" txid cb cs h j outs] by auto
  then have "unat (of_nat i :: u32) = unat (of_nat k :: u32)" by simp
  then have "i mod 2 ^ 32 = k mod 2 ^ 32" unfolding unat_of_nat by simp
  then show False using assms \<open>j \<le> k\<close> \<open>k < j + length outs\<close> by simp
qed

lemma out_coins_distinct:
  "i + length outs \<le> 2 ^ 32 \<Longrightarrow> distinct (map fst (out_coins txid cb cs h i outs))"
  by (induction outs arbitrary: i) (auto simp: out_coins_fresh)

lemma Coin_make_unspent: "nValue out \<noteq> - 1 \<Longrightarrow> \<not> Coin_IsSpent (Coin_make out h cb cs)"
  by (simp add: Coin_IsSpent_def Coin_make_def CTxOut_IsNull_def)

lemma Coin_make_height:
  assumes "0 < h" "h < 2 ^ 30"
  shows "uint (c_nHeight (Coin_make out h cb cs)) = h" "c_nHeight (Coin_make out h cb cs) \<noteq> 0"
proof -
  show u: "uint (c_nHeight (Coin_make out h cb cs)) = h"
    using assms by (simp add: Coin_make_def unsigned_take_bit_eq unsigned_of_int take_bit_int_eq_self)
  show "c_nHeight (Coin_make out h cb cs) \<noteq> 0"
    using u assms by auto
qed

lemma Coin_make_fields [simp]:
  "c_out (Coin_make out h cb cs) = out" "c_fCoinBase (Coin_make out h cb cs) = cb"
  "c_fCoinStake (Coin_make out h cb cs) = cs"
  by (simp_all add: Coin_make_def)

lemma out_coins_restorable:
  "(p, c) \<in> set (out_coins txid cb cs h i outs) \<Longrightarrow> 0 < h \<Longrightarrow> h < 2 ^ 30 \<Longrightarrow>
     \<forall>out \<in> set outs. nValue out \<noteq> - 1 \<Longrightarrow> restorable c"
  by (induction outs arbitrary: i)
    (auto simp: restorable_def Coin_make_unspent Coin_make_height split: if_splits)


lemma restrict_map_UNIV [simp]: "m |` UNIV = m"
  by (simp add: restrict_map_def)

lemma rev_zip_map: "rev (zip xs (map f xs)) = zip (rev xs) (map f (rev xs))"
  by (simp add: rev_map [symmetric] zip_rev)

lemma zip_map_self: "zip xs (map f xs) = map (\<lambda>x. (x, f x)) xs"
  by (induction xs) simp_all

lemma map_add_upd_fresh: "n k = None \<Longrightarrow> m(k \<mapsto> x) ++ n = (m ++ n)(k \<mapsto> x)"
  by (rule ext) (auto simp: map_add_def split: option.split)

context coins_view
begin

lemma AddCoins_loop_spec:
  assumes "inv v" "\<forall>out \<in> set outs. nValue out \<noteq> - 1" "i + length outs \<le> 2 ^ 32"
    and "\<forall>p \<in> fst ` set (out_coins txid cb cs h i outs). abs v p = None"
  shows "\<exists>v'. AddCoins_loop ops txid cb cs h False i outs v = Inr v' \<and> inv v' \<and>
    abs v' = abs v ++ map_of (out_coins txid cb cs h i outs)"
  using assms
proof (induction outs arbitrary: i v)
  case (Cons out outs)
  let ?p = "COutPoint txid (of_nat i)" and ?c = "Coin_make out h cb cs"
  have fresh: "?p \<notin> fst ` set (out_coins txid cb cs h (Suc i) outs)"
    using Cons.prems(3) by (intro out_coins_fresh) simp_all
  have "IsUnspendable (scriptPubKey (c_out ?c)) \<or> cb \<or> abs v ?p = None"
    using Cons.prems(4) by auto
  then obtain v1 where v1: "co_AddCoin ops v ?p ?c cb = Inr v1" "inv v1"
    "abs v1 = (if IsUnspendable (scriptPubKey out) then abs v else (abs v)(?p \<mapsto> ?c))"
    using add_law [OF Cons.prems(1) Coin_make_unspent [of out h cb cs], of cb ?p] Cons.prems(2) by auto
  have "\<forall>p \<in> fst ` set (out_coins txid cb cs h (Suc i) outs). abs v1 p = None"
    using Cons.prems(4) v1(3) fresh by (auto simp: image_iff)
  then obtain v2 where "AddCoins_loop ops txid cb cs h False (Suc i) outs v1 = Inr v2" "inv v2"
    "abs v2 = abs v1 ++ map_of (out_coins txid cb cs h (Suc i) outs)"
    using Cons.IH [OF v1(2), of "Suc i"] Cons.prems(2,3) by auto
  moreover have "map_of (out_coins txid cb cs h (Suc i) outs) ?p = None"
    using fresh by (simp add: map_of_eq_None_iff)
  ultimately show ?case
    using v1 by (auto simp: map_add_upd_fresh)
qed simp

lemma spend_inputs_spec:
  assumes "inv v" "distinct (map prevout ins)" "\<forall>i \<in> set ins. abs v (prevout i) \<noteq> None"
  shows "\<exists>v'. spend_inputs ops ins v = Inr (map (\<lambda>i. the (abs v (prevout i))) ins, v') \<and> inv v' \<and>
    abs v' = abs v |` (- set (map prevout ins))"
  using assms
proof (induction ins arbitrary: v)
  case (Cons txin ins)
  obtain coin where coin: "abs v (prevout txin) = Some coin" using Cons.prems(3) by auto
  obtain r v1 where s: "co_SpendCoin ops v (prevout txin) = (r, v1)" by (cases "co_SpendCoin ops v (prevout txin)")
  have v1: "inv v1" "abs v1 = (abs v)(prevout txin := None)" "r = Some coin"
    using spend_law [OF Cons.prems(1) s, of coin] coin by auto
  have eq: "abs v1 (prevout i) = abs v (prevout i)" if "i \<in> set ins" for i
  proof -
    have "prevout i \<in> set (map prevout ins)" using that by simp
    then have "prevout i \<noteq> prevout txin" using Cons.prems(2) by (auto simp del: set_map)
    then show ?thesis using v1(2) by simp
  qed
  have "distinct (map prevout ins)" "\<forall>i \<in> set ins. abs v1 (prevout i) \<noteq> None"
    using Cons.prems(2,3) eq by auto
  from Cons.IH [OF v1(1) this]
  obtain v2 where v2: "spend_inputs ops ins v1 = Inr (map (\<lambda>i. the (abs v1 (prevout i))) ins, v2)" "inv v2"
    "abs v2 = abs v1 |` (- set (map prevout ins))"
    by blast
  have "map (\<lambda>i. the (abs v1 (prevout i))) ins = map (\<lambda>i. the (abs v (prevout i))) ins"
    using eq by simp
  then show ?case
    using s v1 v2 coin by (auto simp: restrict_map_def fun_eq_iff)
qed simp

lemma UpdateCoins_spendable:
  assumes "inv v" "tx_spendable (abs v) h tx"
  shows "\<exists>v'. UpdateCoins ops tx h v = Inr (map (the \<circ> abs v) (spent_points tx), v') \<and> inv v' \<and>
    abs v' = connect_utxo tx h (abs v)"
proof -
  have ins: "\<exists>v'. (if \<not> IsCoinBase tx then spend_inputs ops (vin tx) v else Inr ([], v)) =
      Inr (map (the \<circ> abs v) (spent_points tx), v') \<and> inv v' \<and> abs v' = abs v |` (- set (spent_points tx))"
  proof (cases "IsCoinBase tx")
    case True
    then show ?thesis using assms(1) by (simp add: spent_points_def)
  next
    case False
    then have "distinct (map prevout (vin tx))" "\<forall>i \<in> set (vin tx). abs v (prevout i) \<noteq> None"
      using assms(2) by (auto simp: spent_points_def tx_spendable_def)
    from spend_inputs_spec [OF assms(1) this] show ?thesis
      using False by (simp add: spent_points_def comp_def)
  qed
  then obtain v1 where v1: "(if \<not> IsCoinBase tx then spend_inputs ops (vin tx) v else Inr ([], v)) =
      Inr (map (the \<circ> abs v) (spent_points tx), v1)" "inv v1" "abs v1 = abs v |` (- set (spent_points tx))"
    by blast
  have "\<forall>p \<in> fst ` set (new_coins tx h). abs v1 p = None"
    using assms(2) v1(3) by (auto simp: tx_spendable_def restrict_map_def)
  then obtain v2 where "AddCoins ops tx h False v1 = Inr v2" "inv v2" "abs v2 = connect_utxo tx h (abs v)"
    using AddCoins_loop_spec [OF v1(2), of "vout tx" 0 "ComputeHash tx" "IsCoinBase tx" "IsCoinStake tx" h] assms(2) v1(3)
    by (auto simp: AddCoins_def new_coins_def connect_utxo_def tx_spendable_def)
  then show ?thesis
    unfolding UpdateCoins_def v1(1) by simp
qed

lemma UpdateCoins_spec:
  assumes "inv v" "tx_connectable (abs v) h tx"
  shows "\<exists>v'. UpdateCoins ops tx h v = Inr (map (the \<circ> abs v) (spent_points tx), v') \<and> inv v' \<and>
    abs v' = connect_utxo tx h (abs v)"
  by (rule UpdateCoins_spendable [OF assms(1)]) (use assms(2) in \<open>auto simp: tx_connectable_def tx_spendable_def\<close>)

lemma spend_outputs_spec:
  assumes "inv v" "i + length outs \<le> 2 ^ 32" "0 < h" "h < 2 ^ 30"
    and "\<forall>x \<in> set (out_coins txid cb cs h i outs). abs v (fst x) = Some (snd x)"
  shows "\<exists>v'. spend_outputs ops txid cb cs h i outs v = (True, v') \<and> inv v' \<and>
    abs v' = abs v |` (- fst ` set (out_coins txid cb cs h i outs))"
  using assms
proof (induction outs arbitrary: i v)
  case (Cons out outs)
  let ?p = "COutPoint txid (of_nat i)" and ?c = "Coin_make out h cb cs"
  show ?case
  proof (cases "IsUnspendable (scriptPubKey out)")
    case True
    then show ?thesis using Cons.IH [of v "Suc i"] Cons.prems by simp
  next
    case False
    have fresh: "?p \<notin> fst ` set (out_coins txid cb cs h (Suc i) outs)"
      using Cons.prems(2) by (intro out_coins_fresh) simp_all
    obtain r v1 where s: "co_SpendCoin ops v ?p = (r, v1)" by (cases "co_SpendCoin ops v ?p")
    note v1 = spend_law [OF Cons.prems(1) s, of ?c]
    have "abs v ?p = Some ?c" using Cons.prems(5) False by simp
    then have r: "r = Some ?c" using v1 by simp
    have "\<forall>x \<in> set (out_coins txid cb cs h (Suc i) outs). abs v1 (fst x) = Some (snd x)"
      using Cons.prems(5) fresh v1 by (auto simp: image_iff)
    then obtain v2 where "spend_outputs ops txid cb cs h (Suc i) outs v1 = (True, v2)" "inv v2"
      "abs v2 = abs v1 |` (- fst ` set (out_coins txid cb cs h (Suc i) outs))"
      using Cons.IH [of v1 "Suc i"] conjunct1 [OF v1] Cons.prems(2-4) by auto
    then show ?thesis
      using s r v1 False Coin_make_height [OF Cons.prems(3,4), of out cb cs]
      by (auto simp: restrict_map_def fun_eq_iff)
  qed
qed simp

lemma ApplyTxInUndo_spec:
  assumes "inv v" "abs v p = None" "restorable c"
  shows "\<exists>v'. ApplyTxInUndo ops c p v = Inr (DISCONNECT_OK, v') \<and> inv v' \<and> abs v' = (abs v)(p \<mapsto> c)"
proof -
  obtain b v1 where b: "co_HaveCoin ops v p = (b, v1)" by (cases "co_HaveCoin ops v p")
  note v1 = have_law [OF assms(1) b]
  obtain v2 where "co_AddCoin ops v1 p c False = Inr v2" "inv v2" "abs v2 = (abs v)(p \<mapsto> c)"
    using add_law [of v1 c False p] v1 assms by (auto simp: restorable_def)
  then show ?thesis
    using b v1 assms by (auto simp: ApplyTxInUndo_def restorable_def)
qed

lemma restore_inputs_spec:
  assumes "inv v" "distinct (map fst pus)" "\<forall>x \<in> set pus. abs v (fst x) = None \<and> restorable (snd x)"
  shows "\<exists>v'. restore_inputs ops pus v = Inr (DISCONNECT_OK, v') \<and> inv v' \<and> abs v' = abs v ++ map_of pus"
  using assms
proof (induction pus arbitrary: v)
  case (Cons pu pus)
  obtain p c where pu: "pu = (p, c)" by (cases pu)
  obtain v1 where v1: "ApplyTxInUndo ops c p v = Inr (DISCONNECT_OK, v1)" "inv v1" "abs v1 = (abs v)(p \<mapsto> c)"
    using ApplyTxInUndo_spec [OF Cons.prems(1), of p c] Cons.prems(3) pu by auto
  have new: "p \<notin> fst ` set pus" using Cons.prems(2) pu by simp
  then have "\<forall>x \<in> set pus. abs v1 (fst x) = None \<and> restorable (snd x)"
    using Cons.prems(3) v1(3) by (auto simp: image_iff)
  then obtain v2 where "restore_inputs ops pus v1 = Inr (DISCONNECT_OK, v2)" "inv v2" "abs v2 = abs v1 ++ map_of pus"
    using Cons.IH [OF v1(2)] Cons.prems(2) by auto
  moreover have "map_of pus p = None" using new by (simp add: map_of_eq_None_iff)
  ultimately show ?case
    using v1 pu by (auto simp: map_add_upd_fresh fun_upd_def [symmetric])
qed simp

lemma disconnect_tx_spec:
  assumes v: "inv v" "abs v = connect_utxo tx h m" and c: "tx_connectable m h tx" and h: "0 < h" "h < 2 ^ 30"
    and u: "txundo = (if IsCoinBase tx then None else Some (map (the \<circ> m) (spent_points tx)))"
  shows "\<exists>v'. disconnect_tx ops tx txundo h v = Inr (DISCONNECT_OK, v') \<and> inv v' \<and> abs v' = m"
proof -
  let ?K = "fst ` set (new_coins tx h)"
  have K: "\<forall>p \<in> ?K. m p = None" and sp: "distinct (spent_points tx)"
      "\<forall>p \<in> set (spent_points tx). \<exists>c. m p = Some c \<and> restorable c"
    using c by (simp_all add: tx_connectable_def)
  have len: "0 + length (vout tx) \<le> 2 ^ 32" using c by (simp add: tx_connectable_def)
  have "\<forall>x \<in> set (new_coins tx h). abs v (fst x) = Some (snd x)"
    using out_coins_distinct [OF len, of "ComputeHash tx" "IsCoinBase tx" "IsCoinStake tx" h]
    by (auto simp: v(2) connect_utxo_def new_coins_def map_add_Some_iff intro!: map_of_is_SomeI)
  then obtain v1 where v1: "spend_outputs ops (ComputeHash tx) (IsCoinBase tx) (IsCoinStake tx) h 0 (vout tx) v = (True, v1)"
      "inv v1" "abs v1 = abs v |` (- ?K)"
    using spend_outputs_spec [OF v(1) len h, of "ComputeHash tx" "IsCoinBase tx" "IsCoinStake tx"]
    by (auto simp: new_coins_def)
  have abs1: "abs v1 = m |` (- set (spent_points tx))"
  proof
    fix p
    show "abs v1 p = (m |` (- set (spent_points tx))) p"
    proof (cases "p \<in> ?K")
      case True
      with bspec [OF K True] show ?thesis by (simp add: v1(3) restrict_map_def)
    next
      case False
      then have "map_of (new_coins tx h) p = None" by (simp add: map_of_eq_None_iff)
      then show ?thesis using False by (simp add: v1(3) v(2) connect_utxo_def restrict_map_def map_add_def)
    qed
  qed
  show ?thesis
  proof (cases "IsCoinBase tx")
    case True
    then show ?thesis
      using v1 abs1 u by (simp add: disconnect_tx_def spent_points_def)
  next
    case False
    let ?ps = "map prevout (vin tx)"
    have ps: "spent_points tx = ?ps" using False by (simp add: spent_points_def)
    have pus: "rev (zip ?ps (map (the \<circ> m) ?ps)) = zip (rev ?ps) (map (the \<circ> m) (rev ?ps))"
      by (rule rev_zip_map)
    have "\<forall>x \<in> set (zip (rev ?ps) (map (the \<circ> m) (rev ?ps))). abs v1 (fst x) = None \<and> restorable (snd x)"
      using sp(2) unfolding ps abs1 zip_map_self by (fastforce simp: restrict_map_def)
    then obtain v2 where v2: "restore_inputs ops (rev (zip ?ps (map (the \<circ> m) ?ps))) v1 = Inr (DISCONNECT_OK, v2)"
      "inv v2" "abs v2 = abs v1 ++ map_of (zip (rev ?ps) (map (the \<circ> m) (rev ?ps)))"
      using restore_inputs_spec [OF v1(2), of "zip (rev ?ps) (map (the \<circ> m) (rev ?ps))"] sp(1)
      unfolding pus ps by auto
    have "abs v2 = m"
      using sp(2) unfolding v2(3) abs1 ps map_of_zip_map
      by (force simp: map_add_def restrict_map_def fun_eq_iff)
    then show ?thesis
      using v1(1) v2 False by (simp add: disconnect_tx_def u ps)
  qed
qed

lemma disconnect_txs_append:
  "disconnect_txs ops xs h v = Inr (DISCONNECT_OK, v1) \<Longrightarrow> disconnect_txs ops ys h v1 = Inr (DISCONNECT_OK, v2) \<Longrightarrow>
     disconnect_txs ops (xs @ ys) h v = Inr (DISCONNECT_OK, v2)"
proof (induction xs arbitrary: v)
  case (Cons x xs)
  from Cons.prems(1) obtain v' where "disconnect_tx ops (fst x) (snd x) h v = Inr (DISCONNECT_OK, v')"
    "disconnect_txs ops xs h v' = Inr (DISCONNECT_OK, v1)"
    by (auto elim!: bindE_InrE split: if_splits prod.splits) (metis DisconnectResult.exhaust)
  with Cons.IH [OF this(2) Cons.prems(2)] show ?case by simp
qed simp

text \<open>The undo data in the form \<open>DisconnectBlock\<close> uses it: none for the coinbase.\<close>

lemma connect_txs_spec:
  assumes "inv v" "txs_connectable (abs v) h txs" "0 < h" "h < 2 ^ 30"
  shows "\<exists>undos v'. connect_txs ops txs h v = Inr (undos, v') \<and> inv v' \<and> length undos = length txs \<and>
    abs v' = connect_utxos txs h (abs v) \<and>
    (\<forall>w. inv w \<and> abs w = abs v' \<longrightarrow>
       (\<exists>w'. disconnect_txs ops (rev (zip txs (map2 tx_undo txs undos))) h w = Inr (DISCONNECT_OK, w') \<and>
          inv w' \<and> abs w' = abs v))"
  using assms(1,2)
proof (induction txs arbitrary: v)
  case (Cons tx txs)
  have c: "tx_connectable (abs v) h tx" using Cons.prems(2) by simp
  let ?u = "map (the \<circ> abs v) (spent_points tx)"
  obtain v1 where v1: "UpdateCoins ops tx h v = Inr (?u, v1)" "inv v1" "abs v1 = connect_utxo tx h (abs v)"
    using UpdateCoins_spec [OF Cons.prems(1) c] by blast
  have "txs_connectable (abs v1) h txs" using Cons.prems(2) v1(3) by simp
  from Cons.IH [OF v1(2) this] obtain undos v2 where v2: "connect_txs ops txs h v1 = Inr (undos, v2)" "inv v2"
    "length undos = length txs" "abs v2 = connect_utxos txs h (abs v1)"
    "\<And>w. inv w \<Longrightarrow> abs w = abs v2 \<Longrightarrow>
       \<exists>w'. disconnect_txs ops (rev (zip txs (map2 tx_undo txs undos))) h w = Inr (DISCONNECT_OK, w') \<and>
          inv w' \<and> abs w' = abs v1"
    by blast
  have "\<exists>w'. disconnect_txs ops (rev (zip (tx # txs) (map2 tx_undo (tx # txs) (?u # undos)))) h w =
      Inr (DISCONNECT_OK, w') \<and> inv w' \<and> abs w' = abs v" if w: "inv w" "abs w = abs v2" for w
  proof -
    obtain w1 where w1: "disconnect_txs ops (rev (zip txs (map2 tx_undo txs undos))) h w = Inr (DISCONNECT_OK, w1)"
      "inv w1" "abs w1 = abs v1"
      using v2(5) [OF w] by blast
    obtain w2 where w2: "disconnect_tx ops tx (tx_undo tx ?u) h w1 = Inr (DISCONNECT_OK, w2)" "inv w2" "abs w2 = abs v"
      using disconnect_tx_spec [OF w1(2) w1(3) [unfolded v1(3)] c assms(3,4), of "tx_undo tx ?u"]
      by (auto simp: tx_undo_def)
    have "disconnect_txs ops [(tx, tx_undo tx ?u)] h w1 = Inr (DISCONNECT_OK, w2)" using w2(1) by simp
    from disconnect_txs_append [OF w1(1) this] w2(2,3) show ?thesis by simp
  qed
  then show ?case
    using v1(1) v1(3) v2(1-4) by simp
qed simp

theorem connect_disconnect:
  assumes "inv v" "txs_connectable (abs v) h (cb # txs)" "0 < h" "h < 2 ^ 30"
    and "IsCoinBase cb" "\<forall>tx \<in> set txs. \<not> IsCoinBase tx"
  shows "\<exists>undos v'. connect_coins ops (cb # txs) h v = Inr (undos, v') \<and> inv v' \<and>
    abs v' = connect_utxos (cb # txs) h (abs v) \<and>
    (\<forall>w. inv w \<and> abs w = abs v' \<longrightarrow>
       (\<exists>w'. disconnect_coins ops (cb # txs) undos h w = Inr (DISCONNECT_OK, w') \<and> inv w' \<and> abs w' = abs v))"
proof -
  obtain undos v' where u: "connect_txs ops (cb # txs) h v = Inr (undos, v')" "inv v'" "length undos = length (cb # txs)"
    "abs v' = connect_utxos (cb # txs) h (abs v)"
    "\<And>w. inv w \<Longrightarrow> abs w = abs v' \<Longrightarrow>
       \<exists>w'. disconnect_txs ops (rev (zip (cb # txs) (map2 tx_undo (cb # txs) undos))) h w = Inr (DISCONNECT_OK, w') \<and>
          inv w' \<and> abs w' = abs v"
    using connect_txs_spec [OF assms(1-4)] by blast
  obtain u0 us where us: "undos = u0 # us" "length us = length txs" using u(3) by (cases undos) auto
  have "map2 tx_undo txs us = map Some us"
    using us(2) assms(6) by (induction us txs rule: list_induct2) (auto simp: tx_undo_def)
  then have "zip (cb # txs) (map2 tx_undo (cb # txs) undos) = zip (cb # txs) (None # map Some us)"
    using assms(5) us by (simp add: tx_undo_def)
  then have "\<exists>w'. disconnect_coins ops (cb # txs) us h w = Inr (DISCONNECT_OK, w') \<and> inv w' \<and> abs w' = abs v"
    if "inv w" "abs w = abs v'" for w
    using u(5) [OF that] us(2) by (auto simp: disconnect_coins_def)
  moreover have "connect_coins ops (cb # txs) h v = Inr (us, v')"
    unfolding connect_coins_def u(1) by (simp add: us)
  ultimately show ?thesis using u(2,4) by blast
qed

end

section \<open>Properties\<close>

text \<open>
  C3: connecting the transactions of a block to a view of the coins succeeds whenever every input is
  available, removes exactly the spent coins and adds exactly the spendable outputs, and
  \<open>DisconnectBlock\<close> run with the produced undo data on any view of the resulting set reports a
  clean disconnect and gives back exactly the set of unspent coins there was before the block.
\<close>
theorem connect_disconnect_coins:
  assumes "cache_inv v" "txs_connectable (cache_utxo v) h (cb # txs)" "0 < h" "h < 2 ^ 30"
    and "IsCoinBase cb" "\<forall>tx \<in> set txs. \<not> IsCoinBase tx"
  shows "\<exists>undos v'. connect_coins cache_ops (cb # txs) h v = Inr (undos, v') \<and> cache_inv v' \<and>
    cache_utxo v' = connect_utxos (cb # txs) h (cache_utxo v) \<and>
    (\<forall>w. cache_inv w \<and> cache_utxo w = cache_utxo v' \<longrightarrow>
       (\<exists>w'. disconnect_coins cache_ops (cb # txs) undos h w = Inr (DISCONNECT_OK, w') \<and>
          cache_inv w' \<and> cache_utxo w' = cache_utxo v))"
  using cache.connect_disconnect [OF assms] .

definition sample_coinbase :: CTransaction where
  "sample_coinbase =
     \<lparr>vin = [\<lparr>prevout = COutPoint uint256_null (- 1), scriptSig = [1, 7], nSequence = - 1, scriptWitness = []\<rparr>],
      vout = [\<lparr>nValue = 50, scriptPubKey = [0x51]\<rparr>], nVersion = 2, nLockTime = 0\<rparr>"

definition sample_spend :: CTransaction where
  "sample_spend =
     \<lparr>vin = [\<lparr>prevout = COutPoint (ComputeHash sample_coinbase) 0, scriptSig = [], nSequence = - 1, scriptWitness = []\<rparr>],
      vout = [\<lparr>nValue = 0, scriptPubKey = [0x6a, 1, 9]\<rparr>], nVersion = 2, nLockTime = 0\<rparr>"

lemma sample_block_ok:
  "IsCoinBase sample_coinbase" "\<not> IsCoinBase sample_spend" "\<not> IsCoinStake sample_coinbase"
  "new_coins sample_coinbase 9 =
     [(COutPoint (ComputeHash sample_coinbase) 0, Coin_make \<lparr>nValue = 50, scriptPubKey = [0x51]\<rparr> 9 True False)]"
  "new_coins sample_spend 9 = []"
  by (simp_all add: sample_coinbase_def sample_spend_def IsCoinBase_def IsCoinStake_def COutPoint_IsNull_def
      new_coins_def IsUnspendable_def)

lemma sample_block_connectable: "txs_connectable (\<lambda>_. None) 9 [sample_coinbase, sample_spend]"
proof -
  have "connect_utxo sample_coinbase 9 (\<lambda>_. None) =
      [COutPoint (ComputeHash sample_coinbase) 0 \<mapsto> Coin_make \<lparr>nValue = 50, scriptPubKey = [0x51]\<rparr> 9 True False]"
    by (simp add: connect_utxo_def sample_block_ok)
  moreover have "restorable (Coin_make \<lparr>nValue = 50, scriptPubKey = [0x51]\<rparr> 9 True False)"
    by (simp add: restorable_def Coin_make_unspent Coin_make_height IsUnspendable_def)
  ultimately show ?thesis
    by (simp add: tx_connectable_def sample_block_ok spent_points_def) (simp add: sample_coinbase_def sample_spend_def)
qed

theorem connect_disconnect_coins_witness:
  "\<exists>undos v' w'. connect_coins cache_ops [sample_coinbase, sample_spend] 9
     (\<lparr>hashBlock = uint256_null, cacheCoins = []\<rparr>, CCoinsViewDB \<lparr>db_coins = [], db_best = uint256_null\<rparr>) =
       Inr (undos, v') \<and>
     disconnect_coins cache_ops [sample_coinbase, sample_spend] undos 9 v' = Inr (DISCONNECT_OK, w') \<and>
     cache_utxo w' = (\<lambda>_. None)"
proof -
  let ?v = "(\<lparr>hashBlock = uint256_null, cacheCoins = []\<rparr>, CCoinsViewDB \<lparr>db_coins = [], db_best = uint256_null\<rparr>)"
  have inv: "cache_inv ?v" by (simp add: cache_inv_def entries_ok_def)
  have m: "cache_utxo ?v = (\<lambda>_. None)" by (simp add: cache_utxo_def fun_eq_iff)
  have others: "\<forall>tx \<in> set [sample_spend]. \<not> IsCoinBase tx" by (simp add: sample_block_ok)
  have h: "0 < (9 :: int)" "9 < (2 ^ 30 :: int)" by simp_all
  obtain undos v' where c: "connect_coins cache_ops [sample_coinbase, sample_spend] 9 ?v = Inr (undos, v')"
      "cache_inv v'" and d: "\<And>w. cache_inv w \<Longrightarrow> cache_utxo w = cache_utxo v' \<Longrightarrow>
        \<exists>w'. disconnect_coins cache_ops [sample_coinbase, sample_spend] undos 9 w = Inr (DISCONNECT_OK, w') \<and>
          cache_inv w' \<and> cache_utxo w' = cache_utxo ?v"
    using connect_disconnect_coins [OF inv sample_block_connectable [folded m] h sample_block_ok(1) others] by blast
  from d [OF c(2) refl, unfolded m] c(1) show ?thesis by blast
qed

end
