(* ===== verification/Standard.thy ===== *)
theory Standard
  imports SigEncoding Hashes
begin

text \<open>
  The forms of output scripts the node knows (\<open>src/src/script/standard.h\<close>, \<open>src/src/script/standard.cpp\<close>): the template
  matcher \<open>Solver\<close>, the destinations it extracts, and the scripts built for a destination.

  \<open>Solver\<close> returns the type and the solutions it found, or \<open>None\<close> where the code returns false; the
  callers do not read the output arguments in that case.
\<close>

section \<open>Definitions\<close>

datatype txnouttype =
    TX_NONSTANDARD | TX_PUBKEY | TX_PUBKEYHASH | TX_SCRIPTHASH | TX_MULTISIG | TX_NULL_DATA
  | TX_WITNESS_V0_SCRIPTHASH | TX_WITNESS_V0_KEYHASH | TX_WITNESS_UNKNOWN | TX_CREATE | TX_CALL

definition GetTxnOutputType :: "txnouttype \<Rightarrow> string" where
  "GetTxnOutputType t =
     (case t of
        TX_NONSTANDARD \<Rightarrow> ''nonstandard''
      | TX_PUBKEY \<Rightarrow> ''pubkey''
      | TX_PUBKEYHASH \<Rightarrow> ''pubkeyhash''
      | TX_SCRIPTHASH \<Rightarrow> ''scripthash''
      | TX_MULTISIG \<Rightarrow> ''multisig''
      | TX_NULL_DATA \<Rightarrow> ''nulldata''
      | TX_WITNESS_V0_KEYHASH \<Rightarrow> ''witness_v0_keyhash''
      | TX_WITNESS_V0_SCRIPTHASH \<Rightarrow> ''witness_v0_scripthash''
      | TX_WITNESS_UNKNOWN \<Rightarrow> ''witness_unknown''
      | TX_CREATE \<Rightarrow> ''create''
      | TX_CALL \<Rightarrow> ''call'')"

text \<open>The version of the virtual machine, a packed bit field of 32 bits.\<close>

record VersionVM =
  vm_format :: "2 word"
  vm_rootVM :: "6 word"
  vm_vmVersion :: "8 word"
  vm_flagOptions :: "16 word"

definition VersionVM_toRaw :: "VersionVM \<Rightarrow> u32" where
  "VersionVM_toRaw v =
     or (ucast (vm_format v)) (or (push_bit 2 (ucast (vm_rootVM v)))
       (or (push_bit 8 (ucast (vm_vmVersion v))) (push_bit 16 (ucast (vm_flagOptions v)))))"

definition VersionVM_fromRaw :: "u32 \<Rightarrow> VersionVM" where
  "VersionVM_fromRaw val =
     \<lparr>vm_format = ucast val, vm_rootVM = ucast (drop_bit 2 val),
      vm_vmVersion = ucast (drop_bit 8 val), vm_flagOptions = ucast (drop_bit 16 val)\<rparr>"

definition VersionVM_GetNoExec :: VersionVM where
  "VersionVM_GetNoExec = \<lparr>vm_format = 0, vm_rootVM = 0, vm_vmVersion = 0, vm_flagOptions = 0\<rparr>"

definition VersionVM_GetEVMDefault :: VersionVM where
  "VersionVM_GetEVMDefault = \<lparr>vm_format = 0, vm_rootVM = 1, vm_vmVersion = 0, vm_flagOptions = 0\<rparr>"

abbreviation (input) STANDARD_MINIMUM_GAS_LIMIT :: u64 where "STANDARD_MINIMUM_GAS_LIMIT \<equiv> 10000"
abbreviation (input) STANDARD_MINIMUM_GAS_PRICE :: u64 where "STANDARD_MINIMUM_GAS_PRICE \<equiv> 1"
abbreviation (input) MAX_BLOCK_GAS_LIMIT_DGP :: u64 where "MAX_BLOCK_GAS_LIMIT_DGP \<equiv> 1000000000"
abbreviation (input) DEFAULT_BLOCK_GAS_LIMIT_DGP :: u64 where "DEFAULT_BLOCK_GAS_LIMIT_DGP \<equiv> 40000000"

definition mTemplates :: "(txnouttype \<times> CScript) list" where
  "mTemplates =
     [(TX_PUBKEY, map of_nat [OP_PUBKEY, OP_CHECKSIG]),
      (TX_PUBKEYHASH, map of_nat [OP_DUP, OP_HASH160, OP_PUBKEYHASH, OP_EQUALVERIFY, OP_CHECKSIG]),
      (TX_MULTISIG, map of_nat [OP_SMALLINTEGER, OP_PUBKEYS, OP_SMALLINTEGER, OP_CHECKMULTISIG]),
      (TX_CREATE, map of_nat [OP_VERSION, OP_GAS_LIMIT, OP_GAS_PRICE, OP_DATA, OP_CREATE]),
      (TX_CALL, map of_nat [OP_VERSION, OP_GAS_LIMIT, OP_GAS_PRICE, OP_DATA, OP_PUBKEYHASH, OP_CALL])]"

text \<open>
  The branches of the comparison of one operation with one template operation: go on with the next
  one, leave the loop, or return false from \<open>Solver\<close>.
\<close>

datatype 'a solver_flow = Go 'a | Break | ReturnFalse

definition match_VERSION :: "opcodetype \<Rightarrow> valtype \<Rightarrow> VersionVM \<Rightarrow> VersionVM solver_flow" where
  "match_VERSION opcode1 vch1 version =
     (if opcode1 \<le> OP_PUSHDATA4 then
        if vch1 = [] \<or> length vch1 > 4 \<or> last vch1 AND 0x80 \<noteq> 0 then ReturnFalse
        else case vch_to_uint64 vch1 of
          Inl _ \<Rightarrow> ReturnFalse
        | Inr raw \<Rightarrow>
            let version = VersionVM_fromRaw (ucast raw)
            in if \<not> (VersionVM_toRaw version = VersionVM_toRaw VersionVM_GetEVMDefault \<or>
                     VersionVM_toRaw version = VersionVM_toRaw VersionVM_GetNoExec)
               then ReturnFalse else Go version
      else Go version)"

definition gas_limit_ok :: "bool \<Rightarrow> valtype \<Rightarrow> VersionVM \<Rightarrow> bool" where
  "gas_limit_ok contractConsensus vch1 version =
     (case vch_to_uint64 vch1 of
        Inl _ \<Rightarrow> False
      | Inr val \<Rightarrow>
          if contractConsensus then
            \<not> (vm_rootVM version \<noteq> 0 \<and> val < 1) \<and> \<not> val > MAX_BLOCK_GAS_LIMIT_DGP
          else
            \<not> (vm_rootVM version \<noteq> 0 \<and> val < STANDARD_MINIMUM_GAS_LIMIT) \<and>
            \<not> val > DEFAULT_BLOCK_GAS_LIMIT_DGP div 2)"

definition gas_price_ok :: "bool \<Rightarrow> valtype \<Rightarrow> VersionVM \<Rightarrow> bool" where
  "gas_price_ok contractConsensus vch1 version =
     (case vch_to_uint64 vch1 of
        Inl _ \<Rightarrow> False
      | Inr val \<Rightarrow>
          if contractConsensus then \<not> (vm_rootVM version \<noteq> 0 \<and> val < 1)
          else \<not> (vm_rootVM version \<noteq> 0 \<and> val < STANDARD_MINIMUM_GAS_PRICE))"

definition match_op ::
  "bool \<Rightarrow> opcodetype \<Rightarrow> valtype \<Rightarrow> opcodetype \<Rightarrow> valtype \<Rightarrow> VersionVM \<Rightarrow> valtype list \<Rightarrow>
   (VersionVM \<times> valtype list) solver_flow" where
  "match_op contractConsensus opcode1 vch1 opcode2 vch2 version sols =
     (if opcode2 = OP_PUBKEY then
        if length vch1 < 33 \<or> length vch1 > 65 then Break else Go (version, sols @ [vch1])
      else if opcode2 = OP_PUBKEYHASH then
        if length vch1 \<noteq> 20 then Break else Go (version, sols @ [vch1])
      else if opcode2 = OP_SMALLINTEGER then
        if opcode1 = OP_0 \<or> (opcode1 \<ge> OP_1 \<and> opcode1 \<le> OP_16)
        then Go (version, sols @ [[of_int (DecodeOP_N opcode1)]]) else Break
      else if opcode2 = OP_VERSION then
        (case match_VERSION opcode1 vch1 version of
           Go version \<Rightarrow> Go (version, sols) | Break \<Rightarrow> Break | ReturnFalse \<Rightarrow> ReturnFalse)
      else if opcode2 = OP_GAS_LIMIT then
        if gas_limit_ok contractConsensus vch1 version then Go (version, sols) else ReturnFalse
      else if opcode2 = OP_GAS_PRICE then
        if gas_price_ok contractConsensus vch1 version then Go (version, sols) else ReturnFalse
      else if opcode2 = OP_DATA then
        if opcode1 \<le> OP_PUSHDATA4 \<and> vch1 = [] then Break else Go (version, sols)
      else if opcode1 \<noteq> opcode2 \<or> vch1 \<noteq> vch2 then Break
      else Go (version, sols))"

text \<open>The inner loop that collects the keys; on a parse error it leaves an invalid opcode behind.\<close>

function match_keys ::
  "opcodetype \<Rightarrow> valtype \<Rightarrow> byte list \<Rightarrow> valtype list \<Rightarrow> opcodetype \<times> valtype \<times> byte list \<times> valtype list" where
  "match_keys opcode1 vch1 pc1 sols =
     (if length vch1 \<ge> 33 \<and> length vch1 \<le> 65 then
        case GetScriptOp pc1 of (ok, opcode1, vch1', pc1) \<Rightarrow>
          if \<not> ok then (opcode1, vch1', pc1, sols @ [vch1])
          else match_keys opcode1 vch1' pc1 (sols @ [vch1])
      else (opcode1, vch1, pc1, sols))"
  by pat_completeness auto
termination
  by (relation "measure (\<lambda>(_, _, pc1, _). length pc1)") (auto dest: GetScriptOp_ok_shorter [OF sym])

declare match_keys.simps [simp del]

text \<open>The comparison with one template: the solutions of a match.\<close>

function match_template ::
  "bool \<Rightarrow> byte list \<Rightarrow> byte list \<Rightarrow> VersionVM \<Rightarrow> valtype list \<Rightarrow> valtype list solver_flow" where
  "match_template contractConsensus pc1 pc2 version sols =
     (if pc1 = [] \<and> pc2 = [] then Go sols
      else case GetScriptOp pc1 of (ok1, opcode1, vch1, pc1) \<Rightarrow>
        if \<not> ok1 then Break
        else case GetScriptOp pc2 of (ok2, opcode2, vch2, pc2) \<Rightarrow>
          if \<not> ok2 then Break
          else
            if opcode2 = OP_PUBKEYS then
              case match_keys opcode1 vch1 pc1 sols of (opcode1, vch1, pc1, sols) \<Rightarrow>
              case GetScriptOp pc2 of (ok2, opcode2, vch2, pc2) \<Rightarrow>
                if \<not> ok2 then Break
                else case match_op contractConsensus opcode1 vch1 opcode2 vch2 version sols of
                  Break \<Rightarrow> Break
                | ReturnFalse \<Rightarrow> ReturnFalse
                | Go (version, sols) \<Rightarrow> match_template contractConsensus pc1 pc2 version sols
            else case match_op contractConsensus opcode1 vch1 opcode2 vch2 version sols of
              Break \<Rightarrow> Break
            | ReturnFalse \<Rightarrow> ReturnFalse
            | Go (version, sols) \<Rightarrow> match_template contractConsensus pc1 pc2 version sols)"
  by pat_completeness auto
termination
proof (relation "measure (\<lambda>(_, _, pc2, _). length pc2)", goal_cases)
  case 2
  then show ?case by (auto dest!: GetScriptOp_ok_shorter [OF sym])
next
  case 3
  then show ?case by (auto dest!: GetScriptOp_ok_shorter [OF sym])
qed simp

declare match_template.simps [simp del]

definition multisig_ok :: "valtype list \<Rightarrow> bool" where
  "multisig_ok sols \<longleftrightarrow>
     (let m = unat (hd sols ! 0); n = unat (last sols ! 0)
      in \<not> (m < 1 \<or> n < 1 \<or> m > n \<or> length sols - 2 \<noteq> n))"

text \<open>Only the field \<open>rootVM\<close> of the initial version is set; no other field of it is read.\<close>

primrec scan_templates ::
  "bool \<Rightarrow> CScript \<Rightarrow> (txnouttype \<times> CScript) list \<Rightarrow> (txnouttype \<times> valtype list) option" where
  "scan_templates contractConsensus script1 [] = None"
| "scan_templates contractConsensus script1 (tplate # ts) =
     (case match_template contractConsensus script1 (snd tplate)
             \<lparr>vm_format = 0, vm_rootVM = 20, vm_vmVersion = 0, vm_flagOptions = 0\<rparr> [] of
        Go sols \<Rightarrow> if fst tplate = TX_MULTISIG \<and> \<not> multisig_ok sols then None else Some (fst tplate, sols)
      | ReturnFalse \<Rightarrow> None
      | Break \<Rightarrow> scan_templates contractConsensus script1 ts)"

definition Solver :: "CScript \<Rightarrow> bool \<Rightarrow> (txnouttype \<times> valtype list) option" where
  "Solver script contractConsensus =
     (if IsPayToScriptHash script then Some (TX_SCRIPTHASH, [take 20 (drop 2 script)])
      else case IsWitnessProgram script of
        Some (witnessversion, witnessprogram) \<Rightarrow>
          if witnessversion = 0 \<and> length witnessprogram = 20 then Some (TX_WITNESS_V0_KEYHASH, [witnessprogram])
          else if witnessversion = 0 \<and> length witnessprogram = 32
          then Some (TX_WITNESS_V0_SCRIPTHASH, [witnessprogram])
          else if witnessversion \<noteq> 0
          then Some (TX_WITNESS_UNKNOWN, [[of_int witnessversion], witnessprogram])
          else None
      | None \<Rightarrow>
          if length script \<ge> 1 \<and> unat (script ! 0) = OP_RETURN \<and> IsPushOnly (drop 1 script)
          then Some (TX_NULL_DATA, [])
          else scan_templates contractConsensus script mTemplates)"

definition CPubKey_GetID :: "CPubKey \<Rightarrow> byte list" where
  "CPubKey_GetID key = Hash160 key"

text \<open>
  The variant \<open>CTxDestination\<close>.  Of the array of 40 bytes of a \<open>WitnessUnknown\<close> only the first
  \<open>length\<close> bytes are read; they are its program here.
\<close>

datatype CTxDestination =
    CNoDestination
  | CKeyID "byte list"
  | CScriptID "byte list"
  | WitnessV0ScriptHash "byte list"
  | WitnessV0KeyHash "byte list"
  | WitnessUnknown nat "byte list"

definition ExtractDestination :: "CScript \<Rightarrow> CTxDestination option" where
  "ExtractDestination script =
     (case Solver script False of
        None \<Rightarrow> None
      | Some (whichType, vSolutions) \<Rightarrow>
          if whichType = TX_PUBKEY then
            let pubKey = CPubKey_Set (vSolutions ! 0)
            in if \<not> CPubKey_IsValid pubKey then None else Some (CKeyID (CPubKey_GetID pubKey))
          else if whichType = TX_PUBKEYHASH then Some (CKeyID (vSolutions ! 0))
          else if whichType = TX_SCRIPTHASH then Some (CScriptID (vSolutions ! 0))
          else if whichType = TX_WITNESS_V0_KEYHASH then Some (WitnessV0KeyHash (vSolutions ! 0))
          else if whichType = TX_WITNESS_V0_SCRIPTHASH then Some (WitnessV0ScriptHash (vSolutions ! 0))
          else if whichType = TX_WITNESS_UNKNOWN
          then Some (WitnessUnknown (unat (vSolutions ! 0 ! 0)) (vSolutions ! 1))
          else None)"

definition multisig_destinations :: "valtype list \<Rightarrow> CTxDestination list" where
  "multisig_destinations keys =
     map (CKeyID \<circ> CPubKey_GetID) (filter CPubKey_IsValid (map CPubKey_Set keys))"

definition ExtractDestinations :: "CScript \<Rightarrow> (txnouttype \<times> CTxDestination list \<times> nat) option" where
  "ExtractDestinations script =
     (case Solver script False of
        None \<Rightarrow> None
      | Some (typeRet, vSolutions) \<Rightarrow>
          if typeRet = TX_NULL_DATA then None
          else if typeRet = TX_MULTISIG then
            let addressRet = multisig_destinations (butlast (tl vSolutions))
            in if addressRet = [] then None
               else Some (typeRet, addressRet, unat (hd vSolutions ! 0))
          else case ExtractDestination script of
            None \<Rightarrow> None
          | Some address \<Rightarrow> Some (typeRet, [address], 1))"

definition GetScriptForDestination :: "CTxDestination \<Rightarrow> CScript" where
  "GetScriptForDestination dest =
     (case dest of
        CNoDestination \<Rightarrow> []
      | CKeyID keyID \<Rightarrow>
          push_vch [of_nat OP_DUP, of_nat OP_HASH160] keyID @ [of_nat OP_EQUALVERIFY, of_nat OP_CHECKSIG]
      | CScriptID scriptID \<Rightarrow> push_vch [of_nat OP_HASH160] scriptID @ [of_nat OP_EQUAL]
      | WitnessV0KeyHash h \<Rightarrow> push_vch [of_nat OP_0] h
      | WitnessV0ScriptHash h \<Rightarrow> push_vch [of_nat OP_0] h
      | WitnessUnknown version program \<Rightarrow> push_vch [of_nat (EncodeOP_N (int version))] program)"

definition GetScriptForRawPubKey :: "CPubKey \<Rightarrow> CScript" where
  "GetScriptForRawPubKey pubKey = push_vch [] pubKey @ [of_nat OP_CHECKSIG]"

definition GetScriptForMultisig :: "nat \<Rightarrow> CPubKey list \<Rightarrow> CScript" where
  "GetScriptForMultisig nRequired keys =
     foldl push_vch [of_nat (EncodeOP_N (int nRequired))] keys @
       [of_nat (EncodeOP_N (int (length keys))), of_nat OP_CHECKMULTISIG]"

definition GetScriptForWitness :: "CScript \<Rightarrow> CScript" where
  "GetScriptForWitness redeemscript =
     (case Solver redeemscript False of
        Some (TX_PUBKEY, vSolutions) \<Rightarrow> GetScriptForDestination (WitnessV0KeyHash (Hash160 (vSolutions ! 0)))
      | Some (TX_PUBKEYHASH, vSolutions) \<Rightarrow> GetScriptForDestination (WitnessV0KeyHash (vSolutions ! 0))
      | _ \<Rightarrow> GetScriptForDestination (WitnessV0ScriptHash
               (CSHA256_Finalize (CSHA256_Write (CSHA256_init uninit) redeemscript))))"

definition IsValidDestination :: "CTxDestination \<Rightarrow> bool" where
  "IsValidDestination dest \<longleftrightarrow> dest \<noteq> CNoDestination"

definition IsValidContractSenderAddress :: "CTxDestination \<Rightarrow> bool" where
  "IsValidContractSenderAddress dest \<longleftrightarrow> (case dest of CKeyID _ \<Rightarrow> True | _ \<Rightarrow> False)"

section \<open>Matching one template\<close>

lemma match_template_Nil [simp]:
  "match_template cc pc1 [] version sols = (if pc1 = [] then Go sols else Break)"
  by (subst match_template.simps) (auto split: prod.split)

lemma match_template_Go_Nil: "match_template cc [] (b # pc2) version sols = Break"
  by (subst match_template.simps) simp

lemma match_template_step:
  assumes "OP_PUSHDATA4 < opcode2" "opcode2 \<le> 0xff" "opcode2 \<noteq> OP_PUBKEYS"
  shows "match_template cc pc1 (of_nat opcode2 # pc2) version sols =
    (case GetScriptOp pc1 of (ok1, opcode1, vch1, pc1) \<Rightarrow>
       if \<not> ok1 then Break
       else case match_op cc opcode1 vch1 opcode2 [] version sols of
              Break \<Rightarrow> Break
            | ReturnFalse \<Rightarrow> ReturnFalse
            | Go (version, sols) \<Rightarrow> match_template cc pc1 pc2 version sols)"
  using assms by (subst match_template.simps) (simp add: GetScriptOp_opcode split: prod.split)

lemma match_template_keys:
  assumes "OP_PUSHDATA4 < opcode2" "opcode2 \<le> 0xff"
  shows "match_template cc pc1 (of_nat OP_PUBKEYS # of_nat opcode2 # pc2) version sols =
    (case GetScriptOp pc1 of (ok1, opcode1, vch1, pc1) \<Rightarrow>
       if \<not> ok1 then Break
       else case match_keys opcode1 vch1 pc1 sols of (opcode1, vch1, pc1, sols) \<Rightarrow>
         case match_op cc opcode1 vch1 opcode2 [] version sols of
              Break \<Rightarrow> Break
            | ReturnFalse \<Rightarrow> ReturnFalse
            | Go (version, sols) \<Rightarrow> match_template cc pc1 pc2 version sols)"
  using assms GetScriptOp_opcode [of OP_PUBKEYS "of_nat opcode2 # pc2"] GetScriptOp_opcode [of opcode2 pc2]
  by (subst match_template.simps) (simp split: prod.split)


lemmas tplate_step =
  match_template_step [of OP_PUBKEY, simplified] match_template_step [of OP_CHECKSIG, simplified]
  match_template_step [of OP_DUP, simplified] match_template_step [of OP_HASH160, simplified]
  match_template_step [of OP_PUBKEYHASH, simplified] match_template_step [of OP_EQUALVERIFY, simplified]
  match_template_step [of OP_SMALLINTEGER, simplified] match_template_step [of OP_CHECKMULTISIG, simplified]
  match_template_step [of OP_VERSION, simplified] match_template_step [of OP_GAS_LIMIT, simplified]
  match_template_step [of OP_GAS_PRICE, simplified] match_template_step [of OP_DATA, simplified]
  match_template_step [of OP_CREATE, simplified] match_template_step [of OP_CALL, simplified]
  match_template_keys [of OP_SMALLINTEGER, simplified]

lemmas op_read =
  GetScriptOp_opcode [of OP_DUP, simplified] GetScriptOp_opcode [of OP_HASH160, simplified]
  GetScriptOp_opcode [of OP_EQUALVERIFY, simplified] GetScriptOp_opcode [of OP_CHECKSIG, simplified]
  GetScriptOp_opcode [of OP_CHECKMULTISIG, simplified]

lemma push_vch_short: "length b < 76 \<Longrightarrow> push_vch s b = s @ of_nat (length b) # b"
  by (simp add: push_vch_def)

lemma GetScriptOp_short: "length b < 76 \<Longrightarrow> GetScriptOp (of_nat (length b) # b @ rest) = (True, length b, b, rest)"
  using GetScriptOp_push_vch [of b rest] by (simp add: push_vch_short push_op_def)

lemma Solver_P2PKH:
  assumes "length h = 20"
  shows "Solver (GetScriptForDestination (CKeyID h)) cc = Some (TX_PUBKEYHASH, [h])"
proof -
  have "GetScriptOp (0x14 # h @ rest) = (True, 20, h, rest)" for rest
    using GetScriptOp_short [of h rest] assms by simp
  then show ?thesis
    using assms by (simp add: Solver_def GetScriptForDestination_def push_vch_short IsPayToScriptHash_def
        IsWitnessProgram_def mTemplates_def tplate_step op_read match_op_def)
qed

lemma Solver_P2SH:
  assumes "length h = 20"
  shows "Solver (GetScriptForDestination (CScriptID h)) cc = Some (TX_SCRIPTHASH, [h])"
  using assms by (simp add: Solver_def GetScriptForDestination_def push_vch_short IsPayToScriptHash_def nth_append)

lemma Solver_witness:
  assumes "v \<le> 16" "2 \<le> length p" "length p \<le> 40"
  shows "Solver (push_vch [of_nat (EncodeOP_N (int v))] p) cc =
    (if v = 0 \<and> length p = 20 then Some (TX_WITNESS_V0_KEYHASH, [p])
     else if v = 0 \<and> length p = 32 then Some (TX_WITNESS_V0_SCRIPTHASH, [p])
     else if v \<noteq> 0 then Some (TX_WITNESS_UNKNOWN, [[of_nat v], p]) else None)"
proof -
  let ?op = "EncodeOP_N (int v)"
  have op: "?op = (if v = 0 then 0 else 80 + v)" using assms(1) by (auto simp: EncodeOP_N_def)
  have le: "?op < 256" using op assms(1) by simp
  have u: "unat (of_nat ?op :: byte) = ?op" "unat (of_nat (length p) :: byte) = length p"
    using le assms(3) by (simp_all add: unat_of_nat)
  have d: "DecodeOP_N ?op = int v" using op by (simp add: DecodeOP_N_def)
  have "IsWitnessProgram (push_vch [of_nat ?op] p) = Some (int v, p)"
    using assms u d op by (simp add: IsWitnessProgram_def push_vch_short)
  moreover have "\<not> IsPayToScriptHash (push_vch [of_nat ?op] p)"
    using assms u op by (simp add: IsPayToScriptHash_def push_vch_short)
  ultimately show ?thesis by (simp add: Solver_def)
qed

definition dest_ok :: "CTxDestination \<Rightarrow> bool" where
  "dest_ok dest \<longleftrightarrow>
     (case dest of
        CNoDestination \<Rightarrow> False
      | CKeyID h \<Rightarrow> length h = 20
      | CScriptID h \<Rightarrow> length h = 20
      | WitnessV0KeyHash h \<Rightarrow> length h = 20
      | WitnessV0ScriptHash h \<Rightarrow> length h = 32
      | WitnessUnknown v p \<Rightarrow> 1 \<le> v \<and> v \<le> 16 \<and> 2 \<le> length p \<and> length p \<le> 40)"

lemma ExtractDestination_script:
  assumes "dest_ok dest"
  shows "ExtractDestination (GetScriptForDestination dest) = Some dest"
proof (cases dest)
  case (WitnessV0KeyHash h)
  then show ?thesis
    using assms Solver_witness [of 0 h False]
    by (simp add: ExtractDestination_def GetScriptForDestination_def dest_ok_def EncodeOP_N_def)
next
  case (WitnessV0ScriptHash h)
  then show ?thesis
    using assms Solver_witness [of 0 h False]
    by (simp add: ExtractDestination_def GetScriptForDestination_def dest_ok_def EncodeOP_N_def)
next
  case (WitnessUnknown v p)
  then have "GetScriptForDestination dest = push_vch [of_nat (EncodeOP_N (int v))] p"
    by (simp add: GetScriptForDestination_def)
  then show ?thesis
    using assms WitnessUnknown Solver_witness [of v p False]
    by (simp add: ExtractDestination_def dest_ok_def unat_of_nat)
qed (use assms in \<open>simp_all add: ExtractDestination_def dest_ok_def Solver_P2PKH Solver_P2SH\<close>)

section \<open>Multisignature scripts\<close>

lemma foldl_push_vch: "foldl push_vch s ks = s @ concat (map (push_vch []) ks)"
proof (induction ks arbitrary: s)
  case (Cons k ks)
  then show ?case by (simp add: push_vch_append [of s k])
qed simp

lemma match_keys_all:
  assumes "33 \<le> length k" "length k \<le> 65" "\<forall>k \<in> set ks. 33 \<le> length k \<and> length k \<le> 65"
    and "OP_PUSHDATA4 < opcode" "opcode \<le> 0xff"
  shows "match_keys op1 k (concat (map (push_vch []) ks) @ of_nat opcode # rest) sols =
    (opcode, [], rest, sols @ k # ks)"
  using assms(1-3)
proof (induction ks arbitrary: op1 k sols)
  case Nil
  then show ?case
    using GetScriptOp_opcode [OF assms(4,5), of rest]
    by (subst match_keys.simps) (simp, subst match_keys.simps, simp)
next
  case (Cons k' ks)
  then have "GetScriptOp (push_vch [] k' @ concat (map (push_vch []) ks) @ of_nat opcode # rest) =
      (True, push_op k', k', concat (map (push_vch []) ks) @ of_nat opcode # rest)"
    by (intro GetScriptOp_push_vch) auto
  then show ?case
    using Cons by (subst match_keys.simps) simp
qed

lemma Solver_multisig:
  assumes "1 \<le> m" "m \<le> length keys" "length keys \<le> 16" "\<forall>k \<in> set keys. 33 \<le> length k \<and> length k \<le> 65"
  shows "Solver (GetScriptForMultisig m keys) cc =
    Some (TX_MULTISIG, [of_nat m] # keys @ [[of_nat (length keys)]])"
proof -
  obtain k ks where keys: "keys = k # ks" using assms by (cases keys) auto
  have k: "33 \<le> length k" "length k \<le> 65" "\<forall>k \<in> set ks. 33 \<le> length k \<and> length k \<le> 65"
    using assms(4) keys by auto
  have enc: "EncodeOP_N (int m) = 80 + m" "EncodeOP_N (int (length keys)) = 80 + length keys"
    using assms(1,2) by (auto simp: EncodeOP_N_def)
  have dec: "DecodeOP_N (80 + j) = int j" if "1 \<le> j" for j using that by (simp add: DecodeOP_N_def)
  have s: "GetScriptForMultisig m keys =
      of_nat (80 + m) # push_vch [] k @ concat (map (push_vch []) ks) @ [of_nat (80 + length keys), of_nat OP_CHECKMULTISIG]"
    unfolding GetScriptForMultisig_def foldl_push_vch enc by (simp add: keys)
  let ?s = "GetScriptForMultisig m keys"
  have len: "length ?s \<ge> 37" and pk: "?s ! 1 = of_nat (length k)" and l1: "length keys = 1 \<Longrightarrow> length ?s = length k + 4"
    unfolding s using k by (simp_all add: push_vch_short keys)
  have l2: "length ?s > 42" if ne: "length keys \<noteq> 1"
  proof -
    obtain k' ks' where "ks = k' # ks'" using ne keys by (cases ks) auto
    then show ?thesis unfolding s using k by (simp add: push_vch_short)
  qed
  have hd: "unat (?s ! 0) = 80 + m"
    unfolding s using assms by (simp add: unat_of_nat del: of_nat_add)
  have "\<not> IsPayToScriptHash ?s" using hd assms by (simp add: IsPayToScriptHash_def)
  moreover have "IsWitnessProgram ?s = None"
    using l1 l2 pk k(2) by (cases "length keys = 1") (simp_all add: IsWitnessProgram_def unat_of_nat)
  moreover have "\<not> unat (?s ! 0) = OP_RETURN" using hd assms by simp
  moreover have "scan_templates cc ?s mTemplates = Some (TX_MULTISIG, [of_nat m] # keys @ [[of_nat (length keys)]])"
  proof -
    have g1: "GetScriptOp (of_nat (80 + j) # rest) = (True, 80 + j, [], rest)" if "j \<le> 16" for j rest
      using that by (intro GetScriptOp_opcode) simp_all
    have g2: "GetScriptOp (push_vch [] k @ rest) = (True, push_op k, k, rest)" for rest
      using k by (intro GetScriptOp_push_vch) simp
    have g3: "match_keys op1 k (concat (map (push_vch []) ks) @ of_nat (80 + length keys) # rest) sols =
        (80 + length keys, [], rest, sols @ keys)" for op1 rest sols
      unfolding keys using k assms(3) keys by (intro match_keys_all) simp_all
    have ne: "keys \<noteq> []" using keys by simp
    have ok: "multisig_ok ([of_nat m] # keys @ [[of_nat (length keys)]])"
      using assms ne by (simp add: multisig_ok_def Let_def unat_of_nat)
    show ?thesis
      unfolding s mTemplates_def
      using assms ne g1 [OF order.trans [OF assms(2,3)]] g1 [OF assms(3)] g2 g3 ok
      by (simp add: tplate_step op_read match_op_def dec del: of_nat_add)
  qed
  ultimately show ?thesis by (simp add: Solver_def)
qed


section \<open>What \<open>Solver\<close> accepts\<close>
























lemma ValidSize_CPubKey_Set: "ValidSize k \<Longrightarrow> CPubKey_Set k = k \<and> 33 \<le> length k \<and> length k \<le> 65"
  by (auto simp: ValidSize_def CPubKey_Set_def GetLen_def split: if_splits)

lemma ExtractDestinations_multisig:
  assumes "1 \<le> m" "m \<le> length keys" "length keys \<le> 16" "\<forall>k \<in> set keys. ValidSize k"
  shows "ExtractDestinations (GetScriptForMultisig m keys) =
    Some (TX_MULTISIG, map (\<lambda>k. CKeyID (CPubKey_GetID k)) keys, m)"
proof -
  have sizes: "\<forall>k \<in> set keys. 33 \<le> length k \<and> length k \<le> 65" using assms(4) ValidSize_CPubKey_Set by blast
  have keys: "map CPubKey_Set keys = keys" using assms(4) ValidSize_CPubKey_Set by (intro map_idI) blast
  have "filter CPubKey_IsValid keys = keys"
    using assms(4) by (simp add: filter_id_conv CPubKey_IsValid_def ValidSize_def)
  moreover have "unat (of_nat m :: byte) = m" using assms(2,3) by (simp add: unat_of_nat)
  moreover have "keys \<noteq> []" using assms(1,2) by auto
  ultimately show ?thesis
    using Solver_multisig [OF assms(1-3) sizes, of False] keys
    by (simp add: ExtractDestinations_def multisig_destinations_def comp_def)
qed

section \<open>Properties\<close>





text \<open>
  C24: the script built for a destination is recognised as that destination, and the script built for a
  multisignature as its keys and the required number of signatures.
\<close>
theorem destination_roundtrip:
  "(dest_ok dest \<longrightarrow> ExtractDestination (GetScriptForDestination dest) = Some dest) \<and>
   (1 \<le> m \<and> m \<le> length keys \<and> length keys \<le> 16 \<and> (\<forall>k \<in> set keys. ValidSize k) \<longrightarrow>
      ExtractDestinations (GetScriptForMultisig m keys) =
        Some (TX_MULTISIG, map (\<lambda>k. CKeyID (CPubKey_GetID k)) keys, m))"
  using ExtractDestination_script ExtractDestinations_multisig by blast

theorem destination_roundtrip_witness:
  "ExtractDestination (GetScriptForDestination (WitnessUnknown 1 (replicate 32 9))) =
     Some (WitnessUnknown 1 (replicate 32 9)) \<and>
   ExtractDestinations (GetScriptForMultisig 1 [2 # replicate 32 1, 4 # replicate 64 5]) =
     Some (TX_MULTISIG, [CKeyID (CPubKey_GetID (2 # replicate 32 1)), CKeyID (CPubKey_GetID (4 # replicate 64 5))], 1)"
  using destination_roundtrip [of "WitnessUnknown 1 (replicate 32 9)" 1 "[2 # replicate 32 1, 4 # replicate 64 5]"]
  by (simp add: dest_ok_def ValidSize_def GetLen_def)

end
