(* ===== verification/ArithUint.thy ===== *)
theory ArithUint
  imports Serialize
begin

text \<open>
  The 256-bit integers of the proof-of-work code (\<open>src/src/arith_uint256.h\<close>, \<open>src/src/arith_uint256.cpp\<close>).

  A number is the array \<open>pn\<close> of its eight 32-bit words, least significant first, and the operations
  are the loops over that array with their 64-bit carries.  \<open>limbs_val\<close> is the number an array stands
  for; the operations implement the arithmetic of the numbers below \<open>2 ^ 256\<close>.
\<close>

section \<open>Definitions\<close>

type_synonym base_uint = "u32 list"

abbreviation (input) WIDTH :: nat where "WIDTH \<equiv> 8"

definition base_zero :: base_uint where
  "base_zero = replicate WIDTH 0"

definition base_of_u64 :: "u64 \<Rightarrow> base_uint" where
  "base_of_u64 b = [ucast b, ucast (drop_bit 32 b)] @ replicate (WIDTH - 2) 0"

definition base_not :: "base_uint \<Rightarrow> base_uint" where
  "base_not pn = map (\<lambda>x. NOT x) pn"

primrec base_inc :: "base_uint \<Rightarrow> base_uint" where
  "base_inc [] = []"
| "base_inc (x # pn) = (if x + 1 = 0 then (x + 1) # base_inc pn else (x + 1) # pn)"

primrec base_dec :: "base_uint \<Rightarrow> base_uint" where
  "base_dec [] = []"
| "base_dec (x # pn) = (if x - 1 = - 1 then (x - 1) # base_dec pn else (x - 1) # pn)"

definition base_neg :: "base_uint \<Rightarrow> base_uint" where
  "base_neg pn = base_inc (base_not pn)"

fun add_loop :: "u64 \<Rightarrow> base_uint \<Rightarrow> base_uint \<Rightarrow> base_uint" where
  "add_loop carry (x # pn) (y # b) =
     (let n = carry + ucast x + ucast y in ucast (n AND 0xffffffff) # add_loop (drop_bit 32 n) pn b)"
| "add_loop carry pn b = []"

definition base_add :: "base_uint \<Rightarrow> base_uint \<Rightarrow> base_uint" where
  "base_add pn b = add_loop 0 pn b"

definition base_sub :: "base_uint \<Rightarrow> base_uint \<Rightarrow> base_uint" where
  "base_sub pn b = base_add pn (base_neg b)"

primrec mul32_loop :: "u64 \<Rightarrow> u32 \<Rightarrow> base_uint \<Rightarrow> base_uint" where
  "mul32_loop carry b32 [] = []"
| "mul32_loop carry b32 (x # pn) =
     (let n = carry + ucast b32 * ucast x in ucast (n AND 0xffffffff) # mul32_loop (drop_bit 32 n) b32 pn)"

definition base_mul32 :: "base_uint \<Rightarrow> u32 \<Rightarrow> base_uint" where
  "base_mul32 pn b32 = mul32_loop 0 b32 pn"

text \<open>The inner loop of the product, over the words of \<open>a\<close> from position \<open>j\<close>.\<close>

fun mul_row :: "u64 \<Rightarrow> u32 \<Rightarrow> base_uint \<Rightarrow> base_uint \<Rightarrow> base_uint" where
  "mul_row carry pnj (x # a) (y # b) =
     (let n = carry + ucast x + ucast pnj * ucast y
      in ucast (n AND 0xffffffff) # mul_row (drop_bit 32 n) pnj a b)"
| "mul_row carry pnj a b = a"

definition base_mul :: "base_uint \<Rightarrow> base_uint \<Rightarrow> base_uint" where
  "base_mul pn b = fold (\<lambda>j a. take j a @ mul_row 0 (pn ! j) (drop j a) b) [0..<WIDTH] base_zero"

definition shl_step :: "base_uint \<Rightarrow> nat \<Rightarrow> nat \<Rightarrow> nat \<Rightarrow> base_uint \<Rightarrow> base_uint" where
  "shl_step a k shift i pn =
     (let pn = (if i + k + 1 < WIDTH \<and> shift \<noteq> 0
                then pn[i + k + 1 := pn ! (i + k + 1) OR drop_bit (32 - shift) (a ! i)] else pn)
      in if i + k < WIDTH then pn[i + k := pn ! (i + k) OR push_bit shift (a ! i)] else pn)"

definition base_shl :: "base_uint \<Rightarrow> nat \<Rightarrow> base_uint" where
  "base_shl a shift = fold (shl_step a (shift div 32) (shift mod 32)) [0..<WIDTH] base_zero"

definition shr_step :: "base_uint \<Rightarrow> nat \<Rightarrow> nat \<Rightarrow> nat \<Rightarrow> base_uint \<Rightarrow> base_uint" where
  "shr_step a k shift i pn =
     (let pn = (if k + 1 \<le> i \<and> shift \<noteq> 0
                then pn[i - k - 1 := pn ! (i - k - 1) OR push_bit (32 - shift) (a ! i)] else pn)
      in if k \<le> i then pn[i - k := pn ! (i - k) OR drop_bit shift (a ! i)] else pn)"

definition base_shr :: "base_uint \<Rightarrow> nat \<Rightarrow> base_uint" where
  "base_shr a shift = fold (shr_step a (shift div 32) (shift mod 32)) [0..<WIDTH] base_zero"

fun compare_loop :: "base_uint \<Rightarrow> base_uint \<Rightarrow> int" where
  "compare_loop (x # pn) (y # b) = (if x < y then - 1 else if x > y then 1 else compare_loop pn b)"
| "compare_loop pn b = 0"

definition CompareTo :: "base_uint \<Rightarrow> base_uint \<Rightarrow> int" where
  "CompareTo pn b = compare_loop (rev pn) (rev b)"

definition EqualTo :: "base_uint \<Rightarrow> u64 \<Rightarrow> bool" where
  "EqualTo pn b \<longleftrightarrow>
     list_all (\<lambda>x. x = 0) (drop 2 pn) \<and> \<not> ucast (pn ! 1) \<noteq> drop_bit 32 b \<and> \<not> ucast (pn ! 0) \<noteq> b AND 0xffffffff"

primrec limb_bits :: "u32 \<Rightarrow> nat \<Rightarrow> nat" where
  "limb_bits x 0 = 1"
| "limb_bits x (Suc nbits) = (if x AND push_bit (Suc nbits) 1 \<noteq> 0 then Suc nbits + 1 else limb_bits x nbits)"

primrec bits_loop :: "base_uint \<Rightarrow> nat \<Rightarrow> nat" where
  "bits_loop pn 0 = 0"
| "bits_loop pn (Suc pos) = (if pn ! pos \<noteq> 0 then 32 * pos + limb_bits (pn ! pos) 31 else bits_loop pn pos)"

definition base_bits :: "base_uint \<Rightarrow> nat" where
  "base_bits pn = bits_loop pn WIDTH"

definition GetLow64 :: "base_uint \<Rightarrow> u64" where
  "GetLow64 pn = ucast (pn ! 0) OR push_bit 32 (ucast (pn ! 1))"

text \<open>The loop of the long division; the argument is the number of turns left, \<open>shift + 1\<close>.\<close>

primrec div_loop :: "nat \<Rightarrow> base_uint \<Rightarrow> base_uint \<Rightarrow> base_uint \<Rightarrow> base_uint" where
  "div_loop 0 num dv pn = pn"
| "div_loop (Suc shift) num dv pn =
     (if CompareTo num dv \<ge> 0
      then div_loop shift (base_sub num dv) (base_shr dv 1)
             (pn[shift div 32 := pn ! (shift div 32) OR push_bit (shift mod 32) 1])
      else div_loop shift num (base_shr dv 1) pn)"

datatype uint_error = DivisionByZero

definition base_div :: "base_uint \<Rightarrow> base_uint \<Rightarrow> uint_error + base_uint" where
  "base_div num dv =
     (let num_bits = base_bits num; div_bits = base_bits dv
      in if div_bits = 0 then Inl DivisionByZero
         else if div_bits > num_bits then Inr base_zero
         else let shift = num_bits - div_bits
              in Inr (div_loop (Suc shift) num (base_shl dv shift) base_zero))"

text \<open>The compact form: value, sign and overflow; \<open>None\<close> is a failed assertion.\<close>

definition SetCompact :: "u32 \<Rightarrow> base_uint \<times> bool \<times> bool" where
  "SetCompact nCompact =
     (let nSize = unat (drop_bit 24 nCompact);
          nWord = nCompact AND 0x007fffff;
          nWord = (if nSize \<le> 3 then drop_bit (8 * (3 - nSize)) nWord else nWord);
          a = (if nSize \<le> 3 then base_of_u64 (ucast nWord)
               else base_shl (base_of_u64 (ucast nWord)) (8 * (nSize - 3)))
      in (a, nWord \<noteq> 0 \<and> nCompact AND 0x00800000 \<noteq> 0,
          nWord \<noteq> 0 \<and> (nSize > 34 \<or> (nWord > 0xff \<and> nSize > 33) \<or> (nWord > 0xffff \<and> nSize > 32))))"

definition GetCompact :: "base_uint \<Rightarrow> bool \<Rightarrow> u32 option" where
  "GetCompact pn fNegative =
     (let nSize = (base_bits pn + 7) div 8;
          nCompact = (if nSize \<le> 3 then ucast (push_bit (8 * (3 - nSize)) (GetLow64 pn))
                      else ucast (GetLow64 (base_shr pn (8 * (nSize - 3))))) :: u32;
          (nCompact, nSize) = (if nCompact AND 0x00800000 \<noteq> 0 then (drop_bit 8 nCompact, nSize + 1)
                               else (nCompact, nSize))
      in if nCompact AND NOT 0x007fffff \<noteq> 0 \<or> \<not> nSize < 256 then None
         else let nCompact = nCompact OR push_bit 24 (of_nat nSize)
              in Some (nCompact OR (if fNegative \<and> nCompact AND 0x007fffff \<noteq> 0 then 0x00800000 else 0)))"

definition ArithToUint256 :: "base_uint \<Rightarrow> byte list" where
  "ArithToUint256 a = concat (map WriteLE32 a)"

definition UintToArith256 :: "byte list \<Rightarrow> base_uint" where
  "UintToArith256 a = map (\<lambda>x. ReadLE32 (drop (x * 4) a)) [0..<WIDTH]"

text \<open>The work of a block with the compact target \<open>nBits\<close> (\<open>GetBlockProof\<close> of \<open>src/src/chain.cpp\<close>).\<close>

definition GetBlockProof :: "u32 \<Rightarrow> uint_error + base_uint" where
  "GetBlockProof nBits =
     (case SetCompact nBits of (bnTarget, fNegative, fOverflow) \<Rightarrow>
        if fNegative \<or> fOverflow \<or> EqualTo bnTarget 0 then Inr base_zero
        else bindE (base_div (base_not bnTarget) (base_add bnTarget (base_of_u64 1)))
               (\<lambda>q. Inr (base_add q (base_of_u64 1))))"

section \<open>The numbers the arrays stand for\<close>

primrec limbs_val :: "base_uint \<Rightarrow> nat" where
  "limbs_val [] = 0"
| "limbs_val (x # pn) = unat x + 2 ^ 32 * limbs_val pn"

lemma unat_u32_less: "unat (x :: u32) < 2 ^ 32"
  using unsigned_less [where 'a = nat and w = x] by simp

lemma limbs_val_bound: "limbs_val pn < 2 ^ (32 * length pn)"
proof (induction pn)
  case (Cons x pn)
  have "Suc (limbs_val pn) * 2 ^ 32 \<le> 2 ^ (32 * length pn) * 2 ^ 32"
    using Cons.IH by (intro mult_le_mono) auto
  then show ?case using unat_u32_less [of x] by (simp add: power_add)
qed simp

lemma limbs_val_append: "limbs_val (xs @ ys) = limbs_val xs + 2 ^ (32 * length xs) * limbs_val ys"
  by (induction xs) (simp_all add: algebra_simps power_add)

lemma limbs_val_replicate_0 [simp]: "limbs_val (replicate n 0) = 0"
  by (induction n) simp_all

lemma limbs_val_inj: "length a = length b \<Longrightarrow> limbs_val a = limbs_val b \<longleftrightarrow> a = b"
proof (induction a b rule: list_induct2)
  case (Cons x xs y ys)
  have "unat x = unat y \<and> limbs_val xs = limbs_val ys" if "limbs_val (x # xs) = limbs_val (y # ys)"
  proof -
    have "(unat x + 2 ^ 32 * limbs_val xs) mod 2 ^ 32 = (unat y + 2 ^ 32 * limbs_val ys) mod 2 ^ 32"
      using that by simp
    then have "unat x = unat y" using unat_u32_less [of x] unat_u32_less [of y] by simp
    then show ?thesis using that by simp
  qed
  then show ?case using Cons.IH by (auto simp: word_eq_iff_unsigned [where 'a = nat])
qed simp

lemma unat_hi: "unat (drop_bit 32 (n :: u64)) = unat n div 2 ^ 32"
  by (subst unat_drop_bit_eq) (simp add: drop_bit_eq_div)

lemma word64_split: "unat (n :: u64) = unat (ucast (n AND 0xffffffff) :: u32) + 2 ^ 32 * unat (drop_bit 32 n)"
proof -
  have "(n AND 0xffffffff) = take_bit 32 n" by (simp add: take_bit_eq_mask mask_eq_exp_minus_1)
  moreover have "unat (ucast (take_bit 32 n) :: u32) = unat n mod 2 ^ 32"
    unfolding unsigned_ucast_eq unsigned_take_bit_eq by (simp add: take_bit_eq_mod)
  ultimately have "unat (ucast (n AND 0xffffffff) :: u32) = unat n mod 2 ^ 32" by simp
  then show ?thesis unfolding unat_hi by simp
qed

lemma unat_ucast_64 [simp]: "unat (ucast (x :: u32) :: u64) = unat x"
  using unat_u32_less [of x] by (simp add: unsigned_ucast_eq take_bit_nat_eq_self)

text \<open>One turn of a carry loop: the 64-bit sum does not wrap, and the carry stays below the bound.\<close>

lemma add_turn:
  fixes carry :: u64 and x y :: u32
  assumes "unat carry < 2 ^ 32"
  shows "unat (carry + ucast x + ucast y) = unat carry + unat x + unat y"
proof -
  have "unat carry + unat x < 2 ^ 64" "unat carry + unat x + unat y < 2 ^ 64"
    using assms unat_u32_less [of x] unat_u32_less [of y] by simp_all
  then show ?thesis by (simp add: unat_word_ariths)
qed

lemma mul_turn:
  fixes carry :: u64 and x y z :: u32
  assumes "unat carry < 2 ^ 32"
  shows "unat (carry + ucast x + ucast y * ucast z) = unat carry + unat x + unat y * unat z"
    and "unat (drop_bit 32 (carry + ucast x + ucast y * ucast z)) < 2 ^ 32"
    and "unat (carry + ucast y * ucast z) = unat carry + unat y * unat z"
    and "unat (drop_bit 32 (carry + ucast y * ucast z)) < 2 ^ 32"
proof -
  have yz: "unat y * unat z \<le> (2 ^ 32 - 1) * (2 ^ 32 - 1)"
    using unat_u32_less [of y] unat_u32_less [of z] by (intro mult_le_mono) simp_all
  then have b: "unat carry + unat x + unat y * unat z < 2 ^ 64" "unat carry + unat y * unat z < 2 ^ 64" "unat y * unat z < 2 ^ 64"
    using assms unat_u32_less [of x] by simp_all
  show 1: "unat (carry + ucast x + ucast y * ucast z) = unat carry + unat x + unat y * unat z"
    using b by (simp add: unat_word_ariths)
  show 2: "unat (carry + ucast y * ucast z) = unat carry + unat y * unat z"
    using b by (simp add: unat_word_ariths)
  show "unat (drop_bit 32 (carry + ucast x + ucast y * ucast z)) < 2 ^ 32"
    "unat (drop_bit 32 (carry + ucast y * ucast z)) < 2 ^ 32"
    using b 1 2 by (simp_all add: unat_hi less_mult_imp_div_less)
qed

lemma length_add_loop [simp]: "length pn = length b \<Longrightarrow> length (add_loop carry pn b) = length pn"
  by (induction carry pn b rule: add_loop.induct) (simp_all add: Let_def)

lemma add_loop_val:
  assumes "length pn = length b" "unat carry < 2 ^ 32"
  shows "\<exists>c. limbs_val (add_loop carry pn b) + 2 ^ (32 * length pn) * c = unat carry + limbs_val pn + limbs_val b"
  using assms
proof (induction carry pn b rule: add_loop.induct)
  case (1 carry x pn y b)
  let ?n = "carry + ucast x + ucast y :: u64"
  have n: "unat ?n = unat carry + unat x + unat y" using add_turn [OF 1(3)] .
  have "unat (drop_bit 32 ?n) < 2 ^ 32"
    using n 1(3) unat_u32_less [of x] unat_u32_less [of y]
    by (simp add: unat_hi less_mult_imp_div_less)
  with 1 obtain c where c: "limbs_val (add_loop (drop_bit 32 ?n) pn b) + 2 ^ (32 * length pn) * c =
      unat (drop_bit 32 ?n) + limbs_val pn + limbs_val b" by auto
  show ?case
    using arg_cong [OF c, of "\<lambda>v. 2 ^ 32 * v"] word64_split [of ?n] n
    by (intro exI [of _ c]) (simp add: Let_def algebra_simps power_add)
qed simp_all


lemma mod_of_carry: "v < (m :: nat) \<Longrightarrow> v + m * c = w \<Longrightarrow> v = w mod m"
  by auto

lemma base_add_val:
  assumes "length pn = WIDTH" "length b = WIDTH"
  shows "length (base_add pn b) = WIDTH" "limbs_val (base_add pn b) = (limbs_val pn + limbs_val b) mod 2 ^ 256"
proof -
  show "length (base_add pn b) = WIDTH" using assms by (simp add: base_add_def)
  obtain c where "limbs_val (base_add pn b) + 2 ^ 256 * c = limbs_val pn + limbs_val b"
    using add_loop_val [of pn b 0] assms by (auto simp: base_add_def)
  moreover have "limbs_val (base_add pn b) < 2 ^ 256"
    using limbs_val_bound [of "base_add pn b"] assms by (simp add: base_add_def)
  ultimately show "limbs_val (base_add pn b) = (limbs_val pn + limbs_val b) mod 2 ^ 256"
    by (intro mod_of_carry)
qed

lemma unat_not_u32: "unat (NOT x :: u32) = 2 ^ 32 - 1 - unat x"
proof -
  have "NOT x = - 1 - x" by (simp add: not_eq_complement)
  then show ?thesis by (simp add: unat_sub unsigned_minus_1_eq_mask mask_eq_exp_minus_1)
qed

lemma base_not_val: "limbs_val (base_not pn) + limbs_val pn + 1 = 2 ^ (32 * length pn)"
proof (induction pn)
  case (Cons x pn)
  have "unat (NOT x) + unat x + 1 = 2 ^ 32"
    using unat_u32_less [of x] by (simp add: unat_not_u32)
  then show ?case
    using arg_cong [OF Cons.IH, of "\<lambda>v. 2 ^ 32 * v"]
    by (simp add: base_not_def algebra_simps power_add)
qed (simp add: base_not_def)

lemma length_base_inc [simp]: "length (base_inc pn) = length pn"
  by (induction pn) simp_all

lemma base_inc_val: "limbs_val (base_inc pn) = (limbs_val pn + 1) mod 2 ^ (32 * length pn)"
proof (induction pn)
  case (Cons x pn)
  have b: "limbs_val pn < 2 ^ (32 * length pn)" by (rule limbs_val_bound)
  have p: "2 ^ (32 * length (x # pn)) = 2 ^ 32 * (2 ^ (32 * length pn) :: nat)" by (simp add: power_add)
  show ?case
  proof (cases "x + 1 = 0")
    case True
    then have "x = - 1" by (simp add: eq_neg_iff_add_eq_0)
    then have "unat x + 1 = 2 ^ 32" by (simp add: unsigned_minus_1_eq_mask mask_eq_exp_minus_1)
    then have v: "limbs_val (x # pn) + 1 = 2 ^ 32 * (limbs_val pn + 1)" by simp
    have "limbs_val (base_inc (x # pn)) = 2 ^ 32 * limbs_val (base_inc pn)" using True by simp
    then show ?thesis unfolding p v Cons.IH mult_mod_right .
  next
    case False
    then have "unat (x + 1) = unat x + 1" using unatSuc [of x] by (simp add: add.commute)
    moreover have "limbs_val (x # pn) + 1 < 2 ^ (32 * length (x # pn))"
      using limbs_val_bound [of "(x + 1) # pn"] calculation by simp
    ultimately show ?thesis using False by simp
  qed
qed simp


lemma base_neg_val:
  assumes "length pn = WIDTH"
  shows "length (base_neg pn) = WIDTH" "limbs_val (base_neg pn) = (2 ^ 256 - limbs_val pn) mod 2 ^ 256"
proof -
  show "length (base_neg pn) = WIDTH" using assms by (simp add: base_neg_def base_not_def)
  have "limbs_val (base_not pn) + 1 = 2 ^ 256 - limbs_val pn"
    using base_not_val [of pn] assms by simp
  moreover have "length (base_not pn) = WIDTH" using assms by (simp add: base_not_def)
  ultimately show "limbs_val (base_neg pn) = (2 ^ 256 - limbs_val pn) mod 2 ^ 256"
    unfolding base_neg_def base_inc_val by (simp only: mult_numeral_left_semiring_numeral) simp
qed

lemma base_sub_val:
  assumes "length pn = WIDTH" "length b = WIDTH"
  shows "length (base_sub pn b) = WIDTH"
    "limbs_val (base_sub pn b) = (limbs_val pn + (2 ^ 256 - limbs_val b)) mod 2 ^ 256"
  using base_add_val [OF assms(1) base_neg_val(1) [OF assms(2)]] base_neg_val(2) [OF assms(2)]
  by (simp_all add: base_sub_def mod_add_right_eq)

lemma base_sub_val_le:
  assumes "length pn = WIDTH" "length b = WIDTH" "limbs_val b \<le> limbs_val pn"
  shows "limbs_val (base_sub pn b) = limbs_val pn - limbs_val b"
proof -
  have "limbs_val b \<le> 2 ^ 256" "limbs_val pn - limbs_val b < 2 ^ 256"
    using limbs_val_bound [of b] limbs_val_bound [of pn] assms by simp_all
  then have "limbs_val pn + (2 ^ 256 - limbs_val b) = (limbs_val pn - limbs_val b) + 2 ^ 256"
    using assms(3) by simp
  then show ?thesis
    using base_sub_val(2) [OF assms(1,2)] \<open>limbs_val pn - limbs_val b < 2 ^ 256\<close> by simp
qed

lemma length_mul32_loop [simp]: "length (mul32_loop carry b32 pn) = length pn"
  by (induction pn arbitrary: carry) (simp_all add: Let_def)

lemma mul32_loop_val:
  "unat carry < 2 ^ 32 \<Longrightarrow>
   \<exists>c. limbs_val (mul32_loop carry b32 pn) + 2 ^ (32 * length pn) * c = unat carry + unat b32 * limbs_val pn"
proof (induction pn arbitrary: carry)
  case (Cons x pn)
  let ?n = "carry + ucast b32 * ucast x :: u64"
  note n = mul_turn(3,4) [OF Cons.prems, of b32 x]
  obtain c where c: "limbs_val (mul32_loop (drop_bit 32 ?n) b32 pn) + 2 ^ (32 * length pn) * c =
      unat (drop_bit 32 ?n) + unat b32 * limbs_val pn" using Cons.IH [OF n(2)] by blast
  show ?case
    using arg_cong [OF c, of "\<lambda>v. 2 ^ 32 * v"] word64_split [of ?n] n(1)
    by (intro exI [of _ c]) (simp add: Let_def algebra_simps power_add)
qed simp

lemma base_mul32_val:
  assumes "length pn = WIDTH"
  shows "length (base_mul32 pn b32) = WIDTH" "limbs_val (base_mul32 pn b32) = (limbs_val pn * unat b32) mod 2 ^ 256"
proof -
  show "length (base_mul32 pn b32) = WIDTH" using assms by (simp add: base_mul32_def)
  obtain c where "limbs_val (base_mul32 pn b32) + 2 ^ 256 * c = limbs_val pn * unat b32"
    using mul32_loop_val [of 0 b32 pn] assms by (auto simp: base_mul32_def mult.commute)
  moreover have "limbs_val (base_mul32 pn b32) < 2 ^ 256"
    using limbs_val_bound [of "base_mul32 pn b32"] assms by (simp add: base_mul32_def)
  ultimately show "limbs_val (base_mul32 pn b32) = (limbs_val pn * unat b32) mod 2 ^ 256"
    by (intro mod_of_carry)
qed

lemma length_mul_row [simp]: "length (mul_row carry pnj a b) = length a"
  by (induction carry pnj a b rule: mul_row.induct) (simp_all add: Let_def)

lemma mul_row_val:
  "unat carry < 2 ^ 32 \<Longrightarrow> length a \<le> length b \<Longrightarrow>
   \<exists>c. limbs_val (mul_row carry pnj a b) + 2 ^ (32 * length a) * c =
     unat carry + limbs_val a + unat pnj * limbs_val b"
proof (induction carry pnj a b rule: mul_row.induct)
  case (1 carry pnj x a y b)
  let ?n = "carry + ucast x + ucast pnj * ucast y :: u64"
  note n = mul_turn(1,2) [OF 1(2), of x pnj y]
  obtain c where c: "limbs_val (mul_row (drop_bit 32 ?n) pnj a b) + 2 ^ (32 * length a) * c =
      unat (drop_bit 32 ?n) + limbs_val a + unat pnj * limbs_val b" using 1(1) [OF refl n(2)] 1(3) by auto
  show ?case
    using arg_cong [OF c, of "\<lambda>v. 2 ^ 32 * v"] word64_split [of ?n] n(1)
    by (intro exI [of _ c]) (simp add: Let_def algebra_simps power_add)
qed simp_all

lemma base_mul_loop:
  assumes "length pn = WIDTH" "length b = WIDTH" "n \<le> WIDTH"
  shows "length (fold (\<lambda>j a. take j a @ mul_row 0 (pn ! j) (drop j a) b) [0..<n] base_zero) = WIDTH \<and>
    (\<exists>c. limbs_val (fold (\<lambda>j a. take j a @ mul_row 0 (pn ! j) (drop j a) b) [0..<n] base_zero) + 2 ^ 256 * c =
      limbs_val (take n pn) * limbs_val b)"
  using assms(3)
proof (induction n)
  case (Suc n)
  let ?a = "fold (\<lambda>j a. take j a @ mul_row 0 (pn ! j) (drop j a) b) [0..<n] base_zero"
  obtain c where len: "length ?a = WIDTH" and c: "limbs_val ?a + 2 ^ 256 * c = limbs_val (take n pn) * limbs_val b"
    using Suc by auto
  obtain d where d: "limbs_val (mul_row 0 (pn ! n) (drop n ?a) b) + 2 ^ (32 * (8 - n)) * d =
      limbs_val (drop n ?a) + unat (pn ! n) * limbs_val b"
    using mul_row_val [of 0 "drop n ?a" b "pn ! n"] len assms(2) by auto
  have split: "limbs_val ?a = limbs_val (take n ?a) + 2 ^ (32 * n) * limbs_val (drop n ?a)"
    using limbs_val_append [of "take n ?a" "drop n ?a"] len Suc.prems by (simp add: min_def)
  have pow: "2 ^ (32 * n) * (2 ^ (32 * (8 - n)) :: nat) = 2 ^ 256"
    using Suc.prems by (simp add: power_add [symmetric] diff_mult_distrib2)
  have tk: "limbs_val (take (Suc n) pn) = limbs_val (take n pn) + 2 ^ (32 * n) * unat (pn ! n)"
    using Suc.prems assms(1) by (simp add: take_Suc_conv_app_nth limbs_val_append min_def)
  let ?r = "take n ?a @ mul_row 0 (pn ! n) (drop n ?a) b"
  have "limbs_val ?r + 2 ^ 256 * d = limbs_val (take n ?a) +
      2 ^ (32 * n) * (limbs_val (mul_row 0 (pn ! n) (drop n ?a) b) + 2 ^ (32 * (8 - n)) * d)"
    using len Suc.prems pow by (simp add: limbs_val_append min_def algebra_simps)
  also have "\<dots> = limbs_val ?a + 2 ^ (32 * n) * unat (pn ! n) * limbs_val b"
    unfolding d split by (simp add: algebra_simps)
  finally have "limbs_val ?r + 2 ^ 256 * (c + d) = limbs_val (take (Suc n) pn) * limbs_val b"
    using c tk by (simp add: algebra_simps)
  then have "\<exists>c. limbs_val ?r + 2 ^ 256 * c = limbs_val (take (Suc n) pn) * limbs_val b" by blast
  then show ?case using len Suc.prems by simp
qed (simp add: base_zero_def)

lemma base_mul_val:
  assumes "length pn = WIDTH" "length b = WIDTH"
  shows "length (base_mul pn b) = WIDTH" "limbs_val (base_mul pn b) = (limbs_val pn * limbs_val b) mod 2 ^ 256"
proof -
  show len: "length (base_mul pn b) = WIDTH" using base_mul_loop [OF assms, of WIDTH] by (simp add: base_mul_def)
  obtain c where "limbs_val (base_mul pn b) + 2 ^ 256 * c = limbs_val pn * limbs_val b"
    using base_mul_loop [OF assms, of WIDTH] assms(1) by (auto simp: base_mul_def)
  moreover have "limbs_val (base_mul pn b) < 2 ^ 256"
    using limbs_val_bound [of "base_mul pn b"] len by simp
  ultimately show "limbs_val (base_mul pn b) = (limbs_val pn * limbs_val b) mod 2 ^ 256"
    by (intro mod_of_carry)
qed


section \<open>Bits and shifts\<close>

lemma bit_limbs_val:
  "bit (limbs_val pn) n \<longleftrightarrow> n < 32 * length pn \<and> bit (pn ! (n div 32)) (n mod 32)"
proof (induction pn arbitrary: n)
  case (Cons x pn)
  have x: "take_bit 32 (unat x) = unat x" using unat_u32_less [of x] by (simp add: take_bit_nat_eq_self)
  have lo: "take_bit 32 (limbs_val (x # pn)) = unat x"
    using x by (simp add: take_bit_eq_mod)
  have hi: "drop_bit 32 (limbs_val (x # pn)) = limbs_val pn"
    using unat_u32_less [of x] by (simp add: drop_bit_eq_div)
  show ?case
  proof (cases "n < 32")
    case True
    have "bit (limbs_val (x # pn)) n \<longleftrightarrow> bit (take_bit 32 (limbs_val (x # pn))) n"
      by (simp only: bit_take_bit_iff True simp_thms)
    then show ?thesis unfolding lo using True by (simp add: bit_unsigned_iff)
  next
    case False
    then have n: "32 + (n - 32) = n" by simp
    have "bit (drop_bit 32 (limbs_val (x # pn))) (n - 32) \<longleftrightarrow> bit (limbs_val (x # pn)) n"
      by (simp only: bit_drop_bit_eq comp_apply n)
    then have "bit (limbs_val (x # pn)) n \<longleftrightarrow> bit (limbs_val pn) (n - 32)" unfolding hi by simp
    moreover have "n div 32 = Suc ((n - 32) div 32)" "n mod 32 = (n - 32) mod 32"
      using False by (simp_all add: le_div_geq le_mod_geq)
    moreover have "n < 32 * length (x # pn) \<longleftrightarrow> n - 32 < 32 * length pn" using False by auto
    ultimately show ?thesis unfolding Cons.IH [of "n - 32"] by simp
  qed
qed simp

lemma shl_loop:
  assumes "length a = WIDTH" "n \<le> WIDTH"
  shows "length (fold (shl_step a k s) [0..<n] base_zero) = WIDTH \<and>
    (\<forall>j < WIDTH. fold (shl_step a k s) [0..<n] base_zero ! j =
       (if k \<le> j \<and> j - k < n then push_bit s (a ! (j - k)) else 0) OR
       (if k + 1 \<le> j \<and> j - k - 1 < n \<and> s \<noteq> 0 then drop_bit (32 - s) (a ! (j - k - 1)) else 0))"
  using assms(2)
proof (induction n)
  case (Suc n)
  let ?p = "fold (shl_step a k s) [0..<n] base_zero"
  have len: "length ?p = WIDTH" and IH: "\<And>j. j < WIDTH \<Longrightarrow> ?p ! j =
       (if k \<le> j \<and> j - k < n then push_bit s (a ! (j - k)) else 0) OR
       (if k + 1 \<le> j \<and> j - k - 1 < n \<and> s \<noteq> 0 then drop_bit (32 - s) (a ! (j - k - 1)) else 0)"
    using Suc by auto
  have "shl_step a k s n ?p ! j =
       (if k \<le> j \<and> j - k < Suc n then push_bit s (a ! (j - k)) else 0) OR
       (if k + 1 \<le> j \<and> j - k - 1 < Suc n \<and> s \<noteq> 0 then drop_bit (32 - s) (a ! (j - k - 1)) else 0)"
    if j: "j < WIDTH" for j
  proof -
    consider "j = n + k" | "j = n + k + 1" | "j \<noteq> n + k" "j \<noteq> n + k + 1" by blast
    then show ?thesis
    proof cases
      case 1
      then show ?thesis using j len IH [OF j]
        by (cases "n = 0"; cases "s = 0") (simp_all add: shl_step_def Let_def or.commute less_Suc_eq_le)
    next
      case 2
      then show ?thesis using j len IH [OF j] by (cases "s = 0") (simp_all add: shl_step_def Let_def)
    next
      case 3
      then have "shl_step a k s n ?p ! j = ?p ! j" by (simp add: shl_step_def Let_def)
      moreover have "k \<le> j \<and> j - k < Suc n \<longleftrightarrow> k \<le> j \<and> j - k < n"
        "k + 1 \<le> j \<and> j - k - 1 < Suc n \<and> s \<noteq> 0 \<longleftrightarrow> k + 1 \<le> j \<and> j - k - 1 < n \<and> s \<noteq> 0"
        using 3 by auto
      ultimately show ?thesis using IH [OF j] by (simp only:)
    qed
  qed
  moreover have "length (shl_step a k s n ?p) = WIDTH" using len by (simp add: shl_step_def Let_def)
  ultimately show ?case by simp
qed (simp add: base_zero_def)


lemma shl_bit:
  fixes a :: base_uint
  assumes "n = 32 * J + m" "shift = 32 * k + s" "m < 32" "s < 32"
  shows "bit ((if k \<le> J then push_bit s (a ! (J - k)) else 0) OR
      (if k + 1 \<le> J \<and> s \<noteq> 0 then drop_bit (32 - s) (a ! (J - k - 1)) else 0)) m \<longleftrightarrow>
    shift \<le> n \<and> bit (a ! ((n - shift) div 32)) ((n - shift) mod 32)"
proof (cases "s \<le> m")
  case True
  have "\<not> bit (w :: u32) (32 - s + m)" for w using True bit_imp_le_length [of w "32 - s + m"] by auto
  moreover have "(n - shift) div 32 = J - k \<and> (n - shift) mod 32 = m - s \<and> shift \<le> n" if "k \<le> J"
  proof -
    obtain e where e: "m = s + e" using True le_Suc_ex by blast
    have "n - shift = 32 * (J - k) + e" using that assms e by (simp add: diff_mult_distrib2)
    then show ?thesis using assms e that by simp
  qed
  moreover have "\<not> shift \<le> n" if "\<not> k \<le> J" using that assms by simp
  ultimately show ?thesis
    using assms True by (cases "k \<le> J") (auto simp: bit_simps)
next
  case False
  have "(n - shift) div 32 = J - k - 1 \<and> (n - shift) mod 32 = 32 - s + m \<and> shift \<le> n" if "k + 1 \<le> J"
  proof -
    obtain e where e: "32 - s + m = e" "e < 32" using False assms by simp
    have "n - shift = 32 * (J - k - 1) + e" using that assms False e(1) by (simp add: diff_mult_distrib2)
    then show ?thesis using assms False that e(2) unfolding e(1) by simp
  qed
  moreover have "\<not> shift \<le> n" if "\<not> k + 1 \<le> J" using that assms False by simp
  ultimately show ?thesis
    using assms False by (cases "k + 1 \<le> J") (auto simp: bit_simps)
qed

lemma base_shl_val:
  assumes "length a = WIDTH"
  shows "length (base_shl a shift) = WIDTH" "limbs_val (base_shl a shift) = (limbs_val a * 2 ^ shift) mod 2 ^ 256"
proof -
  let ?k = "shift div 32" and ?s = "shift mod 32"
  note l = shl_loop [OF assms order.refl, of ?k ?s, folded base_shl_def]
  show len: "length (base_shl a shift) = WIDTH" using l by blast
  have "bit (limbs_val (base_shl a shift)) n \<longleftrightarrow> n < 256 \<and> shift \<le> n \<and> bit (limbs_val a) (n - shift)" for n
  proof (cases "n < 256")
    case True
    let ?j = "n div 32" and ?m = "n mod 32"
    have j: "?j < 8" using True by simp
    have nth: "base_shl a shift ! ?j = (if ?k \<le> ?j then push_bit ?s (a ! (?j - ?k)) else 0) OR
       (if ?k + 1 \<le> ?j \<and> ?s \<noteq> 0 then drop_bit (32 - ?s) (a ! (?j - ?k - 1)) else 0)"
      using l j by auto
    have "bit (base_shl a shift ! ?j) ?m \<longleftrightarrow> shift \<le> n \<and> bit (a ! ((n - shift) div 32)) ((n - shift) mod 32)"
      unfolding nth by (rule shl_bit) simp_all
    then show ?thesis
      using True len assms by (auto simp: bit_limbs_val)
  qed (simp add: bit_limbs_val len)
  moreover have "bit ((limbs_val a * 2 ^ shift) mod 2 ^ 256) n \<longleftrightarrow> n < 256 \<and> shift \<le> n \<and> bit (limbs_val a) (n - shift)" for n
    by (simp only: take_bit_eq_mod [symmetric] push_bit_eq_mult [symmetric] bit_take_bit_iff bit_push_bit_iff) auto
  ultimately show "limbs_val (base_shl a shift) = (limbs_val a * 2 ^ shift) mod 2 ^ 256"
    by (intro bit_eqI) blast
qed

lemma shr_loop:
  assumes "length a = WIDTH" "n \<le> WIDTH"
  shows "length (fold (shr_step a k s) [0..<n] base_zero) = WIDTH \<and>
    (\<forall>j < WIDTH. fold (shr_step a k s) [0..<n] base_zero ! j =
       (if j + k < n then drop_bit s (a ! (j + k)) else 0) OR
       (if j + k + 1 < n \<and> s \<noteq> 0 then push_bit (32 - s) (a ! (j + k + 1)) else 0))"
  using assms(2)
proof (induction n)
  case (Suc n)
  let ?p = "fold (shr_step a k s) [0..<n] base_zero"
  have len: "length ?p = WIDTH" and IH: "\<And>j. j < WIDTH \<Longrightarrow> ?p ! j =
       (if j + k < n then drop_bit s (a ! (j + k)) else 0) OR
       (if j + k + 1 < n \<and> s \<noteq> 0 then push_bit (32 - s) (a ! (j + k + 1)) else 0)"
    using Suc by auto
  have "shr_step a k s n ?p ! j =
       (if j + k < Suc n then drop_bit s (a ! (j + k)) else 0) OR
       (if j + k + 1 < Suc n \<and> s \<noteq> 0 then push_bit (32 - s) (a ! (j + k + 1)) else 0)"
    if j: "j < WIDTH" for j
  proof -
    consider "n = j + k" | "n = j + k + 1" | "j + k \<noteq> n" "j + k + 1 \<noteq> n" by fastforce
    then show ?thesis
    proof cases
      case 1
      then show ?thesis using j len IH [OF j]
        by (cases "j = 0"; cases "s = 0") (simp_all add: shr_step_def Let_def)
    next
      case 2
      then show ?thesis using j len IH [OF j]
        by (cases "s = 0") (simp_all add: shr_step_def Let_def)
    next
      case 3
      then have "shr_step a k s n ?p ! j = ?p ! j"
        using len by (auto simp: shr_step_def Let_def nth_list_update)
      moreover have "j + k < Suc n \<longleftrightarrow> j + k < n"
        "j + k + 1 < Suc n \<and> s \<noteq> 0 \<longleftrightarrow> j + k + 1 < n \<and> s \<noteq> 0"
        using 3 by auto
      ultimately show ?thesis using IH [OF j] by (simp only:)
    qed
  qed
  moreover have "length (shr_step a k s n ?p) = WIDTH" using len by (simp add: shr_step_def Let_def)
  ultimately show ?case by simp
qed (simp add: base_zero_def)

lemma div_mod_32: "e < 32 \<Longrightarrow> (32 * q + e) div 32 = q \<and> (32 * q + e) mod (32 :: nat) = e"
  by simp

lemma shr_bit:
  fixes a :: base_uint
  assumes "n = 32 * J + m" "shift = 32 * k + s" "m < 32" "s < 32"
  shows "bit ((if J + k < 8 then drop_bit s (a ! (J + k)) else 0) OR
      (if J + k + 1 < 8 \<and> s \<noteq> 0 then push_bit (32 - s) (a ! (J + k + 1)) else 0)) m \<longleftrightarrow>
    n + shift < 256 \<and> bit (a ! ((n + shift) div 32)) ((n + shift) mod 32)"
proof (cases "m + s < 32")
  case True
  have "(n + shift) div 32 = J + k \<and> (n + shift) mod 32 = m + s"
  proof -
    have "n + shift = 32 * (J + k) + (m + s)" using assms by simp
    then show ?thesis using div_mod_32 [OF True] by (simp only:)
  qed
  moreover have "n + shift < 256 \<longleftrightarrow> J + k < 8" using assms True by auto
  ultimately show ?thesis using assms True by (auto simp: bit_simps add.commute)
next
  case False
  obtain e where e: "m + s = 32 + e" "e < 32" using False assms le_Suc_ex [of 32 "m + s"] by fastforce
  have "(n + shift) div 32 = J + k + 1 \<and> (n + shift) mod 32 = e"
  proof -
    have "n + shift = 32 * (J + k + 1) + e" using assms e by simp
    then show ?thesis using div_mod_32 [OF e(2)] by (simp only:)
  qed
  moreover have "n + shift < 256 \<longleftrightarrow> J + k + 1 < 8" using assms e by auto
  moreover have "\<not> bit (w :: u32) (s + m)" for w using False bit_imp_le_length [of w "s + m"] by auto
  moreover have "m - (32 - s) = e" "s \<noteq> 0" "32 - s \<le> m" using e assms by auto
  ultimately show ?thesis using assms False by (auto simp: bit_simps)
qed

lemma base_shr_val:
  assumes "length a = WIDTH"
  shows "length (base_shr a shift) = WIDTH" "limbs_val (base_shr a shift) = limbs_val a div 2 ^ shift"
proof -
  let ?k = "shift div 32" and ?s = "shift mod 32"
  note l = shr_loop [OF assms order.refl, of ?k ?s, folded base_shr_def]
  show len: "length (base_shr a shift) = WIDTH" using l by blast
  have "bit (limbs_val (base_shr a shift)) n \<longleftrightarrow> bit (limbs_val a) (n + shift)" for n
  proof (cases "n < 256")
    case True
    let ?j = "n div 32" and ?m = "n mod 32"
    have j: "?j < 8" using True by simp
    have nth: "base_shr a shift ! ?j = (if ?j + ?k < 8 then drop_bit ?s (a ! (?j + ?k)) else 0) OR
       (if ?j + ?k + 1 < 8 \<and> ?s \<noteq> 0 then push_bit (32 - ?s) (a ! (?j + ?k + 1)) else 0)"
      using l j by blast
    have "bit (base_shr a shift ! ?j) ?m \<longleftrightarrow> n + shift < 256 \<and> bit (a ! ((n + shift) div 32)) ((n + shift) mod 32)"
      unfolding nth by (rule shr_bit) simp_all
    then show ?thesis
      using True len assms by (auto simp: bit_limbs_val)
  next
    case False
    then show ?thesis using len assms by (simp add: bit_limbs_val)
  qed
  moreover have "bit (limbs_val a div 2 ^ shift) n \<longleftrightarrow> bit (limbs_val a) (n + shift)" for n
    by (simp only: drop_bit_eq_div [symmetric] bit_drop_bit_eq comp_apply add.commute)
  ultimately show "limbs_val (base_shr a shift) = limbs_val a div 2 ^ shift"
    by (intro bit_eqI) blast
qed

section \<open>Comparison and bit length\<close>

lemma compare_loop_val:
  "length xs = length ys \<Longrightarrow>
   compare_loop xs ys = (if limbs_val (rev xs) < limbs_val (rev ys) then - 1
     else if limbs_val (rev xs) > limbs_val (rev ys) then 1 else 0)"
proof (induction xs ys rule: list_induct2)
  case (Cons x xs y ys)
  let ?N = "2 ^ (32 * length xs) :: nat"
  have b: "limbs_val (rev xs) < ?N" "limbs_val (rev ys) < ?N"
    using limbs_val_bound [of "rev xs"] limbs_val_bound [of "rev ys"] Cons.hyps by simp_all
  have v: "limbs_val (rev (x # xs)) = limbs_val (rev xs) + ?N * unat x"
    "limbs_val (rev (y # ys)) = limbs_val (rev ys) + ?N * unat y"
    using Cons.hyps by (simp_all add: limbs_val_append)
  have lt: "p + ?N * i < q + ?N * j" if "i < j" "p < ?N" for i j p q :: nat
  proof -
    have "p + ?N * i < ?N * Suc i" using that by simp
    also have "\<dots> \<le> ?N * j" using that by (intro mult_le_mono) simp_all
    finally show ?thesis by simp
  qed
  consider "x < y" | "y < x" | "x = y" by fastforce
  then show ?case
  proof cases
    case 1
    then show ?thesis unfolding v using lt [OF _ b(1), of "unat x" "unat y"] by (simp add: word_less_nat_alt)
  next
    case 2
    then show ?thesis unfolding v using lt [OF _ b(2), of "unat y" "unat x" "limbs_val (rev xs)"]
      by (simp add: word_less_nat_alt)
  next
    case 3
    then show ?thesis unfolding v using Cons.IH by simp
  qed
qed simp

lemma CompareTo_val:
  assumes "length pn = length b"
  shows "CompareTo pn b = (if limbs_val pn < limbs_val b then - 1 else if limbs_val pn > limbs_val b then 1 else 0)"
  using compare_loop_val [of "rev pn" "rev b"] assms by (simp add: CompareTo_def)


lemma and_single_bit: "(x :: u32) AND push_bit n 1 \<noteq> 0 \<longleftrightarrow> n < 32 \<and> bit x n"
proof -
  have "x AND push_bit n 1 = (if bit x n then push_bit n 1 else 0)"
    by (rule bit_word_eqI) (auto simp: bit_simps)
  then show ?thesis
    using bit_imp_le_length [of x n] by (auto simp: push_bit_eq_0_iff)
qed

lemma unat_less_of_not_bit:
  assumes "unat (x :: u32) < 2 ^ Suc n" "\<not> bit x n"
  shows "unat x < 2 ^ n"
proof -
  have "even (unat x div 2 ^ n)"
    using assms(2) bit_unsigned_iff [where 'a = nat and w = x and n = n] by (simp add: bit_iff_odd [of "unat x"])
  moreover have "unat x div 2 ^ n < 2" using assms(1) by (simp add: less_mult_imp_div_less)
  ultimately have "unat x div 2 ^ n = 0" by (auto simp: less_2_cases_iff)
  then show ?thesis by (simp add: div_eq_0_iff)
qed

lemma limb_bits_val:
  "x \<noteq> 0 \<Longrightarrow> unat x < 2 ^ Suc n \<Longrightarrow> n < 32 \<Longrightarrow>
   1 \<le> limb_bits x n \<and> limb_bits x n \<le> Suc n \<and> 2 ^ (limb_bits x n - 1) \<le> unat x \<and> unat x < 2 ^ limb_bits x n"
proof (induction n)
  case 0
  then show ?case by (simp add: unat_gt_0 Suc_le_eq)
next
  case (Suc n)
  show ?case
  proof (cases "bit x (Suc n)")
    case True
    then have "x AND push_bit (Suc n) 1 \<noteq> 0" using Suc.prems(3) and_single_bit by blast
    then have "limb_bits x (Suc n) = Suc n + 1" by (simp only: limb_bits.simps not_False_eq_True if_True)
    then show ?thesis using Suc.prems bit_imp_le_unat [OF True] by simp
  next
    case False
    then have "unat x < 2 ^ Suc n" using unat_less_of_not_bit Suc.prems(2) by blast
    moreover have "x AND push_bit (Suc n) 1 = 0" using False and_single_bit by blast
    then have "limb_bits x (Suc n) = limb_bits x n" by (simp only: limb_bits.simps) simp
    ultimately show ?thesis using Suc by (simp add: le_SucI)
  qed
qed

lemma bits_loop_val:
  assumes "pos \<le> length pn" "limbs_val pn < 2 ^ (32 * pos)"
  shows "bits_loop pn pos \<le> 32 * pos \<and> limbs_val pn < 2 ^ bits_loop pn pos \<and>
    (0 < bits_loop pn pos \<longrightarrow> 2 ^ (bits_loop pn pos - 1) \<le> limbs_val pn)"
  using assms
proof (induction pos)
  case (Suc pos)
  let ?N = "2 ^ (32 * pos) :: nat" and ?x = "pn ! pos"
  let ?lo = "limbs_val (take pos pn)" and ?hi = "limbs_val (drop (Suc pos) pn)"
  have lo: "?lo < ?N" using limbs_val_bound [of "take pos pn"] Suc.prems(1) by (simp add: min_def)
  have v: "limbs_val pn = ?lo + ?N * (unat ?x + 2 ^ 32 * ?hi)"
  proof -
    have "pn = take pos pn @ ?x # drop (Suc pos) pn" using Suc.prems(1) by (simp add: id_take_nth_drop)
    from arg_cong [OF this, of limbs_val] show ?thesis
      using Suc.prems(1) by (simp only: limbs_val_append limbs_val.simps) (simp add: min_def)
  qed
  have "?N * (2 ^ 32 * ?hi) \<le> limbs_val pn" unfolding v by (simp add: algebra_simps)
  also have "\<dots> < ?N * 2 ^ 32" using Suc.prems(2) by (simp add: power_add)
  finally have "?hi = 0" by simp
  then have val: "limbs_val pn = ?lo + ?N * unat ?x" using v by simp
  show ?case
  proof (cases "?x = 0")
    case True
    then show ?thesis using Suc lo val by simp
  next
    case False
    let ?b = "limb_bits ?x 31"
    have b: "1 \<le> ?b" "?b \<le> 32" "2 ^ (?b - 1) \<le> unat ?x" "unat ?x < 2 ^ ?b"
      using limb_bits_val [OF False, of 31] unat_u32_less [of ?x] by simp_all
    have "limbs_val pn < ?N * Suc (unat ?x)" using val lo by simp
    also have "\<dots> \<le> ?N * 2 ^ ?b" using b(4) by (intro mult_le_mono) simp_all
    finally have up: "limbs_val pn < 2 ^ (32 * pos + ?b)" by (simp add: power_add)
    have "2 ^ (32 * pos + ?b - 1) = ?N * 2 ^ (?b - 1)" using b(1) by (simp add: power_add [symmetric])
    also have "\<dots> \<le> ?N * unat ?x" using b(3) by (intro mult_le_mono) simp_all
    finally have "2 ^ (32 * pos + ?b - 1) \<le> limbs_val pn" using val by simp
    then show ?thesis using False up b by simp
  qed
qed simp

lemma base_bits_val:
  assumes "length pn = WIDTH"
  shows "base_bits pn \<le> 256" "limbs_val pn < 2 ^ base_bits pn"
    "0 < base_bits pn \<Longrightarrow> 2 ^ (base_bits pn - 1) \<le> limbs_val pn" "base_bits pn = 0 \<longleftrightarrow> limbs_val pn = 0"
proof -
  have r: "base_bits pn \<le> 256 \<and> limbs_val pn < 2 ^ base_bits pn \<and>
      (0 < base_bits pn \<longrightarrow> 2 ^ (base_bits pn - 1) \<le> limbs_val pn)"
    using bits_loop_val [of WIDTH pn] limbs_val_bound [of pn] assms unfolding base_bits_def by simp
  then show "base_bits pn \<le> 256" "limbs_val pn < 2 ^ base_bits pn"
    "0 < base_bits pn \<Longrightarrow> 2 ^ (base_bits pn - 1) \<le> limbs_val pn" by blast+
  show "base_bits pn = 0 \<longleftrightarrow> limbs_val pn = 0"
  proof
    assume "limbs_val pn = 0"
    then show "base_bits pn = 0" using r by (cases "base_bits pn") auto
  qed (use r in auto)
qed

section \<open>Division\<close>

lemma set_bit_val:
  assumes "length pn = WIDTH" "n < 256" "\<not> bit (limbs_val pn) n"
  shows "limbs_val (pn[n div 32 := pn ! (n div 32) OR push_bit (n mod 32) 1]) = limbs_val pn + 2 ^ n"
proof -
  let ?q = "pn[n div 32 := pn ! (n div 32) OR push_bit (n mod 32) 1]"
  have "bit (limbs_val ?q) m \<longleftrightarrow> bit (limbs_val pn) m \<or> m = n" for m
  proof -
    have "m div 32 = n div 32 \<and> m mod 32 = n mod 32 \<longleftrightarrow> m = n" by (metis mult_div_mod_eq)
    then show ?thesis
      using assms(1,2) by (auto simp: bit_limbs_val nth_list_update bit_simps)
  qed
  then have "limbs_val ?q = limbs_val pn OR 2 ^ n"
    by (intro bit_eqI) (auto simp: bit_simps)
  also have "\<dots> = limbs_val pn + 2 ^ n"
  proof (rule disjunctive_add [symmetric])
    show "\<not> bit (limbs_val pn) m \<or> \<not> bit (2 ^ n :: nat) m" for m
      using assms(3) by (auto simp: bit_simps)
  qed
  finally show ?thesis .
qed


lemma div_loop_val:
  assumes "length num = WIDTH" "length dv = WIDTH" "length pn = WIDTH" "0 < D" "n \<le> 256"
    and "0 < n \<longrightarrow> limbs_val dv = D * 2 ^ (n - 1)" "limbs_val num < D * 2 ^ n" "2 ^ n dvd limbs_val pn"
  shows "length (div_loop n num dv pn) = WIDTH \<and> limbs_val (div_loop n num dv pn) = limbs_val pn + limbs_val num div D"
  using assms
proof (induction n arbitrary: num dv pn)
  case (Suc s)
  have dv: "limbs_val dv = D * 2 ^ s" using Suc.prems(6) by simp
  have half: "0 < s \<longrightarrow> limbs_val (base_shr dv 1) = D * 2 ^ (s - 1)"
    using base_shr_val(2) [OF Suc.prems(2), of 1] dv by (cases s) simp_all
  note len = base_shr_val(1) [OF Suc.prems(2), of 1]
  show ?case
  proof (cases "limbs_val dv \<le> limbs_val num")
    case True
    let ?q = "pn[s div 32 := pn ! (s div 32) OR push_bit (s mod 32) 1]"
    have sub: "limbs_val (base_sub num dv) = limbs_val num - D * 2 ^ s"
      using base_sub_val_le [OF Suc.prems(1,2) True] dv by simp
    have "\<not> bit (limbs_val pn) s"
    proof -
      obtain q where "limbs_val pn = 2 ^ Suc s * q" using Suc.prems(8) by blast
      then have "limbs_val pn div 2 ^ s = 2 * q" by simp
      then show ?thesis by (simp add: bit_iff_odd)
    qed
    then have q: "limbs_val ?q = limbs_val pn + 2 ^ s" using Suc.prems(3,5) by (intro set_bit_val) simp_all
    have "2 ^ s dvd limbs_val ?q" unfolding q using Suc.prems(8) by (intro dvd_add) (auto dest: dvd_mult_right)
    moreover have "limbs_val (base_sub num dv) < D * 2 ^ s" unfolding sub using Suc.prems(4,7) by simp
    ultimately have "length (div_loop s (base_sub num dv) (base_shr dv 1) ?q) = WIDTH \<and>
        limbs_val (div_loop s (base_sub num dv) (base_shr dv 1) ?q) =
        limbs_val ?q + limbs_val (base_sub num dv) div D"
      using Suc.prems(3,4,5) half base_sub_val(1) [OF Suc.prems(1,2)] len by (intro Suc.IH) simp_all
    moreover have "limbs_val num div D = 2 ^ s + (limbs_val num - D * 2 ^ s) div D"
    proof -
      have "limbs_val num = (limbs_val num - D * 2 ^ s) + D * 2 ^ s" using True dv by simp
      then have "limbs_val num div D = ((limbs_val num - D * 2 ^ s) + D * 2 ^ s) div D" by simp
      then show ?thesis using Suc.prems(4) by simp
    qed
    moreover have "CompareTo num dv \<ge> 0" using True Suc.prems(1,2) by (simp add: CompareTo_val)
    ultimately show ?thesis unfolding q sub by simp
  next
    case False
    have "2 ^ s dvd limbs_val pn" using Suc.prems(8) by (auto dest: dvd_mult_right)
    then have "length (div_loop s num (base_shr dv 1) pn) = WIDTH \<and>
        limbs_val (div_loop s num (base_shr dv 1) pn) = limbs_val pn + limbs_val num div D"
      using Suc.prems half len False dv by (intro Suc.IH) simp_all
    moreover have "\<not> CompareTo num dv \<ge> 0" using False Suc.prems(1,2) by (simp add: CompareTo_val)
    ultimately show ?thesis by simp
  qed
qed simp

lemma base_div_val:
  assumes "length num = WIDTH" "length dv = WIDTH"
  shows "limbs_val dv = 0 \<Longrightarrow> base_div num dv = Inl DivisionByZero"
    and "limbs_val dv \<noteq> 0 \<Longrightarrow> \<exists>q. base_div num dv = Inr q \<and> length q = WIDTH \<and> limbs_val q = limbs_val num div limbs_val dv"
proof -
  let ?nb = "base_bits num" and ?db = "base_bits dv" and ?D = "limbs_val dv"
  note n = base_bits_val [OF assms(1)] and d = base_bits_val [OF assms(2)]
  show "base_div num dv = Inl DivisionByZero" if "?D = 0"
    using that d(4) by (simp add: base_div_def)
  assume D: "?D \<noteq> 0"
  then have db: "0 < ?db" using d(4) by simp
  show "\<exists>q. base_div num dv = Inr q \<and> length q = WIDTH \<and> limbs_val q = limbs_val num div ?D"
  proof (cases "?db > ?nb")
    case True
    have "limbs_val num < 2 ^ ?nb" by (rule n(2))
    also have "\<dots> \<le> 2 ^ (?db - 1)" using True by (intro power_increasing) simp_all
    also have "\<dots> \<le> ?D" using d(3) [OF db] .
    finally show ?thesis using True db by (simp add: base_div_def base_zero_def)
  next
    case False
    let ?s = "?nb - ?db"
    have "?D * 2 ^ ?s < 2 ^ ?db * 2 ^ ?s" using d(2) by simp
    also have "\<dots> = 2 ^ ?nb" using False by (simp add: power_add [symmetric])
    also have "\<dots> \<le> 2 ^ 256" using n(1) by (intro power_increasing) simp_all
    finally have "limbs_val (base_shl dv ?s) = ?D * 2 ^ ?s" using base_shl_val(2) [OF assms(2)] by simp
    moreover have "limbs_val num < ?D * 2 ^ Suc ?s"
    proof -
      have "limbs_val num < 2 ^ ?nb" by (rule n(2))
      also have "\<dots> = 2 ^ (?db - 1) * 2 ^ Suc ?s" using False db by (simp add: power_add [symmetric] del: power_Suc)
      also have "\<dots> \<le> ?D * 2 ^ Suc ?s" using d(3) [OF db] by (intro mult_le_mono) simp_all
      finally show ?thesis .
    qed
    ultimately have "length (div_loop (Suc ?s) num (base_shl dv ?s) base_zero) = WIDTH \<and>
        limbs_val (div_loop (Suc ?s) num (base_shl dv ?s) base_zero) = limbs_val base_zero + limbs_val num div ?D"
      using assms base_shl_val(1) [OF assms(2)] D n(1) db by (intro div_loop_val) (simp_all add: base_zero_def)
    moreover have "base_div num dv = Inr (div_loop (Suc ?s) num (base_shl dv ?s) base_zero)"
      using False db by (simp add: base_div_def Let_def del: div_loop.simps)
    moreover have "limbs_val base_zero = 0" by (simp add: base_zero_def)
    ultimately show ?thesis by (simp del: div_loop.simps)
  qed
qed

section \<open>Conversions\<close>

lemma base_of_u64_val:
  "length (base_of_u64 b) = WIDTH" "limbs_val (base_of_u64 b) = unat b"
proof -
  have "unat b = unat (ucast b :: u32) + 2 ^ 32 * unat (ucast (drop_bit 32 b) :: u32)"
  proof -
    have "unat (drop_bit 32 b) < 2 ^ 32"
      using unsigned_less [where 'a = nat and w = b] by (simp add: unat_hi less_mult_imp_div_less)
    then have "unat (ucast (drop_bit 32 b) :: u32) = unat (drop_bit 32 b)"
      unfolding unsigned_ucast_eq by (simp add: take_bit_nat_eq_self)
    moreover have "unat (ucast b :: u32) = unat b mod 2 ^ 32"
      unfolding unsigned_ucast_eq by (simp add: take_bit_eq_mod)
    ultimately show ?thesis unfolding unat_hi by simp
  qed
  then show "limbs_val (base_of_u64 b) = unat b" by (simp add: base_of_u64_def numeral_2_eq_2)
  show "length (base_of_u64 b) = WIDTH" by (simp add: base_of_u64_def)
qed

lemma base_zero_val [simp]: "length base_zero = WIDTH" "limbs_val base_zero = 0"
  by (simp_all add: base_zero_def)

lemma limbs_val_0_iff: "limbs_val pn = 0 \<longleftrightarrow> list_all (\<lambda>x. x = 0) pn"
  by (induction pn) (auto simp: unat_eq_zero)

lemma EqualTo_0:
  assumes "length pn = WIDTH"
  shows "EqualTo pn 0 \<longleftrightarrow> limbs_val pn = 0"
proof -
  obtain x y r where pn: "pn = x # y # r" using assms by (cases pn; cases "tl pn") auto
  have z: "(ucast (z :: u32) :: u64) = 0 \<longleftrightarrow> z = 0" for z
    by (metis unat_ucast_64 unat_eq_zero)
  have "EqualTo pn 0 \<longleftrightarrow> list_all (\<lambda>x. x = 0) r \<and> y = 0 \<and> x = 0"
    by (simp add: EqualTo_def pn z)
  then show ?thesis by (auto simp: pn limbs_val_0_iff unat_eq_zero)
qed

lemma GetLow64_val:
  assumes "length pn = WIDTH"
  shows "unat (GetLow64 pn) = limbs_val pn mod 2 ^ 64"
proof -
  obtain x y r where pn: "pn = x # y # r" using assms by (cases pn; cases "tl pn") auto
  have "unat (push_bit 32 (ucast y :: u64)) = unat y * 2 ^ 32"
    using unat_u32_less [of y] by (simp add: push_bit_eq_mult unat_word_ariths)
  moreover have "GetLow64 pn = ucast x + push_bit 32 (ucast y)"
    unfolding GetLow64_def pn
    by (simp only: nth_Cons_0 nth_Cons_Suc One_nat_def, rule disjunctive_add [symmetric]) (auto simp: bit_simps dest: bit_imp_le_length)
  ultimately have "unat (GetLow64 pn) = unat x + 2 ^ 32 * unat y"
    using unat_u32_less [of x] unat_u32_less [of y] by (simp add: unat_word_ariths)
  moreover have "limbs_val pn = (unat x + 2 ^ 32 * unat y) + 2 ^ 64 * limbs_val r" by (simp add: pn)
  moreover have "unat x + 2 ^ 32 * unat y < 2 ^ 64" using unat_u32_less [of x] unat_u32_less [of y] by simp
  ultimately show ?thesis by simp
qed

lemma ArithToUint256_val:
  "length (ArithToUint256 a) = 4 * length a" "le_val (ArithToUint256 a) = limbs_val a"
proof -
  show "length (ArithToUint256 a) = 4 * length a"
    by (induction a) (simp_all add: ArithToUint256_def)
  show "le_val (ArithToUint256 a) = limbs_val a"
  proof (induction a)
    case (Cons x a)
    then show ?case
      using unat_u32_less [of x] by (simp add: ArithToUint256_def le_val_append WriteLE32_def)
  qed (simp add: ArithToUint256_def)
qed

lemma UintToArith256_val:
  assumes "length a = 32"
  shows "length (UintToArith256 a) = WIDTH" "limbs_val (UintToArith256 a) = le_val a"
    "ArithToUint256 (UintToArith256 a) = a"
proof -
  show len: "length (UintToArith256 a) = WIDTH" by (simp add: UintToArith256_def)
  have w: "WriteLE32 (ReadLE32 bs) = take 4 bs" if "4 \<le> length bs" for bs
  proof -
    have l: "length (take 4 bs) = 4" using that by simp
    have "le_val (take 4 bs) < 2 ^ 32" using le_val_bound [of "take 4 bs"] unfolding l by simp
    then show ?thesis
      using le_bytes_le_val [of "take 4 bs"] unfolding l by (simp add: WriteLE32_def ReadLE32_def unat_of_nat)
  qed
  have "concat (map (\<lambda>x. take 4 (drop (x * 4) a)) [0..<n]) = take (n * 4) a" for n
  proof (induction n)
    case (Suc n)
    then show ?case by (simp add: take_add add.commute [of 4])
  qed simp
  from this [of WIDTH] have "concat (map (\<lambda>x. take 4 (drop (x * 4) a)) [0..<WIDTH]) = a" using assms by simp
  moreover have "map WriteLE32 (UintToArith256 a) = map (\<lambda>x. take 4 (drop (x * 4) a)) [0..<WIDTH]"
    unfolding UintToArith256_def map_map using assms by (intro map_cong refl) (auto simp: w)
  ultimately show inv: "ArithToUint256 (UintToArith256 a) = a" by (simp add: ArithToUint256_def)
  show "limbs_val (UintToArith256 a) = le_val a"
    using ArithToUint256_val(2) [of "UintToArith256 a"] inv by simp
qed

section \<open>The compact form\<close>

text \<open>The number a compact form with the size \<open>sz\<close> and the mantissa \<open>w\<close> stands for.\<close>

definition compact_num :: "nat \<Rightarrow> nat \<Rightarrow> nat" where
  "compact_num sz w = (if sz \<le> 3 then w div 256 ^ (3 - sz) else w * 256 ^ (sz - 3))"

lemma pow_256: "(256 :: nat) ^ n = 2 ^ (8 * n)"
  by (simp add: power_mult)

lemma compact_overflow:
  fixes sz w :: nat
  assumes "3 < sz" "w < 2 ^ 23"
  shows "w \<noteq> 0 \<and> (sz > 34 \<or> (w > 0xff \<and> sz > 33) \<or> (w > 0xffff \<and> sz > 32)) \<longleftrightarrow> 2 ^ 256 \<le> w * 256 ^ (sz - 3)"
proof -
  consider "sz \<ge> 35" | "sz = 34" | "sz = 33" | "sz \<le> 32" by linarith
  then show ?thesis
  proof cases
    case 1
    have "(2 :: nat) ^ 256 \<le> 256 ^ (sz - 3)" unfolding pow_256 using 1 by (intro power_increasing) simp_all
    moreover have "256 ^ (sz - 3) \<le> w * 256 ^ (sz - 3)" if "w \<noteq> 0" using that by simp
    ultimately have "2 ^ 256 \<le> w * 256 ^ (sz - 3) \<longleftrightarrow> w \<noteq> 0" by (cases "w = 0") (auto intro: order.trans)
    then show ?thesis using 1 by simp
  next
    case 2
    have "(2 :: nat) ^ 256 = 256 * 256 ^ (sz - 3)" using 2 by simp
    then have "2 ^ 256 \<le> w * 256 ^ (sz - 3) \<longleftrightarrow> 256 \<le> w" by (simp only: mult_le_cancel2) simp
    then show ?thesis using 2 by auto
  next
    case 3
    have "(2 :: nat) ^ 256 = 65536 * 256 ^ (sz - 3)" using 3 by simp
    then have "2 ^ 256 \<le> w * 256 ^ (sz - 3) \<longleftrightarrow> 65536 \<le> w" by (simp only: mult_le_cancel2) simp
    then show ?thesis using 3 by auto
  next
    case 4
    have "w * 256 ^ (sz - 3) \<le> (2 ^ 23 - 1) * 256 ^ 29" using 4 assms(2) by (intro mult_le_mono power_increasing) simp_all
    also have "\<dots> < 2 ^ 256" by simp
    finally show ?thesis using 4 by auto
  qed
qed

lemma SetCompact_val:
  assumes "SetCompact c = (a, neg, ovf)"
  defines "sz \<equiv> unat c div 2 ^ 24" and "w \<equiv> unat c mod 2 ^ 23"
  shows "length a = WIDTH" "limbs_val a = compact_num sz w mod 2 ^ 256" "ovf \<longleftrightarrow> 2 ^ 256 \<le> compact_num sz w"
    "neg \<longleftrightarrow> bit c 23 \<and> (if sz \<le> 3 then compact_num sz w else w) \<noteq> 0"
proof -
  let ?nW = "c AND 0x007fffff"
  have sz: "unat (drop_bit 24 c) = sz" unfolding sz_def by (subst unat_drop_bit_eq) (simp add: drop_bit_eq_div)
  have "?nW = take_bit 23 c" by (simp add: take_bit_eq_mask mask_eq_exp_minus_1)
  then have w: "unat ?nW = w" unfolding w_def by (simp only: unsigned_take_bit_eq) (simp add: take_bit_eq_mod)
  have wb: "w < 2 ^ 23" by (simp add: w_def)
  have sgn: "c AND 0x00800000 \<noteq> 0 \<longleftrightarrow> bit c 23"
    using and_single_bit [of c 23] by (simp add: push_bit_eq_mult)
  have "length a = WIDTH \<and> limbs_val a = compact_num sz w mod 2 ^ 256 \<and> (ovf \<longleftrightarrow> 2 ^ 256 \<le> compact_num sz w) \<and>
    (neg \<longleftrightarrow> bit c 23 \<and> (if sz \<le> 3 then compact_num sz w else w) \<noteq> 0)"
  proof (cases "sz \<le> 3")
    case True
    let ?nW' = "drop_bit (8 * (3 - sz)) ?nW"
    have w': "unat ?nW' = compact_num sz w"
      using True w by (subst unat_drop_bit_eq) (simp add: drop_bit_eq_div compact_num_def pow_256)
    have "compact_num sz w \<le> w" using True by (simp add: compact_num_def)
    then have small: "compact_num sz w < 2 ^ 256" using wb by (simp add: less_le_trans)
    have "a = base_of_u64 (ucast ?nW')" "neg \<longleftrightarrow> ?nW' \<noteq> 0 \<and> bit c 23" "\<not> ovf"
      using assms(1) True sgn by (auto simp: SetCompact_def Let_def sz)
    then show ?thesis
      using w' small True by (auto simp: base_of_u64_val unat_eq_zero [symmetric])
  next
    case False
    have n0: "?nW \<noteq> 0 \<longleftrightarrow> w \<noteq> 0" using w by (metis unat_eq_zero)
    have gt: "?nW > 0xff \<longleftrightarrow> w > 0xff" "?nW > 0xffff \<longleftrightarrow> w > 0xffff" using w by (simp_all add: word_less_nat_alt)
    have "a = base_shl (base_of_u64 (ucast ?nW)) (8 * (sz - 3))" "neg \<longleftrightarrow> ?nW \<noteq> 0 \<and> bit c 23"
      "ovf \<longleftrightarrow> ?nW \<noteq> 0 \<and> (sz > 34 \<or> (?nW > 0xff \<and> sz > 33) \<or> (?nW > 0xffff \<and> sz > 32))"
      using assms(1) False sgn by (auto simp: SetCompact_def Let_def sz)
    moreover have "compact_num sz w = w * 2 ^ (8 * (sz - 3))" using False by (simp add: compact_num_def pow_256)
    ultimately show ?thesis
      using False compact_overflow [OF _ wb, of sz] w n0 gt
      by (simp add: base_of_u64_val base_shl_val pow_256 conj_commute)
  qed
  then show "length a = WIDTH" "limbs_val a = compact_num sz w mod 2 ^ 256" "ovf \<longleftrightarrow> 2 ^ 256 \<le> compact_num sz w"
    "neg \<longleftrightarrow> bit c 23 \<and> (if sz \<le> 3 then compact_num sz w else w) \<noteq> 0" by blast+
qed


lemma byte_size:
  assumes "length pn = WIDTH" "limbs_val pn \<noteq> 0"
  defines "z \<equiv> (base_bits pn + 7) div 8"
  shows "1 \<le> z" "z \<le> 32" "256 ^ (z - 1) \<le> limbs_val pn" "limbs_val pn < 256 ^ z"
proof -
  note b = base_bits_val [OF assms(1)]
  have b0: "0 < base_bits pn" using b(4) assms(2) by simp
  then have z: "base_bits pn \<le> 8 * z" "8 * (z - 1) \<le> base_bits pn - 1" unfolding z_def by presburger+
  show "1 \<le> z" "z \<le> 32" using b0 b(1) unfolding z_def by simp_all
  have "(256 :: nat) ^ (z - 1) \<le> 2 ^ (base_bits pn - 1)" unfolding pow_256 using z(2) by (intro power_increasing) simp_all
  then show "256 ^ (z - 1) \<le> limbs_val pn" using b(3) [OF b0] by simp
  have "(2 :: nat) ^ base_bits pn \<le> 256 ^ z" unfolding pow_256 using z(1) by (intro power_increasing) simp_all
  then show "limbs_val pn < 256 ^ z" using b(2) by simp
qed

text \<open>The mantissa before the sign bit is moved out of the way.\<close>

definition raw_mantissa :: "nat \<Rightarrow> nat \<Rightarrow> nat" where
  "raw_mantissa z v = (if z \<le> 3 then v * 256 ^ (3 - z) else v div 256 ^ (z - 3))"

lemma raw_mantissa_bound:
  assumes "1 \<le> z" "256 ^ (z - 1) \<le> v" "v < 256 ^ z"
  shows "2 ^ 16 \<le> raw_mantissa z v" "raw_mantissa z v < 2 ^ 24"
proof -
  consider "z = 1" | "z = 2" | "z = 3" | "z > 3" using assms(1) by linarith
  then have "2 ^ 16 \<le> raw_mantissa z v \<and> raw_mantissa z v < 2 ^ 24"
  proof cases
    case 4
    obtain d where "z = 3 + d" using 4 le_Suc_ex [of 3 z] by auto
    then have "(256 :: nat) ^ (z - 1) = 2 ^ 16 * 256 ^ (z - 3)" "(256 :: nat) ^ z = 2 ^ 24 * 256 ^ (z - 3)"
      by (simp_all add: power_add)
    then have "2 ^ 16 \<le> v div 256 ^ (z - 3)" "v div 256 ^ (z - 3) < 2 ^ 24"
      using assms(2,3) by (simp_all add: less_eq_div_iff_mult_less_eq less_mult_imp_div_less)
    then show ?thesis using 4 by (simp add: raw_mantissa_def)
  qed (use assms in \<open>simp_all add: raw_mantissa_def\<close>)
  then show "2 ^ 16 \<le> raw_mantissa z v" "raw_mantissa z v < 2 ^ 24" by blast+
qed

lemma GetCompact_raw:
  assumes "length pn = WIDTH" "limbs_val pn \<noteq> 0"
  defines "z \<equiv> (base_bits pn + 7) div 8"
  shows "unat (if z \<le> 3 then ucast (push_bit (8 * (3 - z)) (GetLow64 pn))
               else ucast (GetLow64 (base_shr pn (8 * (z - 3)))) :: u32) = raw_mantissa z (limbs_val pn)"
proof -
  let ?v = "limbs_val pn"
  note z = byte_size [OF assms(1,2), folded z_def]
  note m = raw_mantissa_bound [OF z(1,3,4)]
  have cast: "unat (ucast x :: u32) = unat x" if "unat (x :: u64) < 2 ^ 24" for x
    using that unfolding unsigned_ucast_eq by (simp add: take_bit_nat_eq_self)
  show ?thesis
  proof (cases "z \<le> 3")
    case True
    have "?v \<le> raw_mantissa z ?v" using True by (simp add: raw_mantissa_def)
    then have "unat (GetLow64 pn) = ?v" using GetLow64_val [OF assms(1)] m(2) by simp
    then have "unat (push_bit (8 * (3 - z)) (GetLow64 pn)) = raw_mantissa z ?v"
      using True m(2) unfolding unsigned_push_bit_eq
      by (simp add: push_bit_eq_mult take_bit_nat_eq_self raw_mantissa_def pow_256)
    then show ?thesis using True cast m(2) by simp
  next
    case False
    have "limbs_val (base_shr pn (8 * (z - 3))) = raw_mantissa z ?v"
      using False base_shr_val(2) [OF assms(1)] by (simp add: raw_mantissa_def pow_256)
    then have "unat (GetLow64 (base_shr pn (8 * (z - 3)))) = raw_mantissa z ?v"
      using GetLow64_val [OF base_shr_val(1) [OF assms(1)]] m(2) by simp
    then show ?thesis using False cast m(2) by simp
  qed
qed


lemma and_sign: "(x :: u32) AND 0x00800000 \<noteq> 0 \<longleftrightarrow> bit x 23"
  using and_single_bit [of x 23] by (simp add: push_bit_eq_mult)

lemma bit_23_iff: "unat (x :: u32) < 2 ^ 24 \<Longrightarrow> bit x 23 \<longleftrightarrow> 2 ^ 23 \<le> unat x"
  using bit_imp_le_unat [of x 23] unat_less_of_not_bit [of x 23] by force

lemma and_not_mantissa:
  assumes "unat (x :: u32) < 2 ^ 23"
  shows "x AND NOT 0x007fffff = 0"
proof (rule bit_word_eqI)
  fix n
  have m: "(0x007fffff :: u32) = mask 23" by (simp add: mask_eq_exp_minus_1)
  have "\<not> bit x n" if "23 \<le> n"
  proof
    assume "bit x n"
    then have "2 ^ n \<le> unat x" by (rule bit_imp_le_unat)
    moreover have "(2 :: nat) ^ 23 \<le> 2 ^ n" using that by (intro power_increasing) simp_all
    ultimately show False using assms by simp
  qed
  then show "bit (x AND NOT 0x007fffff) n = bit (0 :: u32) n"
    unfolding m by (cases "23 \<le> n") (auto simp: bit_simps)
qed

lemma compact_join:
  assumes "unat (x :: u32) < 2 ^ 23" "z < 256"
  shows "unat (x OR push_bit 24 (of_nat z)) = unat x + 2 ^ 24 * z" 
proof -
  have hi: "unat (push_bit 24 (of_nat z :: u32)) = 2 ^ 24 * z"
    using assms(2) unfolding unsigned_push_bit_eq by (simp add: push_bit_eq_mult take_bit_nat_eq_self unat_of_nat)
  have "x OR push_bit 24 (of_nat z) = x + push_bit 24 (of_nat z)"
  proof (rule disjunctive_add [symmetric])
    show "\<not> bit x n \<or> \<not> bit (push_bit 24 (of_nat z :: u32)) n" for n
    proof (cases "24 \<le> n")
      case True
      then have "(2 :: nat) ^ 23 \<le> 2 ^ n" by (intro power_increasing) simp_all
      then show ?thesis using bit_imp_le_unat [of x n] assms(1) by fastforce
    qed (simp add: bit_simps)
  qed
  then show ?thesis using hi assms by (simp add: unat_word_ariths)
qed


lemma GetCompact_val:
  assumes "length pn = WIDTH" "limbs_val pn \<noteq> 0"
  defines "z \<equiv> (base_bits pn + 7) div 8" 
  defines "m \<equiv> raw_mantissa z (limbs_val pn)"
  shows "\<exists>c. GetCompact pn False = Some c \<and>
    unat c = (if 2 ^ 23 \<le> m then m div 256 + 2 ^ 24 * (z + 1) else m + 2 ^ 24 * z)"
proof -
  note z = byte_size [OF assms(1,2), folded z_def]
  note mb = raw_mantissa_bound [OF z(1,3,4), folded m_def]
  obtain n0 :: u32 where n0: "n0 = (if z \<le> 3 then ucast (push_bit (8 * (3 - z)) (GetLow64 pn))
               else ucast (GetLow64 (base_shr pn (8 * (z - 3)))))" by blast
  have u: "unat n0 = m" unfolding n0 m_def z_def by (rule GetCompact_raw [OF assms(1,2)])
  have get: "GetCompact pn False =
      (case if n0 AND 0x00800000 \<noteq> 0 then (drop_bit 8 n0, z + 1) else (n0, z) of (n, s) \<Rightarrow>
        if n AND NOT 0x007fffff \<noteq> 0 \<or> \<not> s < 256 then None else Some (n OR push_bit 24 (of_nat s)))"
    unfolding GetCompact_def Let_def n0 z_def by (simp split: prod.split)
  show ?thesis
  proof (cases "2 ^ 23 \<le> m")
    case True
    then have b: "n0 AND 0x00800000 \<noteq> 0" using u mb(2) and_sign bit_23_iff [of n0] by simp
    have d: "unat (drop_bit 8 n0) = m div 256" using u by (subst unat_drop_bit_eq) (simp add: drop_bit_eq_div)
    then have small: "unat (drop_bit 8 n0) < 2 ^ 23" using mb(2) by simp
    show ?thesis
      unfolding get using b z(2) and_not_mantissa [OF small] compact_join [OF small, of "z + 1"] d True by simp
  next
    case False
    then have b: "\<not> n0 AND 0x00800000 \<noteq> 0" using u mb(2) and_sign bit_23_iff [of n0] by simp
    have small: "unat n0 < 2 ^ 23" using False u by simp
    show ?thesis
      unfolding get using b z(2) and_not_mantissa [OF small] compact_join [OF small, of z] u False by simp
  qed
qed

lemma compact_truncates:
  assumes "1 \<le> z" "256 ^ (z - 1) \<le> v" "v < 256 ^ z"
  defines "m \<equiv> raw_mantissa z v"
  defines "m' \<equiv> if 2 ^ 23 \<le> m then m div 256 else m" and "z' \<equiv> if 2 ^ 23 \<le> m then z + 1 else z"
  shows "m' < 2 ^ 23" "\<exists>e. compact_num z' m' = v div 256 ^ e * 256 ^ e \<and> (e = 0 \<or> 2 ^ 15 * 256 ^ e \<le> v)"
proof -
  note mb = raw_mantissa_bound [OF assms(1-3), folded m_def]
  show "m' < 2 ^ 23" using mb by (auto simp: m'_def)
  consider "z < 3" | "z = 3" | "z > 3" by linarith
  then show "\<exists>e. compact_num z' m' = v div 256 ^ e * 256 ^ e \<and> (e = 0 \<or> 2 ^ 15 * 256 ^ e \<le> v)"
  proof cases
    case 1
    then have "z = 1 \<or> z = 2" using assms(1) by auto
    then have "compact_num z' m' = v"
      by (auto simp: compact_num_def m'_def z'_def m_def raw_mantissa_def)
    then show ?thesis by (intro exI [of _ 0]) simp
  next
    case 2
    then have m: "m = v" by (simp add: m_def raw_mantissa_def)
    show ?thesis
    proof (cases "2 ^ 23 \<le> m")
      case True
      then show ?thesis using 2 m by (intro exI [of _ 1]) (simp add: compact_num_def m'_def z'_def)
    next
      case False
      then show ?thesis using 2 m by (intro exI [of _ 0]) (simp add: compact_num_def m'_def z'_def)
    qed
  next
    case 3
    obtain d where d: "z = 3 + d" using 3 le_Suc_ex [of 3 z] by auto
    have m: "m = v div 256 ^ d" using 3 d by (simp add: m_def raw_mantissa_def)
    have v: "2 ^ 16 * 256 ^ d \<le> v" using assms(2) d by (simp add: power_add)
    show ?thesis
    proof (cases "2 ^ 23 \<le> m")
      case True
      have "m div 256 = v div 256 ^ (d + 1)" unfolding m by (simp add: div_mult2_eq [symmetric] mult.commute)
      moreover have "2 ^ 15 * 256 ^ (d + 1) \<le> v"
        using True unfolding m by (simp add: less_eq_div_iff_mult_less_eq)
      ultimately show ?thesis
        using True d by (intro exI [of _ "d + 1"]) (simp add: compact_num_def m'_def z'_def)
    next
      case False
      then show ?thesis
        using 3 d v m by (intro exI [of _ d]) (simp add: compact_num_def m'_def z'_def)
    qed
  qed
qed

lemma GetCompact_zero:
  assumes "length pn = WIDTH" "limbs_val pn = 0"
  shows "GetCompact pn False = Some 0"
proof -
  have "base_bits pn = 0" using base_bits_val(4) [OF assms(1)] assms(2) by simp
  moreover have "GetLow64 pn = 0" using GetLow64_val [OF assms(1)] assms(2) by (simp add: unat_eq_zero)
  ultimately show ?thesis by (simp add: GetCompact_def)
qed

lemma not_bit_23: "w < 2 ^ 23 \<Longrightarrow> unat (c :: u32) = w + 2 ^ 24 * z \<Longrightarrow> \<not> bit c 23"
proof -
  assume a: "w < 2 ^ 23" "unat c = w + 2 ^ 24 * z"
  have "unat c div 2 ^ 23 = 2 * z" using a by simp
  then have "\<not> bit (unat c) 23" by (simp add: bit_iff_odd)
  then show ?thesis by (simp add: bit_unsigned_iff)
qed

lemma compact_fields:
  assumes "(w :: nat) < 2 ^ 23"
  shows "(w + 2 ^ 24 * z) div 2 ^ 24 = z" "(w + 2 ^ 24 * z) mod 2 ^ 23 = w"
proof -
  show "(w + 2 ^ 24 * z) div 2 ^ 24 = z" using assms by simp
  have "w + 2 ^ 24 * z = w + 2 ^ 23 * (2 * z)" by simp
  then show "(w + 2 ^ 24 * z) mod 2 ^ 23 = w" using assms by (simp only: mod_mult_self2) simp
qed

lemma compact_roundtrip_val:
  assumes "length pn = WIDTH"
  shows "\<exists>c a' e. GetCompact pn False = Some c \<and> SetCompact c = (a', False, False) \<and> length a' = WIDTH \<and>
    limbs_val a' = limbs_val pn div 256 ^ e * 256 ^ e \<and> (e = 0 \<or> 2 ^ 15 * 256 ^ e \<le> limbs_val pn)"
proof (cases "limbs_val pn = 0")
  case True
  obtain a neg ovf where s: "SetCompact 0 = (a, neg, ovf)" by (cases "SetCompact 0")
  have "compact_num 0 0 = 0" by (simp add: compact_num_def)
  then show ?thesis
    using GetCompact_zero [OF assms True] SetCompact_val [OF s] s True
    by (intro exI [of _ 0] exI [of _ a]) simp
next
  case False
  let ?v = "limbs_val pn" and ?z = "(base_bits pn + 7) div 8"
  let ?m = "raw_mantissa ?z ?v"
  let ?m' = "if 2 ^ 23 \<le> ?m then ?m div 256 else ?m" and ?z' = "if 2 ^ 23 \<le> ?m then ?z + 1 else ?z"
  note z = byte_size [OF assms False]
  obtain c where c: "GetCompact pn False = Some c" "unat c = ?m' + 2 ^ 24 * ?z'"
    using GetCompact_val [OF assms False] by (auto split: if_splits)
  note t = compact_truncates [OF z(1,3,4)]
  obtain e where e: "compact_num ?z' ?m' = ?v div 256 ^ e * 256 ^ e" "e = 0 \<or> 2 ^ 15 * 256 ^ e \<le> ?v"
    using t(2) by blast
  obtain a neg ovf where s: "SetCompact c = (a, neg, ovf)" by (cases "SetCompact c")
  have sz: "unat c div 2 ^ 24 = ?z'" "unat c mod 2 ^ 23 = ?m'" using compact_fields [OF t(1)] unfolding c(2) by blast+
  have "?v div 256 ^ e * 256 ^ e \<le> ?v" by (rule div_times_less_eq_dividend)
  also have "?v < 2 ^ 256" using limbs_val_bound [of pn] assms by simp
  finally have "compact_num ?z' ?m' < 2 ^ 256" using e(1) by simp
  then have "\<not> ovf" "\<not> neg" "length a = WIDTH" "limbs_val a = compact_num ?z' ?m'"
    using SetCompact_val [OF s, unfolded sz] not_bit_23 [OF t(1) c(2)] by auto
  then show ?thesis using c(1) s e by (intro exI [of _ c] exI [of _ a] exI [of _ e]) simp
qed


lemma GetBlockProof_val:
  assumes "SetCompact nBits = (t, fNegative, fOverflow)"
  shows "\<exists>w. GetBlockProof nBits = Inr w \<and> length w = WIDTH \<and>
    limbs_val w = (if fNegative \<or> fOverflow \<or> limbs_val t = 0 then 0 else 2 ^ 256 div (limbs_val t + 1))"
proof (cases "fNegative \<or> fOverflow \<or> limbs_val t = 0")
  case True
  then show ?thesis
    using assms EqualTo_0 [OF SetCompact_val(1) [OF assms]] by (simp add: GetBlockProof_def)
next
  case False
  let ?T = "limbs_val t" and ?sz = "unat nBits div 2 ^ 24" and ?w = "unat nBits mod 2 ^ 23"
  note t = SetCompact_val [OF assms]
  have num: "?T = compact_num ?sz ?w" using t(2,3) False by simp
  have lt: "?T < 2 ^ 256" using limbs_val_bound [of t] t(1) by simp
  have "?T \<noteq> 2 ^ 256 - 1"
  proof (cases "?sz \<le> 3")
    case True
    have "compact_num ?sz ?w \<le> ?w" using True by (simp add: compact_num_def)
    also have "?w < 2 ^ 23" by simp
    finally show ?thesis unfolding num by simp
  next
    case sz: False
    then have "even (256 ^ (?sz - 3) :: nat)" by simp
    then have "even ?T" unfolding num using sz by (simp add: compact_num_def)
    moreover have "odd (2 ^ 256 - 1 :: nat)" by simp
    ultimately show ?thesis by metis
  qed
  then have small: "?T + 1 < 2 ^ 256" using lt by simp
  have d: "length (base_add t (base_of_u64 1)) = WIDTH" "limbs_val (base_add t (base_of_u64 1)) = ?T + 1"
    using base_add_val [OF t(1) base_of_u64_val(1) [of 1]] small by (simp_all add: base_of_u64_val)
  have n: "length (base_not t) = WIDTH" "limbs_val (base_not t) = 2 ^ 256 - (?T + 1)"
    using base_not_val [of t] t(1) by (simp_all add: base_not_def)
  obtain q where q: "base_div (base_not t) (base_add t (base_of_u64 1)) = Inr q" "length q = WIDTH"
      "limbs_val q = (2 ^ 256 - (?T + 1)) div (?T + 1)"
    using base_div_val(2) [OF n(1) d(1)] unfolding n(2) d(2) by auto
  have "2 ^ 256 = (2 ^ 256 - (?T + 1)) + (?T + 1)" using small by simp
  then have div: "2 ^ 256 div (?T + 1) = (2 ^ 256 - (?T + 1)) div (?T + 1) + 1"
    by (metis div_add_self2 add_is_0 one_neq_zero)
  have "2 ^ 256 div (?T + 1) \<le> 2 ^ 256 div 2" using False by (intro div_le_mono2) simp_all
  then have "2 ^ 256 div (?T + 1) < 2 ^ 256" by (rule le_less_trans) simp
  then have "length (base_add q (base_of_u64 1)) = WIDTH" "limbs_val (base_add q (base_of_u64 1)) = 2 ^ 256 div (?T + 1)"
    using base_add_val [OF q(2) base_of_u64_val(1) [of 1]] q(3) div by (simp_all only: base_of_u64_val) simp_all
  moreover have "GetBlockProof nBits = Inr (base_add q (base_of_u64 1))"
    using assms False q(1) EqualTo_0 [OF t(1)] by (simp add: GetBlockProof_def)
  ultimately show ?thesis using False by simp
qed


lemma length_base_dec [simp]: "length (base_dec pn) = length pn"
  by (induction pn) simp_all

lemma base_dec_val: "limbs_val (base_dec pn) = (limbs_val pn + (2 ^ (32 * length pn) - 1)) mod 2 ^ (32 * length pn)"
proof (induction pn)
  case (Cons x pn)
  let ?M = "2 ^ (32 * length pn) :: nat" and ?v = "limbs_val pn"
  have M: "2 ^ (32 * length (x # pn)) = 2 ^ 32 * ?M" by (simp add: power_add)
  have pos: "1 \<le> ?M" by simp
  show ?case
  proof (cases "x = 0")
    case True
    have "limbs_val (base_dec (x # pn)) = (2 ^ 32 - 1) + 2 ^ 32 * limbs_val (base_dec pn)"
      using True by (simp add: unsigned_minus_1_eq_mask mask_eq_exp_minus_1)
    also have "\<dots> = (2 ^ 32 - 1) + 2 ^ 32 * ((?v + (?M - 1)) mod ?M)" unfolding Cons.IH ..
    also have "\<dots> = (2 ^ 32 * (?v + (?M - 1)) + (2 ^ 32 - 1)) mod (2 ^ 32 * ?M)"
    proof -
      let ?u = "?v + (?M - 1)"
      have "(2 ^ 32 * ?u + (2 ^ 32 - 1)) div 2 ^ 32 = ?u" "(2 ^ 32 * ?u + (2 ^ 32 - 1)) mod 2 ^ 32 = (2 ^ 32 - 1 :: nat)"
        by simp_all
      then show ?thesis unfolding mod_mult2_eq [of "2 ^ 32 * ?u + (2 ^ 32 - 1)"] by (simp only: add.commute)
    qed
    also have "2 ^ 32 * (?v + (?M - 1)) + (2 ^ 32 - 1) = 2 ^ 32 * ?v + (2 ^ 32 * ?M - 1)"
    proof -
      obtain K where "?M = K + 1" using pos by (metis le_add_diff_inverse2)
      then show ?thesis by simp
    qed
    finally show ?thesis unfolding M using True by simp
  next
    case False
    then have u: "unat (x - 1) + 1 = unat x" by (simp add: unat_minus_one unat_gt_0 Suc_leI)
    have b: "limbs_val ((x - 1) # pn) < 2 ^ 32 * ?M" using limbs_val_bound [of "(x - 1) # pn"] M by simp
    have "limbs_val (x # pn) = limbs_val ((x - 1) # pn) + 1" using u by simp
    moreover have "1 \<le> 2 ^ 32 * ?M" by simp
    ultimately have "limbs_val (x # pn) + (2 ^ 32 * ?M - 1) = limbs_val ((x - 1) # pn) + 2 ^ 32 * ?M" by linarith
    then have "(limbs_val (x # pn) + (2 ^ 32 * ?M - 1)) mod (2 ^ 32 * ?M) = limbs_val ((x - 1) # pn)"
      using b by (simp only: mod_add_self2 mod_less)
    moreover have "base_dec (x # pn) = (x - 1) # pn" using False by (simp add: eq_neg_iff_add_eq_0)
    ultimately show ?thesis unfolding M by simp
  qed
qed simp

section \<open>Properties\<close>

text \<open>
  C5: the operations on the arrays of words implement arithmetic modulo \<open>2 ^ 256\<close>: sums, differences,
  increments, decrements, products and shifts wrap, the comparison and the bit length are those of the
  numbers, the long division computes the quotient, and division by zero raises the exception.
\<close>
theorem arith_refines:
  assumes "length a = WIDTH" "length b = WIDTH"
  shows "limbs_val (base_add a b) = (limbs_val a + limbs_val b) mod 2 ^ 256 \<and>
    limbs_val (base_sub a b) = (limbs_val a + (2 ^ 256 - limbs_val b)) mod 2 ^ 256 \<and>
    limbs_val (base_inc a) = (limbs_val a + 1) mod 2 ^ 256 \<and>
    limbs_val (base_dec a) = (limbs_val a + (2 ^ 256 - 1)) mod 2 ^ 256 \<and>
    limbs_val (base_mul a b) = (limbs_val a * limbs_val b) mod 2 ^ 256 \<and>
    limbs_val (base_mul32 a w) = (limbs_val a * unat w) mod 2 ^ 256 \<and>
    limbs_val (base_shl a n) = (limbs_val a * 2 ^ n) mod 2 ^ 256 \<and>
    limbs_val (base_shr a n) = limbs_val a div 2 ^ n \<and>
    CompareTo a b = (if limbs_val a < limbs_val b then - 1 else if limbs_val a > limbs_val b then 1 else 0) \<and>
    limbs_val a < 2 ^ base_bits a \<and> (base_bits a = 0 \<or> 2 ^ (base_bits a - 1) \<le> limbs_val a) \<and>
    (if limbs_val b = 0 then base_div a b = Inl DivisionByZero
     else \<exists>q. base_div a b = Inr q \<and> length q = WIDTH \<and> limbs_val q = limbs_val a div limbs_val b)"
proof -
  have len: "32 * length a = 256" using assms(1) by simp
  have bits: "base_bits a = 0 \<or> 2 ^ (base_bits a - 1) \<le> limbs_val a" using base_bits_val(3) [OF assms(1)] by blast
  have quot: "if limbs_val b = 0 then base_div a b = Inl DivisionByZero
     else \<exists>q. base_div a b = Inr q \<and> length q = WIDTH \<and> limbs_val q = limbs_val a div limbs_val b"
    using base_div_val [OF assms] by (simp split: if_split)
  show ?thesis
    by (intro conjI base_add_val(2) [OF assms] base_sub_val(2) [OF assms] base_inc_val [of a, unfolded len]
        base_dec_val [of a, unfolded len] base_mul_val(2) [OF assms] base_mul32_val(2) [OF assms(1)]
        base_shl_val(2) [OF assms(1)] base_shr_val(2) [OF assms(1)] CompareTo_val [of a b, unfolded assms, OF refl]
        base_bits_val(2) [OF assms(1)] bits quot)
qed

theorem arith_refines_witness:
  "limbs_val (base_add (base_not base_zero) (base_of_u64 5)) = 4 \<and>
   (\<exists>q. base_div (base_not base_zero) (base_of_u64 5) = Inr q \<and> limbs_val q = (2 ^ 256 - 1) div 5)"
proof -
  have l: "length (base_not base_zero) = WIDTH" by (simp add: base_not_def)
  have v: "limbs_val (base_not base_zero) = 2 ^ 256 - 1" using base_not_val [of base_zero] by simp
  have v5: "limbs_val (base_of_u64 5) = 5" by (simp add: base_of_u64_val)
  note r = arith_refines [OF l base_of_u64_val(1) [of 5], unfolded v v5]
  have "limbs_val (base_add (base_not base_zero) (base_of_u64 5)) = (2 ^ 256 - 1 + 5) mod 2 ^ 256"
    using r by blast
  moreover have "\<exists>q. base_div (base_not base_zero) (base_of_u64 5) = Inr q \<and> limbs_val q = (2 ^ 256 - 1) div 5"
  proof -
    have "if (5 :: nat) = 0 then base_div (base_not base_zero) (base_of_u64 5) = Inl DivisionByZero
        else \<exists>q. base_div (base_not base_zero) (base_of_u64 5) = Inr q \<and> length q = WIDTH \<and>
          limbs_val q = (2 ^ 256 - 1) div 5"
      using r by blast
    then have "\<exists>q. base_div (base_not base_zero) (base_of_u64 5) = Inr q \<and> length q = WIDTH \<and>
        limbs_val q = (2 ^ 256 - 1) div 5" by (simp only: zero_neq_numeral [symmetric] if_False simp_thms)
    then show ?thesis by blast
  qed
  ultimately show ?thesis by simp
qed

text \<open>
  C23: writing a target in the compact form never fails an assertion and reading it back gives, without
  sign or overflow, the target cut down to its leading bytes, with at least fifteen significant
  bits kept; the work of a block with a compact target is \<open>2 ^ 256\<close> over the target plus one, as the
  comment in the code argues, computed without a division by zero for every 32-bit input.
\<close>
theorem compact_roundtrip:
  assumes "length a = WIDTH"
  shows "(\<exists>c a' e. GetCompact a False = Some c \<and> SetCompact c = (a', False, False) \<and> length a' = WIDTH \<and>
      limbs_val a' = limbs_val a div 256 ^ e * 256 ^ e \<and> (e = 0 \<or> 2 ^ 15 * 256 ^ e \<le> limbs_val a)) \<and>
    (\<exists>t fNegative fOverflow w. SetCompact nBits = (t, fNegative, fOverflow) \<and> GetBlockProof nBits = Inr w \<and>
      limbs_val w = (if fNegative \<or> fOverflow \<or> limbs_val t = 0 then 0 else 2 ^ 256 div (limbs_val t + 1)))"
proof -
  obtain t n ovf where t: "SetCompact nBits = (t, n, ovf)" by (cases "SetCompact nBits")
  show ?thesis using compact_roundtrip_val [OF assms] GetBlockProof_val [OF t] t by blast
qed

theorem compact_roundtrip_witness:
  "\<exists>c a'. GetCompact (base_of_u64 0x1234) False = Some c \<and> SetCompact c = (a', False, False) \<and> limbs_val a' = 0x1234"
proof -
  have v: "limbs_val (base_of_u64 0x1234) = 0x1234" by (simp add: base_of_u64_val)
  obtain c a' e where c: "GetCompact (base_of_u64 0x1234) False = Some c" "SetCompact c = (a', False, False)"
    "limbs_val a' = 0x1234 div 256 ^ e * 256 ^ e" "e = 0 \<or> 2 ^ 15 * 256 ^ e \<le> (0x1234 :: nat)"
    using compact_roundtrip [OF base_of_u64_val(1) [of "0x1234"], unfolded v] by blast
  have "2 ^ 15 * 1 \<le> (2 ^ 15 * 256 ^ e :: nat)" by (intro mult_le_mono) simp_all
  then have "(0x1234 :: nat) < 2 ^ 15 * 256 ^ e" by (rule less_le_trans [rotated]) simp
  then have "\<not> 2 ^ 15 * 256 ^ e \<le> (0x1234 :: nat)" by (simp only: not_le)
  then have "e = 0" using c(4) by blast
  then show ?thesis using c by auto
qed

end
