(* ===== verification/Block.thy ===== *)
theory Block
  imports Transaction
begin

text \<open>
  Block headers and blocks (\<open>src/src/primitives/block.h\<close>, \<open>src/src/primitives/block.cpp\<close>): their data,
  their wire format and their hashes.  A stream of type \<open>SER_WITHOUT_SIGNATURE\<close>, which leaves the block
  signature out, is only ever written (by \<open>GetHashWithoutSign\<close>).
\<close>

section \<open>Data\<close>

record CBlockHeader =
  hd_nVersion :: u32
  hashPrevBlock :: uint256
  hashMerkleRoot :: uint256
  hd_nTime :: u32
  hd_nBits :: u32
  hd_nNonce :: u32
  hashStateRoot :: uint256
  hashUTXORoot :: uint256
  prevoutStake :: COutPoint
  vchBlockSig :: "byte list"

record CBlock =
  header :: CBlockHeader
  vtx :: "CTransaction list"

definition CBlockHeader_null :: CBlockHeader where
  "CBlockHeader_null =
     \<lparr>hd_nVersion = 0, hashPrevBlock = uint256_null, hashMerkleRoot = uint256_null, hd_nTime = 0,
      hd_nBits = 0, hd_nNonce = 0, hashStateRoot = uint256_null, hashUTXORoot = uint256_null,
      prevoutStake = COutPoint_null, vchBlockSig = []\<rparr>"

definition CBlockHeader_IsNull :: "CBlockHeader \<Rightarrow> bool" where
  "CBlockHeader_IsNull block \<longleftrightarrow> hd_nBits block = 0"

definition IsProofOfStake :: "CBlockHeader \<Rightarrow> bool" where
  "IsProofOfStake block \<longleftrightarrow> \<not> COutPoint_IsNull (prevoutStake block)"

definition IsProofOfWork :: "CBlockHeader \<Rightarrow> bool" where
  "IsProofOfWork block \<longleftrightarrow> \<not> IsProofOfStake block"

definition StakeTime :: "CBlockHeader \<Rightarrow> u32" where
  "StakeTime block = (if IsProofOfStake block then hd_nTime block else 0)"

definition GetProofOfStake :: "CBlockHeader \<Rightarrow> COutPoint \<times> u32" where
  "GetProofOfStake block =
     (if IsProofOfStake block then (prevoutStake block, hd_nTime block) else (COutPoint_null, 0))"

section \<open>Wire format and hashes\<close>

definition Serialize_CBlockHeader :: "bool \<Rightarrow> CBlockHeader \<Rightarrow> byte list" where
  "Serialize_CBlockHeader withoutSignature block =
     ser_writedata32 (hd_nVersion block) @ hashPrevBlock block @ hashMerkleRoot block @
     ser_writedata32 (hd_nTime block) @ ser_writedata32 (hd_nBits block) @ ser_writedata32 (hd_nNonce block) @
     hashStateRoot block @ hashUTXORoot block @ Serialize_COutPoint (prevoutStake block) @
     (if withoutSignature then [] else Serialize_bytes (vchBlockSig block))"

definition Unserialize_CBlockHeader :: "CBlockHeader reader" where
  "Unserialize_CBlockHeader s =
     bindE (ser_readdata32 s) (\<lambda>(ver, s).
     bindE (stream_read 32 s) (\<lambda>(prev, s).
     bindE (stream_read 32 s) (\<lambda>(root, s).
     bindE (ser_readdata32 s) (\<lambda>(time, s).
     bindE (ser_readdata32 s) (\<lambda>(bits, s).
     bindE (ser_readdata32 s) (\<lambda>(nonce, s).
     bindE (stream_read 32 s) (\<lambda>(state, s).
     bindE (stream_read 32 s) (\<lambda>(utxo, s).
     bindE (Unserialize_COutPoint s) (\<lambda>(stake, s).
     bindE (Unserialize_bytes s) (\<lambda>(sig, s).
       Inr (\<lparr>hd_nVersion = ver, hashPrevBlock = prev, hashMerkleRoot = root, hd_nTime = time,
             hd_nBits = bits, hd_nNonce = nonce, hashStateRoot = state, hashUTXORoot = utxo,
             prevoutStake = stake, vchBlockSig = sig\<rparr>, s)))))))))))"

definition block_GetHash :: "CBlockHeader \<Rightarrow> uint256" where
  "block_GetHash block = SerializeHash (Serialize_CBlockHeader False block)"

definition GetHashWithoutSign :: "CBlockHeader \<Rightarrow> uint256" where
  "GetHashWithoutSign block = SerializeHash (Serialize_CBlockHeader True block)"

definition Serialize_CBlock :: "bool \<Rightarrow> CBlock \<Rightarrow> byte list" where
  "Serialize_CBlock fAllowWitness block =
     Serialize_CBlockHeader False (header block) @
     Serialize_vector (SerializeTransaction fAllowWitness) (vtx block)"

definition Unserialize_CBlock :: "bool \<Rightarrow> CBlock reader" where
  "Unserialize_CBlock fAllowWitness s =
     bindE (Unserialize_CBlockHeader s) (\<lambda>(hd, s).
     bindE (Unserialize_vector (UnserializeTransaction fAllowWitness) s) (\<lambda>(txs, s).
       Inr (\<lparr>header = hd, vtx = txs\<rparr>, s)))"

definition header_ok :: "CBlockHeader \<Rightarrow> bool" where
  "header_ok b \<longleftrightarrow>
     length (hashPrevBlock b) = 32 \<and> length (hashMerkleRoot b) = 32 \<and> length (hashStateRoot b) = 32 \<and>
     length (hashUTXORoot b) = 32 \<and> outpoint_ok (prevoutStake b) \<and> bytes_ok (vchBlockSig b)"

interpretation header: canonical_codec "Serialize_CBlockHeader False" Unserialize_CBlockHeader header_ok
proof unfold_locales
  show "Unserialize_CBlockHeader (Serialize_CBlockHeader False b @ r) = Inr (b, r)" if "header_ok b" for b r
    using that
    by (simp add: Unserialize_CBlockHeader_def Serialize_CBlockHeader_def header_ok_def u32.unser_ser
        outpoint.unser_ser bytes.unser_ser)
  show "header_ok b \<and> s = Serialize_CBlockHeader False b @ r"
    if "Unserialize_CBlockHeader s = Inr (b, r)" for s b r
    using that
    by (auto simp: Unserialize_CBlockHeader_def Serialize_CBlockHeader_def header_ok_def stream_read_Inr_iff
        dest!: outpoint.ser_unser bytes.ser_unser u32.ser_unser)
qed

end
