(* ===== verification/Chain.thy ===== *)
theory Chain
  imports ArithUint Block
begin

text \<open>
  The block index and the active chain (\<open>src/src/chain.h\<close>, \<open>src/src/chain.cpp\<close>).

  The index entries live in a heap, a partial map from addresses to entries; \<open>pprev\<close> and \<open>pskip\<close> are
  optional addresses, \<open>None\<close> being the null pointer.  A failed \<open>assert\<close> and a dereference of a dangling
  address are errors.  \<open>AddToBlockIndex\<close> of \<open>src/src/validation.cpp\<close> is what makes the entries.

  The reference meaning of the tree is the walk along \<open>pprev\<close>: \<open>ancestor h p n\<close> is the entry \<open>n\<close> steps
  back from \<open>p\<close>.
\<close>

section \<open>Definitions\<close>

type_synonym addr = nat

text \<open>
  A pointer is an address of the heap \<open>index_heap\<close>; \<open>phashBlock\<close>, which points to the (constant) key of the
  entry in \<open>mapBlockIndex\<close>, is kept as the hash itself.  Heights are far below \<open>2 ^ 31\<close> and are integers.
\<close>

record CBlockIndex =
  phashBlock :: "uint256 option"
  pprev :: "addr option"
  pnext :: "addr option"
  pskip :: "addr option"
  nHeight :: int
  nFile :: int
  nDataPos :: u32
  nUndoPos :: u32
  nChainWork :: base_uint
  nTx :: u32
  nChainTx :: u32
  nStatus :: u32
  bi_nVersion :: u32
  bi_hashMerkleRoot :: uint256
  bi_nTime :: u32
  bi_nBits :: u32
  bi_nNonce :: u32
  bi_hashStateRoot :: uint256
  bi_hashUTXORoot :: uint256
  bi_vchBlockSig :: "byte list"
  nStakeModifier :: uint256
  bi_prevoutStake :: COutPoint
  hashProof :: uint256
  nMoneySupply :: u64
  nSequenceId :: int
  nTimeMax :: u32

definition CBlockIndex_of :: "CBlockHeader \<Rightarrow> CBlockIndex" where
  "CBlockIndex_of block =
     \<lparr>phashBlock = None, pprev = None, pnext = None, pskip = None, nHeight = 0, nFile = 0, nDataPos = 0,
      nUndoPos = 0, nChainWork = base_zero, nTx = 0, nChainTx = 0, nStatus = 0,
      bi_nVersion = hd_nVersion block, bi_hashMerkleRoot = hashMerkleRoot block, bi_nTime = hd_nTime block,
      bi_nBits = hd_nBits block, bi_nNonce = hd_nNonce block, bi_hashStateRoot = hashStateRoot block,
      bi_hashUTXORoot = hashUTXORoot block, bi_vchBlockSig = vchBlockSig block,
      nStakeModifier = uint256_null, bi_prevoutStake = prevoutStake block, hashProof = uint256_null,
      nMoneySupply = 0, nSequenceId = 0, nTimeMax = 0\<rparr>"

text \<open>The header of an entry, with the previous hash taken from the entry \<open>prev\<close> of the previous block.\<close>

definition bi_GetBlockHeader :: "CBlockIndex option \<Rightarrow> CBlockIndex \<Rightarrow> CBlockHeader" where
  "bi_GetBlockHeader prev b =
     \<lparr>hd_nVersion = bi_nVersion b,
      hashPrevBlock = (case prev of None \<Rightarrow> uint256_null | Some c \<Rightarrow> the (phashBlock c)),
      hashMerkleRoot = bi_hashMerkleRoot b, hd_nTime = bi_nTime b, hd_nBits = bi_nBits b,
      hd_nNonce = bi_nNonce b, hashStateRoot = bi_hashStateRoot b, hashUTXORoot = bi_hashUTXORoot b,
      prevoutStake = bi_prevoutStake b, vchBlockSig = bi_vchBlockSig b\<rparr>"

definition bi_IsProofOfStake :: "CBlockIndex \<Rightarrow> bool" where
  "bi_IsProofOfStake b \<longleftrightarrow> \<not> COutPoint_IsNull (bi_prevoutStake b)"

abbreviation (input) BLOCK_VALID_TREE :: u32 where "BLOCK_VALID_TREE \<equiv> 2"
abbreviation (input) BLOCK_VALID_TRANSACTIONS :: u32 where "BLOCK_VALID_TRANSACTIONS \<equiv> 3"
abbreviation (input) BLOCK_VALID_CHAIN :: u32 where "BLOCK_VALID_CHAIN \<equiv> 4"
abbreviation (input) BLOCK_VALID_SCRIPTS :: u32 where "BLOCK_VALID_SCRIPTS \<equiv> 5"
abbreviation (input) BLOCK_VALID_MASK :: u32 where "BLOCK_VALID_MASK \<equiv> 1 OR 2 OR 3 OR 4 OR 5"
abbreviation (input) BLOCK_FAILED_MASK :: u32 where "BLOCK_FAILED_MASK \<equiv> 32 OR 64"

type_synonym index_heap = "addr \<Rightarrow> CBlockIndex option"

datatype chain_error = ChainAssert | Dangling

definition deref :: "index_heap \<Rightarrow> addr \<Rightarrow> chain_error + CBlockIndex" where
  "deref h p = (case h p of None \<Rightarrow> Inl Dangling | Some b \<Rightarrow> Inr b)"

definition InvertLowestOne :: "int \<Rightarrow> int" where
  "InvertLowestOne n = n AND (n - 1)"

definition GetSkipHeight :: "int \<Rightarrow> int" where
  "GetSkipHeight height =
     (if height < 2 then 0
      else if height AND 1 \<noteq> 0 then InvertLowestOne (InvertLowestOne (height - 1)) + 1
      else InvertLowestOne height)"

lemma and_minus_one_less: "0 < n \<Longrightarrow> n AND (n - 1) < (n :: int)"
  using AND_upper1 [of n "n - 1"] AND_upper2 [of "n - 1" n] by (simp add: and.commute)

lemma and_minus_one_nonneg: "0 \<le> n \<Longrightarrow> 0 \<le> n AND (n - 1 :: int)"
  by simp

lemma GetSkipHeight_bounds:
  assumes "0 < height"
  shows "0 \<le> GetSkipHeight height" "GetSkipHeight height < height"
proof -
  have o: "InvertLowestOne n < n" "0 \<le> InvertLowestOne n" if "0 < n" for n
    using that and_minus_one_less [of n] and_minus_one_nonneg [of n] by (simp_all add: InvertLowestOne_def)
  have z: "InvertLowestOne 0 = 0" by (simp add: InvertLowestOne_def)
  have "0 \<le> GetSkipHeight height \<and> GetSkipHeight height < height"
  proof (cases "height < 2")
    case False
    have "0 \<le> InvertLowestOne (InvertLowestOne (height - 1)) \<and>
        InvertLowestOne (InvertLowestOne (height - 1)) < height - 1"
    proof (cases "InvertLowestOne (height - 1) = 0")
      case True
      then show ?thesis using z False by simp
    next
      case nz: False
      then have "0 < InvertLowestOne (height - 1)" using o(2) [of "height - 1"] False by simp
      from o(1) [OF this] o(2) [OF this] o(1) [of "height - 1"] False show ?thesis by simp
    qed
    then show ?thesis using False o [of height] by (simp add: GetSkipHeight_def)
  qed (use assms in \<open>simp add: GetSkipHeight_def\<close>)
  then show "0 \<le> GetSkipHeight height" "GetSkipHeight height < height" by blast+
qed

text \<open>Validity levels of an entry; the assertion allows only validity flags.\<close>

definition bi_IsValid :: "u32 \<Rightarrow> CBlockIndex \<Rightarrow> chain_error + bool" where
  "bi_IsValid nUpTo b =
     (if nUpTo AND NOT BLOCK_VALID_MASK \<noteq> 0 then Inl ChainAssert
      else if nStatus b AND BLOCK_FAILED_MASK \<noteq> 0 then Inr False
      else Inr (nStatus b AND BLOCK_VALID_MASK \<ge> nUpTo))"

definition RaiseValidity :: "u32 \<Rightarrow> CBlockIndex \<Rightarrow> chain_error + CBlockIndex \<times> bool" where
  "RaiseValidity nUpTo b =
     (if nUpTo AND NOT BLOCK_VALID_MASK \<noteq> 0 then Inl ChainAssert
      else if nStatus b AND BLOCK_FAILED_MASK \<noteq> 0 then Inr (b, False)
      else if nStatus b AND BLOCK_VALID_MASK < nUpTo
      then Inr (b\<lparr>nStatus := (nStatus b AND NOT BLOCK_VALID_MASK) OR nUpTo\<rparr>, True)
      else Inr (b, False))"

text \<open>
  The walk of \<open>GetAncestor\<close>; the loop is controlled by \<open>heightWalk\<close>, which goes down in every turn.
  \<open>GetAncestor\<close> returns before the loop for a negative height.
\<close>

function GetAncestor_loop :: "index_heap \<Rightarrow> int \<Rightarrow> addr \<Rightarrow> int \<Rightarrow> chain_error + addr" where
  "GetAncestor_loop h height pindexWalk heightWalk =
     (if heightWalk > height \<and> height \<ge> 0 then
        bindE (deref h pindexWalk) (\<lambda>b.
          let heightSkip = GetSkipHeight heightWalk;
              heightSkipPrev = GetSkipHeight (heightWalk - 1)
          in if pskip b \<noteq> None \<and>
                (heightSkip = height \<or>
                 (heightSkip > height \<and> \<not> (heightSkipPrev < heightSkip - 2 \<and> heightSkipPrev \<ge> height)))
             then GetAncestor_loop h height (the (pskip b)) heightSkip
             else case pprev b of
               None \<Rightarrow> Inl ChainAssert
             | Some p \<Rightarrow> GetAncestor_loop h height p (heightWalk - 1))
      else Inr pindexWalk)"
  by pat_completeness auto
termination
proof (relation "measure (\<lambda>(_, _, _, heightWalk). nat heightWalk)", goal_cases)
  case (2 h height pindexWalk heightWalk b hs hsp)
  then show ?case using GetSkipHeight_bounds [of heightWalk] by simp
qed auto

declare GetAncestor_loop.simps [simp del]

definition GetAncestor :: "index_heap \<Rightarrow> addr \<Rightarrow> int \<Rightarrow> chain_error + addr option" where
  "GetAncestor h this height =
     bindE (deref h this) (\<lambda>b.
       if height > nHeight b \<or> height < 0 then Inr None
       else bindE (GetAncestor_loop h height this (nHeight b)) (\<lambda>p. Inr (Some p)))"

definition BuildSkip :: "index_heap \<Rightarrow> addr \<Rightarrow> chain_error + index_heap" where
  "BuildSkip h this =
     bindE (deref h this) (\<lambda>b.
       case pprev b of
         None \<Rightarrow> Inr h
       | Some p \<Rightarrow>
           bindE (GetAncestor h p (GetSkipHeight (nHeight b))) (\<lambda>r. Inr (h(this \<mapsto> b\<lparr>pskip := r\<rparr>))))"

text \<open>The times of the entry and of up to ten predecessors, and their median.\<close>

primrec median_times :: "index_heap \<Rightarrow> nat \<Rightarrow> addr option \<Rightarrow> chain_error + int list" where
  "median_times h 0 pindex = Inr []"
| "median_times h (Suc i) pindex =
     (case pindex of
        None \<Rightarrow> Inr []
      | Some p \<Rightarrow>
          bindE (deref h p) (\<lambda>b.
          bindE (median_times h i (pprev b)) (\<lambda>ts. Inr (ts @ [uint (bi_nTime b)]))))"

definition GetMedianTimePast :: "index_heap \<Rightarrow> addr \<Rightarrow> chain_error + int" where
  "GetMedianTimePast h this =
     bindE (median_times h 11 (Some this)) (\<lambda>ts. Inr (sort ts ! (length ts div 2)))"

section \<open>The block index\<close>

text \<open>
  The globals of \<open>src/src/validation.cpp\<close> that \<open>AddToBlockIndex\<close> changes, with the heap the entries live
  in.  \<open>ComputeStakeModifier\<close> is from \<open>src/src/pos.cpp\<close>.
\<close>

record index_state =
  entries :: index_heap
  mapBlockIndex :: "uint256 \<Rightarrow> addr option"
  setStakeSeen :: "(COutPoint \<times> u32) list"
  pindexBestHeader :: "addr option"
  setDirtyBlockIndex :: "addr list"

definition index_empty :: index_state where
  "index_empty =
     \<lparr>entries = Map.empty, mapBlockIndex = Map.empty, setStakeSeen = [], pindexBestHeader = None,
      setDirtyBlockIndex = []\<rparr>"

definition ComputeStakeModifier :: "CBlockIndex option \<Rightarrow> uint256 \<Rightarrow> uint256" where
  "ComputeStakeModifier pindexPrev hashKernel =
     (case pindexPrev of
        None \<Rightarrow> uint256_null
      | Some b \<Rightarrow> Hash (hashKernel @ nStakeModifier b))"

definition lift_chain :: "chain_error + 'a \<Rightarrow> (chain_error + uint_error) + 'a" where
  "lift_chain r = map_sum Inl id r"

definition lift_uint :: "uint_error + 'a \<Rightarrow> (chain_error + uint_error) + 'a" where
  "lift_uint r = map_sum Inr id r"

text \<open>Linking the new entry at \<open>this\<close> to the entry found for the previous hash.\<close>

definition link_prev :: "index_heap \<Rightarrow> addr \<Rightarrow> addr option \<Rightarrow> chain_error + index_heap" where
  "link_prev h this miPrev =
     (case miPrev of
        None \<Rightarrow> Inr h
      | Some p \<Rightarrow>
          bindE (deref h p) (\<lambda>b.
          bindE (deref h this) (\<lambda>new.
            BuildSkip (h(this \<mapsto> new\<lparr>pprev := Some p, nHeight := nHeight b + 1\<rparr>)) this)))"

text \<open>The fields that accumulate over the chain.\<close>

definition accumulate :: "CBlockHeader \<Rightarrow> uint256 \<Rightarrow> CBlockIndex option \<Rightarrow> CBlockIndex \<Rightarrow>
    (chain_error + uint_error) + CBlockIndex" where
  "accumulate block hash prev new =
     bindE (lift_uint (GetBlockProof (bi_nBits new))) (\<lambda>w.
     bindE (lift_chain (RaiseValidity BLOCK_VALID_TREE
              (new\<lparr>nTimeMax := (case prev of Some c \<Rightarrow> max (nTimeMax c) (bi_nTime new) | None \<Rightarrow> bi_nTime new),
                   nChainWork := base_add (case prev of Some c \<Rightarrow> nChainWork c | None \<Rightarrow> base_of_u64 0) w,
                   nStakeModifier := ComputeStakeModifier prev
                     (if IsProofOfWork block then hash else o_hash (prevoutStake block))\<rparr>)))
       (\<lambda>(b, _). Inr b))"

text \<open>Whether the new entry has more work than the best header so far.\<close>

definition better_header :: "index_heap \<Rightarrow> addr option \<Rightarrow> CBlockIndex \<Rightarrow> chain_error + bool" where
  "better_header h best new =
     (case best of
        None \<Rightarrow> Inr True
      | Some p \<Rightarrow> bindE (deref h p) (\<lambda>c. Inr (CompareTo (nChainWork c) (nChainWork new) < 0)))"

text \<open>\<open>this\<close> is the address that the allocation of the new entry returns.\<close>

definition AddToBlockIndex ::
  "index_state \<Rightarrow> addr \<Rightarrow> CBlockHeader \<Rightarrow> (chain_error + uint_error) + index_state \<times> addr" where
  "AddToBlockIndex s this block =
     (let hash = block_GetHash block
      in case mapBlockIndex s hash of
           Some p \<Rightarrow> Inr (s, p)
         | None \<Rightarrow>
             let new = (CBlockIndex_of block)\<lparr>nSequenceId := 0, phashBlock := Some hash\<rparr>;
                 index = (mapBlockIndex s)(hash \<mapsto> this);
                 seen = (if bi_IsProofOfStake new
                         then List.insert (bi_prevoutStake new, bi_nTime new) (setStakeSeen s) else setStakeSeen s)
             in bindE (lift_chain (link_prev ((entries s)(this \<mapsto> new)) this (index (hashPrevBlock block)))) (\<lambda>h.
                bindE (lift_chain (deref h this)) (\<lambda>b.
                bindE (accumulate block hash (Option.bind (pprev b) h) b) (\<lambda>b.
                bindE (lift_chain (better_header (h(this \<mapsto> b)) (pindexBestHeader s) b)) (\<lambda>better.
                  Inr (s\<lparr>entries := h(this \<mapsto> b), mapBlockIndex := index, setStakeSeen := seen,
                         pindexBestHeader := if better then Some this else pindexBestHeader s,
                         setDirtyBlockIndex := List.insert this (setDirtyBlockIndex s)\<rparr>, this))))))"

section \<open>The active chain\<close>

type_synonym CChain = "addr option list"

definition chain_at :: "CChain \<Rightarrow> int \<Rightarrow> addr option" where
  "chain_at vChain i = (if i < 0 \<or> i \<ge> int (length vChain) then None else vChain ! nat i)"

definition chain_Tip :: "CChain \<Rightarrow> addr option" where
  "chain_Tip vChain = (if length vChain > 0 then vChain ! (length vChain - 1) else None)"

definition chain_Height :: "CChain \<Rightarrow> int" where
  "chain_Height vChain = int (length vChain) - 1"

definition chain_Contains :: "index_heap \<Rightarrow> CChain \<Rightarrow> addr \<Rightarrow> chain_error + bool" where
  "chain_Contains h vChain pindex = bindE (deref h pindex) (\<lambda>b. Inr (chain_at vChain (nHeight b) = Some pindex))"

definition chain_Next :: "index_heap \<Rightarrow> CChain \<Rightarrow> addr \<Rightarrow> chain_error + addr option" where
  "chain_Next h vChain pindex =
     bindE (deref h pindex) (\<lambda>b.
       bindE (chain_Contains h vChain pindex) (\<lambda>c. Inr (if c then chain_at vChain (nHeight b + 1) else None)))"

text \<open>The loops along \<open>pprev\<close> return only if the heap has no cycle: the outer \<open>None\<close> is a run that does not end.\<close>

partial_function (option) SetTip_loop ::
  "index_heap \<Rightarrow> CChain \<Rightarrow> addr option \<Rightarrow> (chain_error + CChain) option" where
  "SetTip_loop h vChain pindex =
     (case pindex of
        None \<Rightarrow> Some (Inr vChain)
      | Some p \<Rightarrow>
          (case h p of
             None \<Rightarrow> Some (Inl Dangling)
           | Some b \<Rightarrow>
               if nHeight b < 0 \<or> nat (nHeight b) \<ge> length vChain then Some (Inl Dangling)
               else if vChain ! nat (nHeight b) \<noteq> Some p
               then SetTip_loop h (vChain[nat (nHeight b) := Some p]) (pprev b)
               else Some (Inr vChain)))"

definition chain_resize :: "nat \<Rightarrow> CChain \<Rightarrow> CChain" where
  "chain_resize n vChain = take n vChain @ replicate (n - length vChain) None"

definition SetTip :: "index_heap \<Rightarrow> CChain \<Rightarrow> addr option \<Rightarrow> (chain_error + CChain) option" where
  "SetTip h vChain pindex =
     (case pindex of
        None \<Rightarrow> Some (Inr [])
      | Some p \<Rightarrow>
          (case h p of
             None \<Rightarrow> Some (Inl Dangling)
           | Some b \<Rightarrow> SetTip_loop h (chain_resize (nat (nHeight b + 1)) vChain) (Some p)))"

partial_function (option) FindFork_loop ::
  "index_heap \<Rightarrow> CChain \<Rightarrow> addr option \<Rightarrow> (chain_error + addr option) option" where
  "FindFork_loop h vChain pindex =
     (case pindex of
        None \<Rightarrow> Some (Inr None)
      | Some p \<Rightarrow>
          (case h p of
             None \<Rightarrow> Some (Inl Dangling)
           | Some b \<Rightarrow>
               if chain_at vChain (nHeight b) \<noteq> Some p then FindFork_loop h vChain (pprev b)
               else Some (Inr (Some p))))"

definition FindFork :: "index_heap \<Rightarrow> CChain \<Rightarrow> addr option \<Rightarrow> (chain_error + addr option) option" where
  "FindFork h vChain pindex =
     (case pindex of
        None \<Rightarrow> Some (Inr None)
      | Some p \<Rightarrow>
          (case bindE (deref h p) (\<lambda>b.
                  if nHeight b > chain_Height vChain then GetAncestor h p (chain_Height vChain) else Inr (Some p)) of
             Inl e \<Rightarrow> Some (Inl e)
           | Inr q \<Rightarrow> FindFork_loop h vChain q))"

partial_function (option) LastCommonAncestor_loop ::
  "index_heap \<Rightarrow> addr option \<Rightarrow> addr option \<Rightarrow> (chain_error + addr option \<times> addr option) option" where
  "LastCommonAncestor_loop h pa pb =
     (if pa \<noteq> pb \<and> pa \<noteq> None \<and> pb \<noteq> None then
        (case (h (the pa), h (the pb)) of
           (Some a, Some b) \<Rightarrow> LastCommonAncestor_loop h (pprev a) (pprev b)
         | _ \<Rightarrow> Some (Inl Dangling))
      else Some (Inr (pa, pb)))"

definition LastCommonAncestor :: "index_heap \<Rightarrow> addr \<Rightarrow> addr \<Rightarrow> (chain_error + addr option) option" where
  "LastCommonAncestor h pa pb =
     (case bindE (deref h pa) (\<lambda>a. bindE (deref h pb) (\<lambda>b.
             if nHeight a > nHeight b then bindE (GetAncestor h pa (nHeight b)) (\<lambda>pa. Inr (pa, Some pb))
             else if nHeight b > nHeight a then bindE (GetAncestor h pb (nHeight a)) (\<lambda>pb. Inr (Some pa, pb))
             else Inr (Some pa, Some pb))) of
        Inl e \<Rightarrow> Some (Inl e)
      | Inr (pa, pb) \<Rightarrow>
          (case LastCommonAncestor_loop h pa pb of
             None \<Rightarrow> None
           | Some (Inl e) \<Rightarrow> Some (Inl e)
           | Some (Inr (pa, pb)) \<Rightarrow> Some (if pa = pb then Inr pa else Inl ChainAssert)))"

section \<open>The reference walk\<close>

primrec ancestor :: "index_heap \<Rightarrow> addr \<Rightarrow> nat \<Rightarrow> addr option" where
  "ancestor h p 0 = Some p"
| "ancestor h p (Suc n) = Option.bind (h p) (\<lambda>b. Option.bind (pprev b) (\<lambda>q. ancestor h q n))"

lemma ancestor_add: "ancestor h p (m + n) = Option.bind (ancestor h p m) (\<lambda>q. ancestor h q n)"
proof (induction m arbitrary: p)
  case (Suc m)
  then show ?case by (cases "h p") (simp_all split: Option.bind_splits)
qed simp

lemma ancestor_SucD:
  "h p = Some b \<Longrightarrow> pprev b = Some q \<Longrightarrow> ancestor h p (Suc n) = ancestor h q n"
  by simp

text \<open>
  A well-formed index: \<open>pprev\<close> leads to an entry one lower, down to height 0, and a set \<open>pskip\<close> is the
  ancestor at the skip height.
\<close>

definition prev_ok :: "index_heap \<Rightarrow> CBlockIndex \<Rightarrow> bool" where
  "prev_ok h b \<longleftrightarrow>
     (case pprev b of
        None \<Rightarrow> nHeight b = 0
      | Some q \<Rightarrow> 0 < nHeight b \<and> (\<exists>c. h q = Some c \<and> nHeight b = nHeight c + 1))"

definition skip_ok :: "index_heap \<Rightarrow> addr \<Rightarrow> CBlockIndex \<Rightarrow> bool" where
  "skip_ok h p b \<longleftrightarrow>
     (\<forall>s. pskip b = Some s \<longrightarrow> ancestor h p (nat (nHeight b - GetSkipHeight (nHeight b))) = Some s)"

definition index_ok :: "index_heap \<Rightarrow> bool" where
  "index_ok h \<longleftrightarrow> (\<forall>p b. h p = Some b \<longrightarrow> 0 \<le> nHeight b \<and> prev_ok h b \<and> skip_ok h p b)"

lemma index_okD:
  assumes "index_ok h" "h p = Some b"
  shows "0 \<le> nHeight b" "prev_ok h b" "skip_ok h p b"
  using assms by (auto simp: index_ok_def)

lemma index_ok_prev:
  assumes "index_ok h" "h p = Some b" "0 < nHeight b"
  obtains q c where "pprev b = Some q" "h q = Some c" "nHeight c = nHeight b - 1"
  using index_okD(2) [OF assms(1,2)] assms(3) by (auto simp: prev_ok_def split: option.splits)

lemma ancestor_exists:
  assumes "index_ok h" "h p = Some b" "int n \<le> nHeight b"
  shows "\<exists>q c. ancestor h p n = Some q \<and> h q = Some c \<and> nHeight c = nHeight b - int n"
  using assms(2,3)
proof (induction n arbitrary: p b)
  case (Suc n)
  obtain q c where q: "pprev b = Some q" "h q = Some c" "nHeight c = nHeight b - 1"
  proof (rule index_ok_prev [OF assms(1) Suc.prems(1)])
    show "0 < nHeight b" using Suc.prems(2) by simp
  qed
  have "int n \<le> nHeight c" using Suc.prems(2) q(3) by simp
  from Suc.IH [OF q(2) this] show ?case using Suc.prems(1) q by (simp add: algebra_simps)
qed simp

lemma ancestor_skip:
  assumes "index_ok h" "h p = Some b" "h q = Some c" "ancestor h p m = Some q" "nHeight c = nHeight b - int m"
    "height \<le> nHeight c"
  shows "ancestor h p (nat (nHeight b - height)) = ancestor h q (nat (nHeight c - height))"
proof -
  have "nat (nHeight b - height) = m + nat (nHeight c - height)" using assms(5,6) by simp
  then show ?thesis by (simp add: ancestor_add assms(4))
qed

definition follow_skip :: "CBlockIndex \<Rightarrow> int \<Rightarrow> int \<Rightarrow> bool" where
  "follow_skip b heightWalk height \<longleftrightarrow>
     pskip b \<noteq> None \<and>
     (GetSkipHeight heightWalk = height \<or>
      (GetSkipHeight heightWalk > height \<and>
       \<not> (GetSkipHeight (heightWalk - 1) < GetSkipHeight heightWalk - 2 \<and> GetSkipHeight (heightWalk - 1) \<ge> height)))"

lemma GetAncestor_loop_unfold:
  "GetAncestor_loop h height p n =
     (if n > height \<and> height \<ge> 0 then
        bindE (deref h p) (\<lambda>b.
          if follow_skip b n height then GetAncestor_loop h height (the (pskip b)) (GetSkipHeight n)
          else case pprev b of None \<Rightarrow> Inl ChainAssert | Some q \<Rightarrow> GetAncestor_loop h height q (n - 1))
      else Inr p)"
  by (subst GetAncestor_loop.simps) (simp only: follow_skip_def Let_def)

lemma GetAncestor_loop_ancestor:
  assumes "index_ok h" "h p = Some b" "0 \<le> height" "height \<le> nHeight b"
  shows "\<exists>q. GetAncestor_loop h height p (nHeight b) = Inr q \<and> ancestor h p (nat (nHeight b - height)) = Some q"
  using assms(2,4)
proof (induction "nat (nHeight b)" arbitrary: p b rule: less_induct)
  case less
  show ?case
  proof (cases "nHeight b > height")
    case True
    then have pos: "0 < nHeight b" using assms(3) by simp
    let ?sk = "GetSkipHeight (nHeight b)"
    note bd = GetSkipHeight_bounds [OF pos]
    show ?thesis
    proof (cases "follow_skip b (nHeight b) height")
      case follow: True
      then obtain s where s: "pskip b = Some s" and le: "height \<le> ?sk" by (auto simp: follow_skip_def)
      have a: "ancestor h p (nat (nHeight b - ?sk)) = Some s"
        using index_okD(3) [OF assms(1) less.prems(1)] s by (simp add: skip_ok_def)
      obtain c where c: "h s = Some c" "nHeight c = ?sk"
        using ancestor_exists [OF assms(1) less.prems(1), of "nat (nHeight b - ?sk)"] a bd by auto
      have "GetAncestor_loop h height p (nHeight b) = GetAncestor_loop h height s (nHeight c)"
        using True follow s assms(3) less.prems(1) c(2)
        by (subst GetAncestor_loop_unfold) (simp add: deref_def)
      moreover have "ancestor h p (nat (nHeight b - height)) = ancestor h s (nat (nHeight c - height))"
        by (rule ancestor_skip [OF assms(1) less.prems(1) c(1) a]) (use bd c(2) le in auto)
      ultimately show ?thesis using less.hyps [OF _ c(1)] c(2) bd le by simp
    next
      case step: False
      obtain q c where q: "pprev b = Some q" "h q = Some c" "nHeight c = nHeight b - 1"
        using index_ok_prev [OF assms(1) less.prems(1) pos] .
      have "GetAncestor_loop h height p (nHeight b) = GetAncestor_loop h height q (nHeight c)"
        using True step q assms(3) less.prems(1)
        by (subst GetAncestor_loop_unfold) (simp add: deref_def)
      moreover have "ancestor h p (nat (nHeight b - height)) = ancestor h q (nat (nHeight c - height))"
        by (rule ancestor_skip [OF assms(1) less.prems(1) q(2), of 1]) (use q True less.prems(1) in auto)
      ultimately show ?thesis using less.hyps [OF _ q(2)] q(3) pos True by simp
    qed
  next
    case False
    then show ?thesis using less.prems by (subst GetAncestor_loop_unfold) simp
  qed
qed

lemma GetAncestor_ancestor:
  assumes "index_ok h" "h p = Some b"
  shows "GetAncestor h p height =
    Inr (if 0 \<le> height \<and> height \<le> nHeight b then ancestor h p (nat (nHeight b - height)) else None)"
  using GetAncestor_loop_ancestor [OF assms, of height] assms(2)
  by (auto simp: GetAncestor_def deref_def)

section \<open>Adding an entry\<close>

text \<open>The links of an entry decide about ancestors; everything else may change.\<close>

definition links :: "CBlockIndex \<Rightarrow> addr option \<times> addr option \<times> int" where
  "links b = (pprev b, pskip b, nHeight b)"

definition extends_links :: "index_heap \<Rightarrow> index_heap \<Rightarrow> bool" where
  "extends_links h h' \<longleftrightarrow> (\<forall>p b. h p = Some b \<longrightarrow> (\<exists>b'. h' p = Some b' \<and> links b' = links b))"

lemma extends_links_fresh: "h this = None \<Longrightarrow> extends_links h (h(this \<mapsto> b))"
  by (auto simp: extends_links_def)

lemma ancestor_frame:
  assumes "index_ok h" "extends_links h h'" "h p = Some b"
  shows "ancestor h' p n = ancestor h p n"
  using assms(3)
proof (induction n arbitrary: p b)
  case (Suc n)
  obtain b' where b': "h' p = Some b'" "pprev b' = pprev b"
    using assms(2) Suc.prems by (auto simp: extends_links_def links_def)
  show ?case
  proof (cases "pprev b")
    case (Some q)
    then obtain c where "h q = Some c"
      using index_okD(2) [OF assms(1) Suc.prems] by (auto simp: prev_ok_def)
    then show ?thesis using Suc.IH [of q c] Some b' Suc.prems by simp
  qed (simp add: b' Suc.prems)
qed simp

lemma prev_ok_frame: "extends_links h h' \<Longrightarrow> prev_ok h b \<Longrightarrow> links b' = links b \<Longrightarrow> prev_ok h' b'"
  by (fastforce simp: prev_ok_def extends_links_def links_def split: option.splits)

lemma skip_ok_frame:
  "index_ok h \<Longrightarrow> extends_links h h' \<Longrightarrow> h p = Some b \<Longrightarrow> skip_ok h p b \<Longrightarrow> links b' = links b \<Longrightarrow>
     skip_ok h' p b'"
  by (simp add: skip_ok_def links_def ancestor_frame)

lemma index_ok_extend:
  assumes "index_ok h" "extends_links h h'"
    and new: "\<And>p b. h p = None \<Longrightarrow> h' p = Some b \<Longrightarrow> 0 \<le> nHeight b \<and> prev_ok h b \<and> skip_ok h' p b"
  shows "index_ok h'"
  unfolding index_ok_def
proof (intro allI impI)
  fix p b'
  assume b': "h' p = Some b'"
  show "0 \<le> nHeight b' \<and> prev_ok h' b' \<and> skip_ok h' p b'"
  proof (cases "h p")
    case None
    then show ?thesis using new [OF None b'] prev_ok_frame [OF assms(2), of b' b'] by simp
  next
    case (Some b)
    then have l: "links b' = links b" using assms(2) b' by (fastforce simp: extends_links_def)
    then show ?thesis
      using index_okD [OF assms(1) Some] prev_ok_frame [OF assms(2)] skip_ok_frame [OF assms(1,2) Some]
      by (simp add: links_def)
  qed
qed

definition link_height :: "index_heap \<Rightarrow> addr option \<Rightarrow> int" where
  "link_height h miPrev = (case Option.bind miPrev h of None \<Rightarrow> 0 | Some b \<Rightarrow> nHeight b + 1)"

lemma index_ok_new:
  assumes "index_ok h" "h this = None" "\<And>p. miPrev = Some p \<Longrightarrow> h p \<noteq> None"
    "pprev new = miPrev" "nHeight new = link_height h miPrev"
    "\<And>s p b. pskip new = Some s \<Longrightarrow> miPrev = Some p \<Longrightarrow> h p = Some b \<Longrightarrow>
       ancestor h p (nat (nHeight b - GetSkipHeight (nHeight b + 1))) = Some s"
    "miPrev = None \<Longrightarrow> pskip new = None"
  shows "index_ok (h(this \<mapsto> new))"
proof (rule index_ok_extend [OF assms(1) extends_links_fresh [of h this, OF assms(2)]])
  fix p b
  assume p: "h p = None" "(h(this \<mapsto> new)) p = Some b"
  then have pb: "p = this" "b = new" by (auto split: if_splits)
  show "0 \<le> nHeight b \<and> prev_ok h b \<and> skip_ok (h(this \<mapsto> new)) p b"
  proof (cases miPrev)
    case None
    then show ?thesis using assms(4,5,7) pb by (simp add: link_height_def prev_ok_def skip_ok_def)
  next
    case (Some q)
    then obtain c where c: "h q = Some c" using assms(3) by auto
    have h: "nHeight new = nHeight c + 1" using assms(5) Some c by (simp add: link_height_def)
    have nn: "0 \<le> nHeight c" using index_okD(1) [OF assms(1) c] .
    have bd: "GetSkipHeight (nHeight c + 1) < nHeight c + 1" using nn GetSkipHeight_bounds(2) [of "nHeight c + 1"] by simp
    then have n: "nat (nHeight c + 1 - GetSkipHeight (nHeight c + 1)) =
        Suc (nat (nHeight c - GetSkipHeight (nHeight c + 1)))" by simp
    have "skip_ok (h(this \<mapsto> new)) this new"
      using assms(6) [OF _ Some c] ancestor_frame [OF assms(1) extends_links_fresh [of h this, OF assms(2)] c]
      by (simp add: skip_ok_def h n assms(4) Some)
    then show ?thesis using pb assms(4) Some c h nn by (simp add: prev_ok_def)
  qed
qed

lemma link_prev_ok:
  assumes "index_ok h" "h this = None" "\<And>p. miPrev = Some p \<Longrightarrow> h p \<noteq> None"
    "pprev new = None" "pskip new = None" "nHeight new = 0"
  shows "\<exists>sk. link_prev (h(this \<mapsto> new)) this miPrev =
      Inr (h(this \<mapsto> new\<lparr>pprev := miPrev, nHeight := link_height h miPrev, pskip := sk\<rparr>)) \<and>
    index_ok (h(this \<mapsto> new\<lparr>pprev := miPrev, nHeight := link_height h miPrev, pskip := sk\<rparr>))"
proof (cases miPrev)
  case None
  have e: "new\<lparr>pprev := None, nHeight := 0, pskip := None\<rparr> = new"
    using assms(4-6) by (cases new) simp
  have "index_ok (h(this \<mapsto> new))"
    by (rule index_ok_new [OF assms(1,2), of None]) (use assms(4-6) in \<open>simp_all add: link_height_def\<close>)
  then show ?thesis using None e by (intro exI [of _ None]) (simp add: link_prev_def link_height_def)
next
  case (Some p)
  then obtain b where b: "h p = Some b" using assms(3) by auto
  then have pt: "p \<noteq> this" using assms(2) by auto
  let ?new = "new\<lparr>pprev := Some p, nHeight := nHeight b + 1\<rparr>"
  let ?sk = "ancestor h p (nat (nHeight b - GetSkipHeight (nHeight b + 1)))"
  have lh: "link_height h miPrev = nHeight b + 1" using Some b by (simp add: link_height_def)
  have nn: "0 \<le> nHeight b" using index_okD(1) [OF assms(1) b] .
  have bd: "0 \<le> GetSkipHeight (nHeight b + 1)" "GetSkipHeight (nHeight b + 1) < nHeight b + 1"
    using nn GetSkipHeight_bounds [of "nHeight b + 1"] by simp_all
  have ok: "index_ok (h(this \<mapsto> ?new))"
    by (rule index_ok_new [OF assms(1-3)]) (use assms(5) Some lh in \<open>auto\<close>)
  have "GetAncestor (h(this \<mapsto> ?new)) p (GetSkipHeight (nHeight b + 1)) = Inr ?sk"
    using GetAncestor_ancestor [OF ok, of p b] b pt bd
      ancestor_frame [OF assms(1) extends_links_fresh [of h this, OF assms(2)] b, of ?new] by simp
  then have "link_prev (h(this \<mapsto> new)) this miPrev =
      Inr (h(this \<mapsto> new\<lparr>pprev := miPrev, nHeight := link_height h miPrev, pskip := ?sk\<rparr>))"
    using Some b pt lh by (simp add: link_prev_def deref_def BuildSkip_def)
  moreover have "index_ok (h(this \<mapsto> new\<lparr>pprev := miPrev, nHeight := link_height h miPrev, pskip := ?sk\<rparr>))"
    by (rule index_ok_new [OF assms(1-3), of miPrev]) (use Some b in auto)
  ultimately show ?thesis by blast
qed

text \<open>The work of a block as a number: \<open>2 ^ 256 / (target + 1)\<close>, and 0 for a target that is not valid.\<close>

definition block_work :: "u32 \<Rightarrow> nat" where
  "block_work nBits =
     (case SetCompact nBits of (t, fNegative, fOverflow) \<Rightarrow>
        if fNegative \<or> fOverflow \<or> limbs_val t = 0 then 0 else 2 ^ 256 div (limbs_val t + 1))"

lemma GetBlockProof_work:
  obtains w where "GetBlockProof nBits = Inr w" "length w = WIDTH" "limbs_val w = block_work nBits"
proof -
  obtain t n ov where "SetCompact nBits = (t, n, ov)" by (cases "SetCompact nBits")
  from GetBlockProof_val [OF this] this show ?thesis using that by (auto simp: block_work_def)
qed

definition accum_entry :: "CBlockIndex option \<Rightarrow> CBlockIndex \<Rightarrow> bool" where
  "accum_entry prev b \<longleftrightarrow>
     length (nChainWork b) = WIDTH \<and>
     limbs_val (nChainWork b) =
       ((case prev of None \<Rightarrow> 0 | Some c \<Rightarrow> limbs_val (nChainWork c)) + block_work (bi_nBits b)) mod 2 ^ 256 \<and>
     nTimeMax b = (case prev of None \<Rightarrow> bi_nTime b | Some c \<Rightarrow> max (nTimeMax c) (bi_nTime b))"

definition accum_ok :: "index_heap \<Rightarrow> bool" where
  "accum_ok h \<longleftrightarrow> (\<forall>p b. h p = Some b \<longrightarrow> accum_entry (Option.bind (pprev b) h) b)"

lemma accumulate_ok:
  assumes "nStatus new = 0" "\<And>c. prev = Some c \<Longrightarrow> length (nChainWork c) = WIDTH"
  shows "\<exists>b. accumulate block hash prev new = Inr b \<and> accum_entry prev b \<and> links b = links new \<and>
    phashBlock b = phashBlock new"
proof -
  obtain w where w: "GetBlockProof (bi_nBits new) = Inr w" "length w = WIDTH"
      "limbs_val w = block_work (bi_nBits new)"
    by (rule GetBlockProof_work)
  show ?thesis
    using assms w
    by (cases prev)
      (simp_all add: accumulate_def lift_uint_def lift_chain_def RaiseValidity_def accum_entry_def links_def
        base_add_val base_of_u64_val)
qed

text \<open>The invariant of the globals: links, accumulated fields, one root, the hash map and the best header.\<close>

definition one_root :: "index_heap \<Rightarrow> bool" where
  "one_root h \<longleftrightarrow>
     (\<forall>p q b c. h p = Some b \<longrightarrow> h q = Some c \<longrightarrow> pprev b = None \<longrightarrow> pprev c = None \<longrightarrow> p = q)"

definition best_ok :: "index_heap \<Rightarrow> addr option \<Rightarrow> bool" where
  "best_ok h best \<longleftrightarrow>
     (case best of
        None \<Rightarrow> h = Map.empty
      | Some q \<Rightarrow> \<exists>c. h q = Some c \<and>
          (\<forall>p b. h p = Some b \<longrightarrow> limbs_val (nChainWork b) \<le> limbs_val (nChainWork c)))"

definition map_ok :: "(uint256 \<Rightarrow> addr option) \<Rightarrow> index_heap \<Rightarrow> bool" where
  "map_ok m h \<longleftrightarrow>
     (\<forall>hash p. m hash = Some p \<longrightarrow> (\<exists>b. h p = Some b \<and> phashBlock b = Some hash)) \<and>
     (\<forall>p b. h p = Some b \<longrightarrow> (\<exists>hash. phashBlock b = Some hash \<and> m hash = Some p))"

definition index_inv :: "index_state \<Rightarrow> bool" where
  "index_inv s \<longleftrightarrow>
     index_ok (entries s) \<and> accum_ok (entries s) \<and> one_root (entries s) \<and>
     map_ok (mapBlockIndex s) (entries s) \<and> best_ok (entries s) (pindexBestHeader s)"

lemma accum_ok_new:
  assumes "accum_ok h" "index_ok h" "h this = None" "\<And>p. pprev b = Some p \<Longrightarrow> p \<noteq> this"
    "accum_entry (Option.bind (pprev b) h) b"
  shows "accum_ok (h(this \<mapsto> b))"
  unfolding accum_ok_def
proof (intro allI impI)
  fix p c
  assume c: "(h(this \<mapsto> b)) p = Some c"
  have "pprev c \<noteq> Some this"
  proof (cases "p = this")
    case False
    then show ?thesis using index_okD(2) [OF assms(2), of p c] c assms(3) by (auto simp: prev_ok_def)
  qed (use c assms(4) in auto)
  then have "Option.bind (pprev c) (h(this \<mapsto> b)) = Option.bind (pprev c) h" by (cases "pprev c") auto
  then show "accum_entry (Option.bind (pprev c) (h(this \<mapsto> b))) c"
    using c assms(1,5) by (auto simp: accum_ok_def split: if_splits)
qed

lemma one_root_new:
  "one_root h \<Longrightarrow> pprev b \<noteq> None \<or> h = Map.empty \<Longrightarrow> one_root (h(this \<mapsto> b))"
  by (auto simp: one_root_def)

lemma map_ok_new:
  assumes "map_ok m h" "h this = None" "m hash = None" "phashBlock b = Some hash"
  shows "map_ok (m(hash \<mapsto> this)) (h(this \<mapsto> b))"
  using assms unfolding map_ok_def by (auto split: if_splits) (metis option.distinct(1) option.inject)+

lemma best_ok_new:
  assumes "best_ok h best" "h this = None" "accum_ok (h(this \<mapsto> b))"
  shows "\<exists>better.
    better_header (h(this \<mapsto> b)) best b = Inr better \<and>
    best_ok (h(this \<mapsto> b)) (if better then Some this else best)"
proof (cases best)
  case None
  then show ?thesis using assms(1) by (intro exI [of _ True]) (simp add: best_ok_def better_header_def)
next
  case (Some q)
  then obtain c where c: "h q = Some c"
      "\<And>p d. h p = Some d \<Longrightarrow> limbs_val (nChainWork d) \<le> limbs_val (nChainWork c)"
    using assms(1) by (auto simp: best_ok_def)
  have qt: "q \<noteq> this" using c(1) assms(2) by auto
  have l: "length (nChainWork b) = length (nChainWork c)"
    using assms(3) c(1) qt unfolding accum_ok_def accum_entry_def by (metis fun_upd_other fun_upd_same)
  show ?thesis
    using Some c qt CompareTo_val [of "nChainWork c" "nChainWork b"] l
    by (force simp: better_header_def deref_def best_ok_def)
qed

lemma AddToBlockIndex_new:
  assumes "index_inv s" "entries s this = None" "mapBlockIndex s (block_GetHash block) = None"
    "mapBlockIndex s (hashPrevBlock block) \<noteq> None \<or>
     entries s = Map.empty \<and> block_GetHash block \<noteq> hashPrevBlock block"
  shows "\<exists>s'. AddToBlockIndex s this block = Inr (s', this) \<and> index_inv s' \<and>
    mapBlockIndex s' = (mapBlockIndex s)(block_GetHash block \<mapsto> this) \<and>
    extends_links (entries s) (entries s')"
proof -
  let ?h = "entries s"
  let ?hash = "block_GetHash block"
  let ?new = "(CBlockIndex_of block)\<lparr>nSequenceId := 0, phashBlock := Some ?hash\<rparr>"
  let ?prev = "((mapBlockIndex s)(?hash \<mapsto> this)) (hashPrevBlock block)"
  have inv: "index_ok ?h" "accum_ok ?h" "one_root ?h" "map_ok (mapBlockIndex s) ?h"
      "best_ok ?h (pindexBestHeader s)"
    using assms(1) by (simp_all add: index_inv_def)
  have prev: "?prev = mapBlockIndex s (hashPrevBlock block)" using assms(3,4) by auto
  have dom: "?h p \<noteq> None" if "?prev = Some p" for p
    using that inv(4) unfolding prev map_ok_def by force
  obtain sk where lk: "link_prev (?h(this \<mapsto> ?new)) this ?prev =
        Inr (?h(this \<mapsto> ?new\<lparr>pprev := ?prev, nHeight := link_height ?h ?prev, pskip := sk\<rparr>))"
      "index_ok (?h(this \<mapsto> ?new\<lparr>pprev := ?prev, nHeight := link_height ?h ?prev, pskip := sk\<rparr>))"
    using link_prev_ok [where new = ?new and miPrev = ?prev, OF inv(1) assms(2) dom] by (auto simp: CBlockIndex_of_def)
  let ?b0 = "?new\<lparr>pprev := ?prev, nHeight := link_height ?h ?prev, pskip := sk\<rparr>"
  have bnd: "Option.bind ?prev (?h(this \<mapsto> ?b0)) = Option.bind ?prev ?h"
    using dom assms(2) by (cases ?prev) auto
  obtain b where b: "accumulate block ?hash (Option.bind ?prev ?h) ?b0 = Inr b"
      "accum_entry (Option.bind ?prev ?h) b" "links b = links ?b0" "phashBlock b = Some ?hash"
    using accumulate_ok [of ?b0 "Option.bind ?prev ?h" block ?hash] inv(2)
    by (force simp: CBlockIndex_of_def accum_ok_def accum_entry_def bind_eq_Some_conv)
  have pb: "pprev b = ?prev" using b(3) by (simp add: links_def)
  have ok: "index_ok (?h(this \<mapsto> b))"
    by (rule index_ok_extend [OF lk(2)])
      (use b(3) in \<open>auto simp: extends_links_def split: if_splits\<close>)
  have acc: "accum_ok (?h(this \<mapsto> b))"
    by (rule accum_ok_new [OF inv(2,1) assms(2)]) (use b(2) pb dom assms(2) in auto)
  obtain better where bt: "better_header (?h(this \<mapsto> b)) (pindexBestHeader s) b = Inr better"
      "best_ok (?h(this \<mapsto> b)) (if better then Some this else pindexBestHeader s)"
    using best_ok_new [OF inv(5) assms(2) acc] by blast
  let ?s' = "s\<lparr>entries := ?h(this \<mapsto> b), mapBlockIndex := (mapBlockIndex s)(?hash \<mapsto> this),
      setStakeSeen := (if bi_IsProofOfStake ?new
        then List.insert (bi_prevoutStake ?new, bi_nTime ?new) (setStakeSeen s) else setStakeSeen s),
      pindexBestHeader := if better then Some this else pindexBestHeader s,
      setDirtyBlockIndex := List.insert this (setDirtyBlockIndex s)\<rparr>"
  have "AddToBlockIndex s this block = Inr (?s', this)"
    using lk(1) b(1) bt(1) bnd
    by (simp add: AddToBlockIndex_def assms(3) Let_def lift_chain_def [of "Inr _"] deref_def [of _ this])
  moreover have "index_inv ?s'"
    using ok acc bt(2) map_ok_new [OF inv(4) assms(2,3) b(4)] one_root_new [OF inv(3), of b this] assms(4) pb prev
    by (auto simp: index_inv_def)
  moreover have "extends_links ?h (?h(this \<mapsto> b))" by (rule extends_links_fresh [of ?h this, OF assms(2)])
  ultimately show ?thesis by auto
qed

section \<open>The states of the block index\<close>

text \<open>
  The entries are made by \<open>AddToBlockIndex\<close> only.  \<open>LoadGenesisBlock\<close> calls it for the genesis block, whose
  hash is not its own previous hash, and \<open>AcceptBlockHeader\<close> for a header whose previous hash is in the index
  (\<open>prev-blk-not-found\<close> otherwise).  Every other function may change an entry only outside of the fields of
  \<open>index_view\<close>, e.g.\ its status, its file position or its transaction counts.
\<close>

definition index_view :: "CBlockIndex \<Rightarrow> (addr option \<times> addr option \<times> int) \<times> uint256 option \<times> base_uint \<times> u32 \<times> u32 \<times> u32" where
  "index_view b = (links b, phashBlock b, nChainWork b, bi_nBits b, bi_nTime b, nTimeMax b)"

definition same_view :: "index_heap \<Rightarrow> index_heap \<Rightarrow> bool" where
  "same_view h h' \<longleftrightarrow> (\<forall>p. map_option index_view (h' p) = map_option index_view (h p))"

inductive index_reachable :: "CBlockHeader \<Rightarrow> index_state \<Rightarrow> bool" for genesis where
  reach_genesis: "block_GetHash genesis \<noteq> hashPrevBlock genesis \<Longrightarrow>
    AddToBlockIndex index_empty this genesis = Inr (s, p) \<Longrightarrow> index_reachable genesis s"
| reach_accept: "index_reachable genesis s \<Longrightarrow> entries s this = None \<Longrightarrow>
    mapBlockIndex s (hashPrevBlock block) \<noteq> None \<Longrightarrow>
    AddToBlockIndex s this block = Inr (s', p) \<Longrightarrow> index_reachable genesis s'"
| reach_other: "index_reachable genesis s \<Longrightarrow>
    same_view (entries s) h' \<Longrightarrow>
    index_reachable genesis (s\<lparr>entries := h'\<rparr>)"

lemma AddToBlockIndex_known:
  "mapBlockIndex s (block_GetHash block) = Some p \<Longrightarrow> AddToBlockIndex s this block = Inr (s, p)"
  by (simp add: AddToBlockIndex_def)

lemma index_inv_empty: "index_inv index_empty"
  by (simp add: index_inv_def index_empty_def index_ok_def accum_ok_def one_root_def map_ok_def best_ok_def)

lemma AddToBlockIndex_inv:
  assumes "index_inv s" "entries s this = None"
    "mapBlockIndex s (hashPrevBlock block) \<noteq> None \<or>
     entries s = Map.empty \<and> block_GetHash block \<noteq> hashPrevBlock block"
  shows "\<exists>s' p. AddToBlockIndex s this block = Inr (s', p) \<and> index_inv s' \<and>
    mapBlockIndex s' (block_GetHash block) = Some p"
proof (cases "mapBlockIndex s (block_GetHash block)")
  case None
  then show ?thesis using AddToBlockIndex_new [OF assms(1,2) None assms(3)] by fastforce
next
  case (Some p)
  then show ?thesis using AddToBlockIndex_known [OF Some] assms(1) by blast
qed

lemma view_SomeD:
  assumes "same_view h h'" "h' p = Some b'"
  obtains b where "h p = Some b" "index_view b' = index_view b"
proof -
  have "map_option index_view (h' p) = map_option index_view (h p)" using assms(1) by (simp add: same_view_def)
  then show ?thesis using assms(2) that by (cases "h p") auto
qed

lemma same_view_sym: "same_view h h' \<Longrightarrow> same_view h' h"
  by (simp add: same_view_def)

lemma same_view_bind:
  "same_view h h' \<Longrightarrow> map_option index_view (Option.bind p h') = map_option index_view (Option.bind p h)"
  by (cases p) (simp_all add: same_view_def)

lemma index_viewD:
  assumes "index_view b' = index_view b"
  shows "links b' = links b" "pprev b' = pprev b" "phashBlock b' = phashBlock b" "nChainWork b' = nChainWork b"
  using assms by (simp_all add: index_view_def links_def)

lemma map_ok_other:
  assumes "map_ok m h" "same_view h h'"
  shows "map_ok m h'"
  unfolding map_ok_def
proof (intro conjI allI impI)
  fix hash p
  assume "m hash = Some p"
  then obtain b where b: "h p = Some b" "phashBlock b = Some hash" using assms(1) unfolding map_ok_def by blast
  obtain b' where b': "h' p = Some b'" "index_view b = index_view b'"
    by (rule view_SomeD [OF same_view_sym [OF assms(2)] b(1)])
  then show "\<exists>b. h' p = Some b \<and> phashBlock b = Some hash" using b(2) index_viewD(3) [OF b'(2)] by simp
next
  fix p b'
  assume "h' p = Some b'"
  then obtain b where b: "h p = Some b" "index_view b' = index_view b" by (rule view_SomeD [OF assms(2)])
  then show "\<exists>hash. phashBlock b' = Some hash \<and> m hash = Some p"
    using assms(1) index_viewD(3) [OF b(2)] by (simp add: map_ok_def)
qed

lemma one_root_other:
  assumes "one_root h" "same_view h h'"
  shows "one_root h'"
  unfolding one_root_def
proof (intro allI impI)
  fix p q b' c'
  assume a: "h' p = Some b'" "h' q = Some c'" "pprev b' = None" "pprev c' = None"
  obtain b where b: "h p = Some b" "index_view b' = index_view b" by (rule view_SomeD [OF assms(2) a(1)])
  obtain c where c: "h q = Some c" "index_view c' = index_view c" by (rule view_SomeD [OF assms(2) a(2)])
  show "p = q"
    using assms(1) b(1) c(1) a(3,4) index_viewD(2) [OF b(2)] index_viewD(2) [OF c(2)] by (simp add: one_root_def)
qed

lemma best_ok_other:
  assumes "best_ok h best" "same_view h h'"
  shows "best_ok h' best"
proof (cases best)
  case None
  then have "h = Map.empty" using assms(1) by (simp add: best_ok_def)
  then have "h' = Map.empty" using assms(2) by (auto simp: same_view_def)
  then show ?thesis by (simp add: None best_ok_def)
next
  case (Some q)
  then obtain c where c: "h q = Some c"
      "\<And>p b. h p = Some b \<Longrightarrow> limbs_val (nChainWork b) \<le> limbs_val (nChainWork c)"
    using assms(1) by (auto simp: best_ok_def)
  obtain c' where c': "h' q = Some c'" "index_view c = index_view c'"
    by (rule view_SomeD [OF same_view_sym [OF assms(2)] c(1)])
  have "limbs_val (nChainWork b') \<le> limbs_val (nChainWork c')" if b': "h' p = Some b'" for p b'
  proof -
    obtain b where b: "h p = Some b" "index_view b' = index_view b" by (rule view_SomeD [OF assms(2) b'])
    show ?thesis using c(2) [OF b(1)] index_viewD(4) [OF b(2)] index_viewD(4) [OF c'(2)] by simp
  qed
  then show ?thesis using Some c'(1) by (simp add: best_ok_def)
qed

lemma extends_links_other:
  assumes "same_view h h'"
  shows "extends_links h h'"
  unfolding extends_links_def
proof (intro allI impI)
  fix p b
  assume "h p = Some b"
  then obtain b' where b': "h' p = Some b'" "index_view b = index_view b'"
    by (rule view_SomeD [OF same_view_sym [OF assms]])
  then show "\<exists>b'. h' p = Some b' \<and> links b' = links b" using index_viewD(1) [OF b'(2)] by simp
qed

lemma index_inv_other:
  assumes inv: "index_inv s" and v: "same_view (entries s) h'"
  shows "index_inv (s\<lparr>entries := h'\<rparr>)"
proof -
  have ext: "extends_links (entries s) h'"
    by (rule extends_links_other [OF v])
  have "index_ok h'"
  proof (rule index_ok_extend [OF _ ext])
    show "index_ok (entries s)" using inv by (simp add: index_inv_def)
    show "0 \<le> nHeight b \<and> prev_ok (entries s) b \<and> skip_ok h' p b" if "entries s p = None" "h' p = Some b" for p b
      using view_SomeD [OF v that(2)] that(1) by auto
  qed
  moreover have "accum_ok h'"
    unfolding accum_ok_def
  proof (intro allI impI)
    fix p b'
    assume b': "h' p = Some b'"
    obtain b where b: "entries s p = Some b" "index_view b' = index_view b" by (rule view_SomeD [OF v b'])
    have "map_option index_view (Option.bind (pprev b') h') = map_option index_view (Option.bind (pprev b) (entries s))"
      using b(2) same_view_bind [OF v, of "pprev b"] by (simp add: index_view_def links_def)
    moreover have "accum_entry (Option.bind (pprev b) (entries s)) b"
      using inv b(1) by (simp add: index_inv_def accum_ok_def)
    ultimately show "accum_entry (Option.bind (pprev b') h') b'"
      using b(2)
      by (cases "Option.bind (pprev b') h'"; cases "Option.bind (pprev b) (entries s)")
        (simp_all add: accum_entry_def index_view_def)
  qed
  ultimately show ?thesis
    using inv one_root_other [OF _ v] map_ok_other [OF _ v] best_ok_other [OF _ v] by (simp add: index_inv_def)
qed

lemma index_reachable_inv: "index_reachable genesis s \<Longrightarrow> index_inv s"
proof (induction rule: index_reachable.induct)
  case (reach_genesis this s p)
  then show ?case using AddToBlockIndex_inv [OF index_inv_empty, of this genesis] by (auto simp: index_empty_def)
next
  case (reach_accept s this block s' p)
  then show ?case using AddToBlockIndex_inv [of s this block] by auto
next
  case (reach_other s h')
  then show ?case by (simp add: index_inv_other)
qed

section \<open>The active chain and common ancestors\<close>

definition branch :: "index_heap \<Rightarrow> addr \<Rightarrow> nat \<Rightarrow> CChain" where
  "branch h p n = map (\<lambda>i. ancestor h p (n - i)) [0..<Suc n]"

definition branch_closed :: "index_heap \<Rightarrow> CChain \<Rightarrow> bool" where
  "branch_closed h v \<longleftrightarrow>
     (\<forall>j < length v. \<forall>q. v ! j = Some q \<longrightarrow> (\<forall>i \<le> j. v ! i = ancestor h q (j - i)))"

lemma length_branch [simp]: "length (branch h p n) = Suc n"
  by (simp add: branch_def)

lemma nth_branch: "i \<le> n \<Longrightarrow> branch h p n ! i = ancestor h p (n - i)"
  by (simp add: branch_def del: upt_Suc)

lemma branch_Suc:
  assumes "h p = Some b" "pprev b = Some q"
  shows "branch h p (Suc n) = branch h q n @ [Some p]"
  by (rule nth_equalityI) (auto simp: nth_branch nth_append Suc_diff_le assms less_Suc_eq)

lemma branch_is_closed: "branch_closed h (branch h p n)"
  unfolding branch_closed_def
proof (intro allI impI)
  fix j q i
  assume a: "j < length (branch h p n)" "branch h p n ! j = Some q" "i \<le> j"
  then have "j \<le> n" "i \<le> n" by simp_all
  then have e: "n - i = (n - j) + (j - i)" using a(3) by simp
  have "ancestor h p (n - j) = Some q" using a(2) nth_branch [OF \<open>j \<le> n\<close>] by simp
  then show "branch h p n ! i = ancestor h q (j - i)"
    unfolding nth_branch [OF \<open>i \<le> n\<close>] e ancestor_add by simp
qed

lemma resize_is_closed:
  assumes "branch_closed h v"
  shows "branch_closed h (chain_resize n v)"
  using assms by (auto simp: branch_closed_def chain_resize_def nth_append)

lemma SetTip_loop_step:
  "h q = Some c \<Longrightarrow> nHeight c = int k \<Longrightarrow> k < length w \<Longrightarrow>
     SetTip_loop h w (Some q) =
       (if w ! k \<noteq> Some q then SetTip_loop h (w[k := Some q]) (pprev c) else Some (Inr w))"
  by (subst SetTip_loop.simps) simp

lemma SetTip_loop_branch:
  assumes "index_ok h" "h q = Some c" "nHeight c = int k" "k < length w" "branch_closed h (take (Suc k) w)"
  shows "SetTip_loop h w (Some q) = Some (Inr (branch h q k @ drop (Suc k) w))"
  using assms(2-)
proof (induction k arbitrary: q c w)
  case 0
  have p: "pprev c = None" using index_okD(2) [OF assms(1) 0(1)] 0(2) by (auto simp: prev_ok_def split: option.splits)
  obtain x w' where w: "w = x # w'" using 0(3) by (cases w) auto
  show ?case
    using SetTip_loop_step [of h q c 0 w] 0 p w by (auto simp: branch_def SetTip_loop.simps [of _ _ None])
next
  case (Suc k)
  obtain q' c' where q': "pprev c = Some q'" "h q' = Some c'" "nHeight c' = nHeight c - 1"
    using index_ok_prev [OF assms(1) Suc.prems(1)] Suc.prems(2) by auto
  show ?case
  proof (cases "w ! Suc k = Some q")
    case True
    have "branch h q (Suc k) = take (Suc (Suc k)) w"
    proof (rule nth_equalityI)
      show "branch h q (Suc k) ! i = take (Suc (Suc k)) w ! i" if "i < length (branch h q (Suc k))" for i
        using that True Suc.prems(3,4) unfolding branch_closed_def by (auto simp: nth_branch)
    qed (use Suc.prems(3) in simp)
    then show ?thesis using SetTip_loop_step [of h q c "Suc k" w, OF Suc.prems(1-3)] True by simp
  next
    case False
    let ?w = "w[Suc k := Some q]"
    have "SetTip_loop h w (Some q) = SetTip_loop h ?w (Some q')"
      using SetTip_loop_step [of h q c "Suc k" w, OF Suc.prems(1-3)] q'(1) False by simp
    also have "\<dots> = Some (Inr (branch h q' k @ drop (Suc k) ?w))"
    proof (rule Suc.IH [OF q'(2)])
      have "take (Suc k) ?w = take (Suc k) w" by simp
      moreover have "branch_closed h (take (Suc k) w)"
        using Suc.prems(3,4) unfolding branch_closed_def by auto
      ultimately show "branch_closed h (take (Suc k) ?w)" by simp
    qed (use q'(3) Suc.prems in simp_all)
    also have "drop (Suc k) ?w = Some q # drop (Suc (Suc k)) w"
      using Suc.prems(3) by (simp add: Cons_nth_drop_Suc [symmetric, of "Suc k"])
    finally show ?thesis using branch_Suc [of h q c q', OF Suc.prems(1) q'(1)] by simp
  qed
qed

lemma SetTip_branch:
  assumes "index_ok h" "h p = Some b" "branch_closed h v"
  shows "SetTip h v (Some p) = Some (Inr (branch h p (nat (nHeight b))))"
proof -
  let ?k = "nat (nHeight b)"
  let ?w = "chain_resize (Suc ?k) v"
  have k: "nHeight b = int ?k" "nat (nHeight b + 1) = Suc ?k" using index_okD(1) [OF assms(1,2)] by simp_all
  have l: "length ?w = Suc ?k" by (simp add: chain_resize_def)
  have "SetTip_loop h ?w (Some p) = Some (Inr (branch h p ?k @ drop (Suc ?k) ?w))"
    by (rule SetTip_loop_branch [OF assms(1,2) k(1)]) (use l resize_is_closed [OF assms(3)] in simp_all)
  then show ?thesis using assms(2) l k(2) by (simp add: SetTip_def)
qed

text \<open>The last common ancestor of two entries is the greatest lower bound in the order of the tree.\<close>

definition is_ancestor :: "index_heap \<Rightarrow> addr \<Rightarrow> addr \<Rightarrow> bool" where
  "is_ancestor h q p \<longleftrightarrow> (\<exists>n. ancestor h p n = Some q)"

definition last_common :: "index_heap \<Rightarrow> addr \<Rightarrow> addr \<Rightarrow> addr \<Rightarrow> bool" where
  "last_common h r p q \<longleftrightarrow>
     is_ancestor h r p \<and> is_ancestor h r q \<and>
     (\<forall>x. is_ancestor h x p \<longrightarrow> is_ancestor h x q \<longrightarrow> is_ancestor h x r)"

lemma is_ancestor_refl [simp]: "is_ancestor h p p"
  unfolding is_ancestor_def by (rule exI [of _ 0]) simp

lemma is_ancestor_trans: "is_ancestor h x q \<Longrightarrow> is_ancestor h q p \<Longrightarrow> is_ancestor h x p"
  unfolding is_ancestor_def by (metis ancestor_add bind.bind_lunit)

lemma is_ancestor_prev:
  "h p = Some b \<Longrightarrow> pprev b = Some q \<Longrightarrow> is_ancestor h x p \<longleftrightarrow> x = p \<or> is_ancestor h x q"
  unfolding is_ancestor_def by (metis ancestor.simps(1) ancestor_SucD not0_implies_Suc option.inject)

lemma last_common_sym: "last_common h r p q \<Longrightarrow> last_common h r q p"
  by (auto simp: last_common_def)

lemma is_ancestor_height:
  assumes "index_ok h" "h p = Some b" "is_ancestor h q p"
  obtains c n where "h q = Some c" "nHeight c = nHeight b - int n" "0 \<le> nHeight c" "ancestor h p n = Some q"
proof -
  obtain n where n: "ancestor h p n = Some q" using assms(3) by (auto simp: is_ancestor_def)
  have "\<exists>c. h q = Some c \<and> nHeight c = nHeight b - int n"
    using assms(2) n
  proof (induction n arbitrary: p b)
    case (Suc n)
    then obtain p' where p': "pprev b = Some p'" "ancestor h p' n = Some q" by (auto simp: bind_eq_Some_conv)
    then obtain b' where b': "h p' = Some b'" "nHeight b = nHeight b' + 1"
      using index_okD(2) [OF assms(1) Suc.prems(1)] by (auto simp: prev_ok_def)
    show ?case using Suc.IH [OF b'(1) p'(2)] b'(2) by auto
  qed simp
  then show ?thesis using that n index_okD(1) [OF assms(1)] by blast
qed

lemma is_ancestor_between:
  assumes "index_ok h" "h p = Some b" "is_ancestor h x p" "is_ancestor h q p"
    "h x = Some d" "h q = Some c" "nHeight d \<le> nHeight c"
  shows "is_ancestor h x q"
proof -
  obtain m where m: "nHeight d = nHeight b - int m" "ancestor h p m = Some x"
    by (rule is_ancestor_height [OF assms(1,2,3)]) (use assms(5) in simp)
  obtain n where n: "nHeight c = nHeight b - int n" "ancestor h p n = Some q"
    by (rule is_ancestor_height [OF assms(1,2,4)]) (use assms(6) in simp)
  have "m = n + (m - n)" using m(1) n(1) assms(7) by simp
  then have "ancestor h q (m - n) = Some x" using m(2) n(2) ancestor_add [of h p n "m - n"] by simp
  then show ?thesis by (auto simp: is_ancestor_def)
qed

lemma is_ancestor_same_height:
  assumes "index_ok h" "h p = Some b" "h q = Some c" "is_ancestor h q p" "nHeight b \<le> nHeight c"
  shows "q = p"
proof -
  obtain n where "nHeight c = nHeight b - int n" "ancestor h p n = Some q"
    by (rule is_ancestor_height [OF assms(1,2,4)]) (use assms(3) in simp)
  then show ?thesis using assms(5) by simp
qed

text \<open>Cutting a branch at the height of the other one does not change the common ancestors.\<close>

lemma last_common_cut:
  assumes "index_ok h" "h p = Some b" "h q = Some c" "h p' = Some b'" "is_ancestor h p' p" "nHeight b' = nHeight c"
    "last_common h r p' q"
  shows "last_common h r p q"
  unfolding last_common_def
proof (intro conjI allI impI)
  show "is_ancestor h r p" using assms(5,7) is_ancestor_trans by (auto simp: last_common_def)
  show "is_ancestor h r q" using assms(7) by (simp add: last_common_def)
  fix x
  assume x: "is_ancestor h x p" "is_ancestor h x q"
  obtain d where d: "h x = Some d" "nHeight d \<le> nHeight c"
    by (rule is_ancestor_height [OF assms(1,3) x(2)]) auto
  have "is_ancestor h x p'" using is_ancestor_between [OF assms(1,2) x(1) assms(5) d(1) assms(4)] d(2) assms(6) by simp
  then show "is_ancestor h x r" using x(2) assms(7) by (simp add: last_common_def)
qed

lemma GetAncestor_cut:
  assumes "index_ok h" "h p = Some b" "0 \<le> height" "height \<le> nHeight b"
  obtains q c where "GetAncestor h p height = Inr (Some q)" "h q = Some c" "nHeight c = height" "is_ancestor h q p"
proof -
  obtain q c where "ancestor h p (nat (nHeight b - height)) = Some q" "h q = Some c"
      "nHeight c = nHeight b - int (nat (nHeight b - height))"
    using ancestor_exists [OF assms(1,2), of "nat (nHeight b - height)"] assms(3,4) by auto
  then show ?thesis using that [of q c] GetAncestor_ancestor [OF assms(1,2), of height] assms(3,4)
    by (auto simp: is_ancestor_def)
qed

lemma last_common_loop:
  assumes "index_ok h" "one_root h" "h p = Some b" "h q = Some c" "nHeight b = int k" "nHeight c = int k"
  shows "\<exists>r. LastCommonAncestor_loop h (Some p) (Some q) = Some (Inr (Some r, Some r)) \<and> last_common h r p q"
  using assms(3-)
proof (induction k arbitrary: p b q c)
  case 0
  have "pprev b = None" "pprev c = None"
    using index_okD(2) [OF assms(1) 0(1)] index_okD(2) [OF assms(1) 0(2)] 0(3,4)
    by (auto simp: prev_ok_def split: option.splits)
  then have "p = q" using assms(2) 0(1,2) unfolding one_root_def by blast
  then show ?case by (subst LastCommonAncestor_loop.simps) (auto simp: last_common_def)
next
  case (Suc k)
  show ?case
  proof (cases "p = q")
    case True
    then show ?thesis by (subst LastCommonAncestor_loop.simps) (auto simp: last_common_def)
  next
    case False
    obtain p' b' where p': "pprev b = Some p'" "h p' = Some b'" "nHeight b' = nHeight b - 1"
      by (rule index_ok_prev [OF assms(1) Suc.prems(1)]) (use Suc.prems(3) in simp_all)
    obtain q' c' where q': "pprev c = Some q'" "h q' = Some c'" "nHeight c' = nHeight c - 1"
      by (rule index_ok_prev [OF assms(1) Suc.prems(2)]) (use Suc.prems(4) in simp_all)
    obtain r where r: "LastCommonAncestor_loop h (Some p') (Some q') = Some (Inr (Some r, Some r))"
        "last_common h r p' q'"
      using Suc.IH [OF p'(2) q'(2)] p'(3) q'(3) Suc.prems(3,4) by auto
    have "nHeight b = nHeight c" using Suc.prems(3,4) by simp
    then have ne: "\<not> is_ancestor h p q" "\<not> is_ancestor h q p"
      using is_ancestor_same_height [OF assms(1) Suc.prems(2,1)] is_ancestor_same_height [OF assms(1) Suc.prems(1,2)]
        False by auto
    have "last_common h r p q"
      using r(2) ne unfolding last_common_def is_ancestor_prev [of h p b p', OF Suc.prems(1) p'(1)]
        is_ancestor_prev [of h q c q', OF Suc.prems(2) q'(1)] by auto
    moreover have "LastCommonAncestor_loop h (Some p) (Some q) = Some (Inr (Some r, Some r))"
      using False Suc.prems(1,2) p'(1) q'(1) r(1) by (subst LastCommonAncestor_loop.simps) simp
    ultimately show ?thesis by blast
  qed
qed

lemma LastCommonAncestor_last_common:
  assumes "index_ok h" "one_root h" "h p = Some b" "h q = Some c"
  shows "\<exists>r. LastCommonAncestor h p q = Some (Inr (Some r)) \<and> last_common h r p q"
proof -
  have nn: "0 \<le> nHeight b" "0 \<le> nHeight c" using index_okD(1) [OF assms(1)] assms(3,4) by blast+
  consider "nHeight b > nHeight c" | "nHeight c > nHeight b" | "nHeight b = nHeight c" by linarith
  then show ?thesis
  proof cases
    case 1
    obtain p' b' where p': "GetAncestor h p (nHeight c) = Inr (Some p')" "h p' = Some b'" "nHeight b' = nHeight c"
        "is_ancestor h p' p"
      by (rule GetAncestor_cut [OF assms(1,3) nn(2)]) (use 1 in simp_all)
    obtain r where r: "LastCommonAncestor_loop h (Some p') (Some q) = Some (Inr (Some r, Some r))"
        "last_common h r p' q"
      using last_common_loop [OF assms(1,2) p'(2) assms(4), of "nat (nHeight c)"] p'(3) nn(2)
      unfolding int_nat_eq by metis
    have "LastCommonAncestor h p q = Some (Inr (Some r))"
      using 1 p'(1) assms(3,4) r(1) by (simp add: LastCommonAncestor_def deref_def)
    then show ?thesis using last_common_cut [OF assms(1,3,4) p'(2,4,3) r(2)] by blast
  next
    case 2
    obtain q' c' where q': "GetAncestor h q (nHeight b) = Inr (Some q')" "h q' = Some c'" "nHeight c' = nHeight b"
        "is_ancestor h q' q"
      by (rule GetAncestor_cut [OF assms(1,4) nn(1)]) (use 2 in simp_all)
    obtain r where r: "LastCommonAncestor_loop h (Some p) (Some q') = Some (Inr (Some r, Some r))"
        "last_common h r p q'"
      using last_common_loop [OF assms(1,2,3) q'(2), of "nat (nHeight b)"] q'(3) nn(1)
      unfolding int_nat_eq by metis
    have "LastCommonAncestor h p q = Some (Inr (Some r))"
      using 2 q'(1) assms(3,4) r(1) by (simp add: LastCommonAncestor_def deref_def)
    then show ?thesis
      using last_common_sym [OF last_common_cut [OF assms(1,4,3) q'(2,4,3) last_common_sym [OF r(2)]]] by blast
  next
    case 3
    obtain r where r: "LastCommonAncestor_loop h (Some p) (Some q) = Some (Inr (Some r, Some r))"
        "last_common h r p q"
      using last_common_loop [OF assms, of "nat (nHeight b)"] 3 nn(1) unfolding int_nat_eq by metis
    then show ?thesis using 3 assms(3,4) by (simp add: LastCommonAncestor_def deref_def)
  qed
qed

lemma chain_at_branch:
  assumes "index_ok h" "h t = Some d" "h p = Some b" "nHeight b \<le> nHeight d"
  shows "chain_at (branch h t (nat (nHeight d))) (nHeight b) = Some p \<longleftrightarrow> is_ancestor h p t"
proof -
  have nn: "0 \<le> nHeight b" using index_okD(1) [OF assms(1,3)] .
  have "chain_at (branch h t (nat (nHeight d))) (nHeight b) = ancestor h t (nat (nHeight d) - nat (nHeight b))"
    using nn assms(4) by (simp add: chain_at_def nth_branch nat_le_eq_zle)
  moreover have "ancestor h t (nat (nHeight d) - nat (nHeight b)) = Some p" if p: "is_ancestor h p t"
  proof -
    obtain n where n: "nHeight b = nHeight d - int n" "ancestor h t n = Some p"
      by (rule is_ancestor_height [OF assms(1,2) p]) (use assms(3) in simp)
    then have "nat (nHeight d) - nat (nHeight b) = n" using nn by simp
    then show ?thesis using n(2) by simp
  qed
  ultimately show ?thesis by (auto simp: is_ancestor_def)
qed

lemma FindFork_loop_last_common:
  assumes "index_ok h" "one_root h" "h t = Some d" "h p = Some b" "nHeight b = int k" "nHeight b \<le> nHeight d"
  shows "\<exists>r. FindFork_loop h (branch h t (nat (nHeight d))) (Some p) = Some (Inr (Some r)) \<and> last_common h r p t"
  using assms(4-)
proof (induction k arbitrary: p b)
  case 0
  obtain q c where q: "h q = Some c" "nHeight c = 0" "is_ancestor h q t"
    by (rule GetAncestor_cut [OF assms(1,3), of 0]) (use index_okD(1) [OF assms(1,3)] in simp_all)
  have "pprev b = None" "pprev c = None"
    using index_okD(2) [OF assms(1) 0(1)] index_okD(2) [OF assms(1) q(1)] 0(2) q(2)
    by (auto simp: prev_ok_def split: option.splits)
  then have "p = q" using assms(2) 0(1) q(1) unfolding one_root_def by blast
  then have "is_ancestor h p t" using q(3) by simp
  then show ?case
    using 0(1) chain_at_branch [OF assms(1,3) 0(1,3)]
    by (subst FindFork_loop.simps) (auto simp: last_common_def)
next
  case (Suc k)
  show ?case
  proof (cases "is_ancestor h p t")
    case True
    then show ?thesis
      using Suc.prems(1) chain_at_branch [OF assms(1,3) Suc.prems(1,3)]
      by (subst FindFork_loop.simps) (auto simp: last_common_def)
  next
    case False
    obtain p' b' where p': "pprev b = Some p'" "h p' = Some b'" "nHeight b' = nHeight b - 1"
      by (rule index_ok_prev [OF assms(1) Suc.prems(1)]) (use Suc.prems(2) in simp_all)
    obtain r where r: "FindFork_loop h (branch h t (nat (nHeight d))) (Some p') = Some (Inr (Some r))"
        "last_common h r p' t"
      using Suc.IH [OF p'(2)] p'(3) Suc.prems(2,3) by auto
    have "last_common h r p t"
      using r(2) False unfolding last_common_def is_ancestor_prev [of h p b p', OF Suc.prems(1) p'(1)] by auto
    moreover have "FindFork_loop h (branch h t (nat (nHeight d))) (Some p) = Some (Inr (Some r))"
      using r(1) p'(1) False Suc.prems(1) chain_at_branch [OF assms(1,3) Suc.prems(1,3)]
      by (subst FindFork_loop.simps) simp
    ultimately show ?thesis by blast
  qed
qed

lemma FindFork_last_common:
  assumes "index_ok h" "one_root h" "h t = Some d" "h p = Some b"
  shows "\<exists>r. FindFork h (branch h t (nat (nHeight d))) (Some p) = Some (Inr (Some r)) \<and> last_common h r p t"
proof -
  have nn: "0 \<le> nHeight b" "0 \<le> nHeight d" using index_okD(1) [OF assms(1)] assms(3,4) by blast+
  have H: "chain_Height (branch h t (nat (nHeight d))) = nHeight d" using nn by (simp add: chain_Height_def)
  show ?thesis
  proof (cases "nHeight b > nHeight d")
    case True
    obtain p' b' where p': "GetAncestor h p (nHeight d) = Inr (Some p')" "h p' = Some b'" "nHeight b' = nHeight d"
        "is_ancestor h p' p"
      by (rule GetAncestor_cut [OF assms(1,4) nn(2)]) (use True in simp_all)
    obtain r where r: "FindFork_loop h (branch h t (nat (nHeight d))) (Some p') = Some (Inr (Some r))"
        "last_common h r p' t"
      using FindFork_loop_last_common [OF assms(1-3) p'(2), of "nat (nHeight d)"] p'(3) nn by auto
    then show ?thesis
      using True H p'(1) assms(4) last_common_cut [OF assms(1,4,3) p'(2,4,3) r(2)]
      by (simp add: FindFork_def deref_def)
  next
    case False
    then show ?thesis
      using FindFork_loop_last_common [OF assms, of "nat (nHeight b)"] H assms(4) nn
      by (simp add: FindFork_def deref_def)
  qed
qed

text \<open>A genesis block for the examples; its previous hash is empty, so it cannot be its own hash.\<close>

definition sample_genesis :: CBlockHeader where
  "sample_genesis = CBlockHeader_null\<lparr>hashPrevBlock := [], hd_nBits := 0x207fffff\<rparr>"

lemma sample_index:
  obtains s b where "index_reachable sample_genesis s" "entries s 0 = Some b" "0 \<le> nHeight b"
proof -
  have ne: "block_GetHash sample_genesis \<noteq> hashPrevBlock sample_genesis"
  proof
    assume "block_GetHash sample_genesis = hashPrevBlock sample_genesis"
    then have "length (block_GetHash sample_genesis) = 0" by (simp add: sample_genesis_def)
    then have "length (Hash (Serialize_CBlockHeader False sample_genesis)) = 0"
      by (simp add: block_GetHash_def SerializeHash_def CHashWriter_GetHash_eq)
    then show False unfolding length_Hash by simp
  qed
  obtain s where s: "AddToBlockIndex index_empty 0 sample_genesis = Inr (s, 0)" "index_inv s"
      "mapBlockIndex s (block_GetHash sample_genesis) = Some 0"
    using AddToBlockIndex_new [OF index_inv_empty, of 0 sample_genesis] ne by (auto simp: index_empty_def)
  then obtain b where b: "entries s 0 = Some b" unfolding index_inv_def map_ok_def by blast
  show ?thesis
  proof
    show "index_reachable sample_genesis s" by (rule reach_genesis [OF ne s(1)])
    show "entries s 0 = Some b" by (rule b)
    show "0 \<le> nHeight b" using index_okD(1) [of "entries s" 0 b] b s(2) by (simp add: index_inv_def)
  qed
qed

section \<open>Properties\<close>

text \<open>
  C6: the block index that \<open>AddToBlockIndex\<close> builds from the genesis block and the accepted headers is well
  formed in every reachable state, and adding a further header whose previous hash is known succeeds: heights
  and links agree, the work of an entry is that of its predecessor plus its own (modulo \<open>2 ^ 256\<close>), the hash
  map and the entries agree, there is one root, and no entry has more work than \<open>pindexBestHeader\<close>.
\<close>

theorem block_index_invariant:
  assumes "index_reachable genesis s"
  shows "index_inv s \<and>
    (\<forall>this block. entries s this = None \<and> mapBlockIndex s (hashPrevBlock block) \<noteq> None \<longrightarrow>
       (\<exists>s' p. AddToBlockIndex s this block = Inr (s', p) \<and> index_inv s' \<and>
          mapBlockIndex s' (block_GetHash block) = Some p))"
  using index_reachable_inv [OF assms] AddToBlockIndex_inv by blast

theorem block_index_invariant_witness:
  "\<exists>s. index_reachable sample_genesis s \<and> entries s \<noteq> Map.empty \<and> index_inv s"
proof -
  obtain s b where s: "index_reachable sample_genesis s" "entries s 0 = Some b" by (rule sample_index)
  then show ?thesis using block_index_invariant [OF s(1)] by fastforce
qed

text \<open>
  C7: in every reachable state \<open>GetAncestor\<close>, which jumps along the skip pointers, returns (no assertion fails
  and no dangling pointer is read) the entry that the plain walk along \<open>pprev\<close> reaches: the ancestor at the
  height that was asked for, and null exactly for a height that is negative or above the entry.
\<close>

theorem GetAncestor_walk:
  assumes "index_reachable genesis s" "entries s p = Some b"
  shows "GetAncestor (entries s) p height =
      Inr (if 0 \<le> height \<and> height \<le> nHeight b then ancestor (entries s) p (nat (nHeight b - height)) else None) \<and>
    (0 \<le> height \<and> height \<le> nHeight b \<longrightarrow>
       (\<exists>q c. ancestor (entries s) p (nat (nHeight b - height)) = Some q \<and> entries s q = Some c \<and>
          nHeight c = height))"
proof -
  have ok: "index_ok (entries s)" using index_reachable_inv [OF assms(1)] by (simp add: index_inv_def)
  show ?thesis
    using GetAncestor_ancestor [OF ok assms(2), of height]
      ancestor_exists [OF ok assms(2), of "nat (nHeight b - height)"] by (auto split: if_splits)
qed

theorem GetAncestor_walk_witness:
  "\<exists>s q c. index_reachable sample_genesis s \<and> GetAncestor (entries s) 0 0 = Inr (Some q) \<and>
     entries s q = Some c \<and> nHeight c = 0"
proof -
  obtain s b where s: "index_reachable sample_genesis s" "entries s 0 = Some b" "0 \<le> nHeight b"
    by (rule sample_index)
  then show ?thesis using GetAncestor_walk [OF s(1,2), of 0] by auto
qed

text \<open>
  C8: in every reachable state the loops of \<open>SetTip\<close>, \<open>LastCommonAncestor\<close> and \<open>FindFork\<close> end.  \<open>SetTip\<close>
  replaces the chain of any entry (or the empty one) by the chain of the new tip, and the other two return the
  last common ancestor: a common ancestor that every other common ancestor is an ancestor of.
\<close>

theorem chain_walks_return:
  assumes "index_reachable genesis s" "entries s p = Some b" "entries s q = Some c"
  shows "(v = [] \<or> v = branch (entries s) p' n \<longrightarrow>
       SetTip (entries s) v (Some p) = Some (Inr (branch (entries s) p (nat (nHeight b))))) \<and>
    (\<exists>r. LastCommonAncestor (entries s) q p = Some (Inr (Some r)) \<and> last_common (entries s) r q p) \<and>
    (\<exists>r. FindFork (entries s) (branch (entries s) p (nat (nHeight b))) (Some q) = Some (Inr (Some r)) \<and>
       last_common (entries s) r q p)"
proof -
  have ok: "index_ok (entries s)" "one_root (entries s)"
    using index_reachable_inv [OF assms(1)] by (simp_all add: index_inv_def)
  have "branch_closed (entries s) []" by (simp add: branch_closed_def)
  then have "v = [] \<or> v = branch (entries s) p' n \<longrightarrow> branch_closed (entries s) v"
    using branch_is_closed by auto
  then show ?thesis
    using SetTip_branch [OF ok(1) assms(2)] LastCommonAncestor_last_common [OF ok assms(3,2)]
      FindFork_last_common [OF ok assms(2,3)] by blast
qed

theorem chain_walks_return_witness:
  "\<exists>s b r. index_reachable sample_genesis s \<and> entries s 0 = Some b \<and>
     SetTip (entries s) [] (Some 0) = Some (Inr (branch (entries s) 0 (nat (nHeight b)))) \<and>
     LastCommonAncestor (entries s) 0 0 = Some (Inr (Some r)) \<and> last_common (entries s) r 0 0"
proof -
  obtain s b where s: "index_reachable sample_genesis s" "entries s 0 = Some b" by (rule sample_index)
  then show ?thesis using chain_walks_return [OF s s(2), of "[]"] by blast
qed

end
