(* ===== verification/TxVerify.thy ===== *)
theory TxVerify
  imports UtxoUpdate Standard VerifyScript Chain
begin

text \<open>
  The checks of a transaction (\<open>src/src/consensus/tx_verify.cpp\<close>) and the block size parameters
  (\<open>src/src/consensus/consensus.cpp\<close>).

  A call of \<open>state.DoS\<close> or \<open>state.Invalid\<close> is the error \<open>DoS\<close> or \<open>Invalid\<close> with the level and the reject
  reason; the exception of \<open>GetValueOut\<close> and a failed \<open>assert\<close> are errors of their own.  Functions of a
  coin view are over the interface \<open>coins_ops\<close>, so that their properties hold for every view that meets its
  contract.  The sums of amounts stay far below \<open>2 ^ 63\<close>, because each step checks \<open>MoneyRange\<close>, and are
  integers; the signature operation counters are 32-bit words.
\<close>

section \<open>Block size parameters\<close>

record dgp_params =
  dgpMaxBlockSerSize :: u32
  dgpMaxBlockWeight :: u32
  dgpMaxBlockSize :: u32
  dgpMaxBlockSigOps :: int
  dgpMaxProtoMsgLength :: u32
  dgpMaxTxSigOps :: u32

definition dgp_default :: dgp_params where
  "dgp_default =
     \<lparr>dgpMaxBlockSerSize = 8000000, dgpMaxBlockWeight = 8000000, dgpMaxBlockSize = 2000000,
      dgpMaxBlockSigOps = 80000, dgpMaxProtoMsgLength = 8000000, dgpMaxTxSigOps = 16000\<rparr>"

abbreviation (input) WITNESS_SCALE_FACTOR :: nat where "WITNESS_SCALE_FACTOR \<equiv> 4"
abbreviation (input) MAX_TRANSACTION_BASE_SIZE :: nat where "MAX_TRANSACTION_BASE_SIZE \<equiv> 1000000"
abbreviation (input) COINBASE_MATURITY :: int where "COINBASE_MATURITY \<equiv> 500"

definition updateBlockSizeParams :: "u32 \<Rightarrow> dgp_params \<Rightarrow> dgp_params" where
  "updateBlockSizeParams newBlockSize dgp =
     (let newSizeForParams = of_nat WITNESS_SCALE_FACTOR * newBlockSize;
          sigOps = uint (newSizeForParams div 100)
      in dgp\<lparr>dgpMaxBlockSerSize := newSizeForParams, dgpMaxBlockWeight := newSizeForParams,
             dgpMaxBlockSigOps := sigOps, dgpMaxTxSigOps := of_int (sigOps div 5),
             dgpMaxProtoMsgLength := newSizeForParams\<rparr>)"

section \<open>Lock times\<close>

definition IsFinalTx :: "CTransaction \<Rightarrow> int \<Rightarrow> int \<Rightarrow> bool" where
  "IsFinalTx tx nBlockHeight nBlockTime =
     (if nLockTime tx = 0 then True
      else if uint (nLockTime tx) <
        (if uint (nLockTime tx) < LOCKTIME_THRESHOLD then nBlockHeight else nBlockTime) then True
      else list_all (\<lambda>txin. nSequence txin = SEQUENCE_FINAL) (vin tx))"

text \<open>The lock of one input that spends a coin of height \<open>nCoinHeight\<close>, by time or by height.\<close>

definition sequence_lock :: "index_heap \<Rightarrow> addr \<Rightarrow> CTxIn \<Rightarrow> int \<Rightarrow> int \<times> int \<Rightarrow> chain_error + int \<times> int" where
  "sequence_lock h block txin nCoinHeight lock =
     (case lock of (nMinHeight, nMinTime) \<Rightarrow>
        if uint (nSequence txin) AND SEQUENCE_LOCKTIME_TYPE_FLAG \<noteq> 0 then
          bindE (GetAncestor h block (max (nCoinHeight - 1) 0)) (\<lambda>r.
            case r of
              None \<Rightarrow> Inl Dangling
            | Some p \<Rightarrow>
                bindE (GetMedianTimePast h p) (\<lambda>nCoinTime.
                  Inr (nMinHeight,
                    max nMinTime (nCoinTime + push_bit 9 (uint (nSequence txin) AND SEQUENCE_LOCKTIME_MASK) - 1))))
        else Inr (max nMinHeight (nCoinHeight + (uint (nSequence txin) AND SEQUENCE_LOCKTIME_MASK) - 1), nMinTime))"

text \<open>
  The loop over the inputs with their coin heights; it returns the locks and the heights, with the heights of
  inputs without a relative lock set to 0.
\<close>

primrec sequence_locks_loop ::
  "index_heap \<Rightarrow> addr \<Rightarrow> (CTxIn \<times> int) list \<Rightarrow> int \<times> int \<Rightarrow> chain_error + (int \<times> int) \<times> int list" where
  "sequence_locks_loop h block [] lock = Inr (lock, [])"
| "sequence_locks_loop h block (x # xs) lock =
     (case x of (txin, nCoinHeight) \<Rightarrow>
        if uint (nSequence txin) AND SEQUENCE_LOCKTIME_DISABLE_FLAG \<noteq> 0 then
          bindE (sequence_locks_loop h block xs lock) (\<lambda>(lock, hs). Inr (lock, 0 # hs))
        else
          bindE (sequence_lock h block txin nCoinHeight lock) (\<lambda>lock.
          bindE (sequence_locks_loop h block xs lock) (\<lambda>(lock, hs). Inr (lock, nCoinHeight # hs))))"

abbreviation (input) LOCKTIME_VERIFY_SEQUENCE :: u32 where "LOCKTIME_VERIFY_SEQUENCE \<equiv> 1"

definition CalculateSequenceLocks ::
  "index_heap \<Rightarrow> CTransaction \<Rightarrow> u32 \<Rightarrow> int list \<Rightarrow> addr \<Rightarrow> chain_error + (int \<times> int) \<times> int list" where
  "CalculateSequenceLocks h tx flags prevHeights block =
     (if length prevHeights \<noteq> length (vin tx) then Inl ChainAssert
      else if \<not> (nVersion tx \<ge> 2 \<and> flags AND LOCKTIME_VERIFY_SEQUENCE \<noteq> 0) then Inr ((- 1, - 1), prevHeights)
      else sequence_locks_loop h block (zip (vin tx) prevHeights) (- 1, - 1))"

definition EvaluateSequenceLocks :: "index_heap \<Rightarrow> addr \<Rightarrow> int \<times> int \<Rightarrow> chain_error + bool" where
  "EvaluateSequenceLocks h block lockPair =
     bindE (deref h block) (\<lambda>b.
       case pprev b of
         None \<Rightarrow> Inl ChainAssert
       | Some q \<Rightarrow>
           bindE (GetMedianTimePast h q) (\<lambda>nBlockTime.
             Inr (\<not> (fst lockPair \<ge> nHeight b \<or> snd lockPair \<ge> nBlockTime))))"

definition SequenceLocks ::
  "index_heap \<Rightarrow> CTransaction \<Rightarrow> u32 \<Rightarrow> int list \<Rightarrow> addr \<Rightarrow> chain_error + bool \<times> int list" where
  "SequenceLocks h tx flags prevHeights block =
     bindE (CalculateSequenceLocks h tx flags prevHeights block) (\<lambda>(lock, hs).
     bindE (EvaluateSequenceLocks h block lock) (\<lambda>b. Inr (b, hs)))"

section \<open>Signature operations\<close>

definition GetLegacySigOpCount :: "CTransaction \<Rightarrow> u32" where
  "GetLegacySigOpCount tx =
     foldl (\<lambda>nSigOps txout. nSigOps + of_nat (GetSigOpCount (scriptPubKey txout) False))
       (foldl (\<lambda>nSigOps txin. nSigOps + of_nat (GetSigOpCount (scriptSig txin) False)) 0 (vin tx)) (vout tx)"

primrec p2sh_sigops_loop :: "'v coins_ops \<Rightarrow> CTxIn list \<Rightarrow> u32 \<Rightarrow> 'v \<Rightarrow> coins_error + u32 \<times> 'v" where
  "p2sh_sigops_loop ops [] nSigOps v = Inr (nSigOps, v)"
| "p2sh_sigops_loop ops (txin # txins) nSigOps v =
     (case co_AccessCoin ops v (prevout txin) of (coin, v) \<Rightarrow>
        if Coin_IsSpent coin then Inl CoinsAssert
        else p2sh_sigops_loop ops txins
          (if IsPayToScriptHash (scriptPubKey (c_out coin))
           then nSigOps + of_nat (GetSigOpCount_p2sh (scriptPubKey (c_out coin)) (scriptSig txin))
           else nSigOps) v)"

definition GetP2SHSigOpCount :: "'v coins_ops \<Rightarrow> CTransaction \<Rightarrow> 'v \<Rightarrow> coins_error + u32 \<times> 'v" where
  "GetP2SHSigOpCount ops tx v = (if IsCoinBase tx then Inr (0, v) else p2sh_sigops_loop ops (vin tx) 0 v)"

primrec witness_sigops_loop ::
  "'v coins_ops \<Rightarrow> u32 \<Rightarrow> CTxIn list \<Rightarrow> int \<Rightarrow> 'v \<Rightarrow> coins_error + int \<times> 'v" where
  "witness_sigops_loop ops flags [] nSigOps v = Inr (nSigOps, v)"
| "witness_sigops_loop ops flags (txin # txins) nSigOps v =
     (case co_AccessCoin ops v (prevout txin) of (coin, v) \<Rightarrow>
        if Coin_IsSpent coin then Inl CoinsAssert
        else case CountWitnessSigOps (scriptSig txin) (scriptPubKey (c_out coin)) (scriptWitness txin) flags of
          None \<Rightarrow> Inl CoinsAssert
        | Some n \<Rightarrow> witness_sigops_loop ops flags txins (nSigOps + int n) v)"

definition GetTransactionSigOpCost ::
  "'v coins_ops \<Rightarrow> CTransaction \<Rightarrow> u32 \<Rightarrow> 'v \<Rightarrow> coins_error + int \<times> 'v" where
  "GetTransactionSigOpCost ops tx flags v =
     (let nSigOps = uint (GetLegacySigOpCount tx * of_nat WITNESS_SCALE_FACTOR)
      in if IsCoinBase tx then Inr (nSigOps, v)
         else bindE (if flags AND SCRIPT_VERIFY_P2SH \<noteq> 0 then
                  bindE (GetP2SHSigOpCount ops tx v) (\<lambda>(n, v).
                    Inr (nSigOps + uint (n * of_nat WITNESS_SCALE_FACTOR), v))
                else Inr (nSigOps, v)) (\<lambda>(nSigOps, v).
           witness_sigops_loop ops flags (vin tx) nSigOps v))"

section \<open>The checks of a transaction\<close>

datatype tx_error =
    DoS nat string
  | Invalid string
  | ValueOutOfRange
  | InputAssert

primrec check_outputs :: "bool \<Rightarrow> int \<Rightarrow> CTxOut list \<Rightarrow> tx_error + int" where
  "check_outputs generates nValueOut [] = Inr nValueOut"
| "check_outputs generates nValueOut (txout # txouts) =
     (if CTxOut_IsEmpty txout \<and> \<not> generates then Inl (DoS 100 ''bad-txns-vout-empty'')
      else if nValue txout < 0 then Inl (DoS 100 ''bad-txns-vout-negative'')
      else if nValue txout > MAX_MONEY then Inl (DoS 100 ''bad-txns-vout-toolarge'')
      else if \<not> MoneyRange (nValueOut + nValue txout) then Inl (DoS 100 ''bad-txns-txouttotal-toolarge'')
      else if (HasOpCall (scriptPubKey txout) \<or> HasOpCreate (scriptPubKey txout)) \<and>
              Solver (scriptPubKey txout) True = None then Inl (DoS 100 ''bad-txns-contract-nonstandard'')
      else check_outputs generates (nValueOut + nValue txout) txouts)"

primrec check_duplicates :: "COutPoint list \<Rightarrow> CTxIn list \<Rightarrow> tx_error + unit" where
  "check_duplicates vInOutPoints [] = Inr ()"
| "check_duplicates vInOutPoints (txin # txins) =
     (if prevout txin \<in> set vInOutPoints then Inl (DoS 100 ''bad-txns-inputs-duplicate'')
      else check_duplicates (prevout txin # vInOutPoints) txins)"

definition CheckTransaction :: "dgp_params \<Rightarrow> CTransaction \<Rightarrow> bool \<Rightarrow> tx_error + unit" where
  "CheckTransaction dgp tx fCheckDuplicateInputs =
     (if vin tx = [] then Inl (DoS 10 ''bad-txns-vin-empty'')
      else if vout tx = [] then Inl (DoS 10 ''bad-txns-vout-empty'')
      else if length (SerializeTransaction False tx) > MAX_TRANSACTION_BASE_SIZE \<or>
              length (SerializeTransaction False tx) * WITNESS_SCALE_FACTOR > unat (dgpMaxBlockWeight dgp)
      then Inl (DoS 100 ''bad-txns-oversize'')
      else bindE (check_outputs (IsCoinBase tx \<or> IsCoinStake tx) 0 (vout tx)) (\<lambda>_.
           bindE (if fCheckDuplicateInputs then check_duplicates [] (vin tx) else Inr ()) (\<lambda>_.
             if IsCoinBase tx then
               (if length (scriptSig (vin tx ! 0)) < 2 \<or> length (scriptSig (vin tx ! 0)) > 100
                then Inl (DoS 100 ''bad-cb-length'') else Inr ())
             else if list_ex (\<lambda>txin. COutPoint_IsNull (prevout txin)) (vin tx)
             then Inl (DoS 10 ''bad-txns-prevout-null'') else Inr ())))"

text \<open>The 30-bit height of a coin is promoted to \<open>int\<close> in the comparison of the depth.\<close>

primrec check_inputs_loop ::
  "'v coins_ops \<Rightarrow> int \<Rightarrow> CTxIn list \<Rightarrow> int \<Rightarrow> 'v \<Rightarrow> tx_error + int \<times> 'v" where
  "check_inputs_loop ops nSpendHeight [] nValueIn v = Inr (nValueIn, v)"
| "check_inputs_loop ops nSpendHeight (txin # txins) nValueIn v =
     (case co_AccessCoin ops v (prevout txin) of (coin, v) \<Rightarrow>
        if Coin_IsSpent coin then Inl InputAssert
        else if (c_fCoinBase coin \<or> c_fCoinStake coin) \<and> nSpendHeight - uint (c_nHeight coin) < COINBASE_MATURITY
        then Inl (Invalid ''bad-txns-premature-spend-of-coinbase'')
        else if \<not> MoneyRange (nValue (c_out coin)) \<or> \<not> MoneyRange (nValueIn + nValue (c_out coin))
        then Inl (DoS 100 ''bad-txns-inputvalues-outofrange'')
        else check_inputs_loop ops nSpendHeight txins (nValueIn + nValue (c_out coin)) v)"

text \<open>\<open>txfee\<close> is only set for a transaction that is not a coinstake: the result \<open>None\<close> leaves it as it was.\<close>

definition CheckTxInputs ::
  "'v coins_ops \<Rightarrow> CTransaction \<Rightarrow> int \<Rightarrow> 'v \<Rightarrow> tx_error + int option \<times> 'v" where
  "CheckTxInputs ops tx nSpendHeight v =
     (case HaveInputs ops tx v of (b, v) \<Rightarrow>
        if \<not> b then Inl (DoS 100 ''bad-txns-inputs-missingorspent'')
        else bindE (check_inputs_loop ops nSpendHeight (vin tx) 0 v) (\<lambda>(nValueIn, v).
          if \<not> IsCoinStake tx then
            (case GetValueOut tx of
               None \<Rightarrow> Inl ValueOutOfRange
             | Some value_out \<Rightarrow>
                 if nValueIn < value_out then Inl (DoS 100 ''bad-txns-in-belowout'')
                 else if \<not> MoneyRange (nValueIn - value_out) then Inl (DoS 100 ''bad-txns-fee-outofrange'')
                 else Inr (Some (nValueIn - value_out), v))
          else Inr (None, v)))"

section \<open>What a checked transaction satisfies\<close>

definition out_checked :: "bool \<Rightarrow> CTxOut \<Rightarrow> bool" where
  "out_checked generates out \<longleftrightarrow>
     (CTxOut_IsEmpty out \<longrightarrow> generates) \<and> 0 \<le> nValue out \<and> nValue out \<le> MAX_MONEY \<and>
     (HasOpCall (scriptPubKey out) \<or> HasOpCreate (scriptPubKey out) \<longrightarrow> Solver (scriptPubKey out) True \<noteq> None)"

lemma check_outputs_Inr:
  "MoneyRange a \<Longrightarrow> check_outputs g a outs = Inr t \<longleftrightarrow>
     t = a + sum_list (map nValue outs) \<and> MoneyRange t \<and> (\<forall>out \<in> set outs. out_checked g out)"
proof (induction outs arbitrary: a)
  case (Cons out outs)
  have nn: "0 \<le> sum_list (map nValue outs)" if "\<forall>out \<in> set outs. out_checked g out"
    by (rule sum_list_nonneg) (use that in \<open>auto simp: out_checked_def\<close>)
  show ?case
  proof (cases "out_checked g out \<and> MoneyRange (a + nValue out)")
    case True
    then show ?thesis using Cons.IH [of "a + nValue out"] by (auto simp: out_checked_def)
  next
    case False
    have "check_outputs g a (out # outs) \<noteq> Inr t" using False by (auto simp: out_checked_def)
    moreover have "\<not> (t = a + sum_list (map nValue (out # outs)) \<and> MoneyRange t \<and>
        (\<forall>out \<in> set (out # outs). out_checked g out))"
    proof
      assume A: "t = a + sum_list (map nValue (out # outs)) \<and> MoneyRange t \<and>
        (\<forall>out \<in> set (out # outs). out_checked g out)"
      then have "0 \<le> sum_list (map nValue outs)" "0 \<le> nValue out" using nn by (auto simp: out_checked_def)
      then show False using A False Cons.prems by (auto simp: MoneyRange_def)
    qed
    ultimately show ?thesis by blast
  qed
qed auto

lemma check_duplicates_Inr:
  "check_duplicates seen ins = Inr u \<longleftrightarrow> distinct (map prevout ins) \<and> set seen \<inter> prevout ` set ins = {}"
  by (induction ins arbitrary: seen) auto

text \<open>The rules a transaction passes \<open>CheckTransaction\<close> by, as one predicate.\<close>

definition tx_checked :: "dgp_params \<Rightarrow> CTransaction \<Rightarrow> bool \<Rightarrow> bool" where
  "tx_checked dgp tx fCheckDuplicateInputs \<longleftrightarrow>
     vin tx \<noteq> [] \<and> vout tx \<noteq> [] \<and>
     length (SerializeTransaction False tx) \<le> MAX_TRANSACTION_BASE_SIZE \<and>
     length (SerializeTransaction False tx) * WITNESS_SCALE_FACTOR \<le> unat (dgpMaxBlockWeight dgp) \<and>
     (\<forall>out \<in> set (vout tx). out_checked (IsCoinBase tx \<or> IsCoinStake tx) out) \<and>
     sum_list (map nValue (vout tx)) \<le> MAX_MONEY \<and>
     (fCheckDuplicateInputs \<longrightarrow> distinct (map prevout (vin tx))) \<and>
     (if IsCoinBase tx then 2 \<le> length (scriptSig (vin tx ! 0)) \<and> length (scriptSig (vin tx ! 0)) \<le> 100
      else \<forall>txin \<in> set (vin tx). \<not> COutPoint_IsNull (prevout txin))"

lemma CheckTransaction_Inr:
  "CheckTransaction dgp tx dup = Inr u \<longleftrightarrow> tx_checked dgp tx dup"
proof -
  have m: "MoneyRange 0" by (simp add: MoneyRange_def MAX_MONEY_def)
  have nn: "0 \<le> sum_list (map nValue (vout tx))" if "\<forall>out \<in> set (vout tx). out_checked g out" for g
    by (rule sum_list_nonneg) (use that in \<open>auto simp: out_checked_def\<close>)
  have o: "(\<exists>t. check_outputs g 0 (vout tx) = Inr t) \<longleftrightarrow>
      (\<forall>out \<in> set (vout tx). out_checked g out) \<and> sum_list (map nValue (vout tx)) \<le> MAX_MONEY" for g
    using check_outputs_Inr [OF m, of g "vout tx"] nn [of g] by (auto simp: MoneyRange_def)
  have d: "(if dup then check_duplicates [] (vin tx) else Inr ()) = Inr () \<longleftrightarrow>
      (dup \<longrightarrow> distinct (map prevout (vin tx)))"
    using check_duplicates_Inr [of "[]" "vin tx" "()"] by simp
  have "CheckTransaction dgp tx dup = Inr () \<longleftrightarrow> tx_checked dgp tx dup"
    unfolding CheckTransaction_def tx_checked_def
    using o [of "IsCoinBase tx \<or> IsCoinStake tx"] d
    by (auto simp: bindE_eq_Inr_iff list_ex_iff split: if_splits)
  then show ?thesis by simp
qed

lemma GetValueOut_loop_sum: "GetValueOut_loop a outs = Some t \<Longrightarrow> t = a + sum_list (map nValue outs)"
  by (induction outs arbitrary: a) (fastforce split: if_splits)+

text \<open>The output counter of a transaction that passes the size check does not wrap.\<close>

lemma length_concat_ge: "(\<And>x. x \<in> set xs \<Longrightarrow> f x \<noteq> []) \<Longrightarrow> length xs \<le> length (concat (map f xs))"
proof (induction xs)
  case (Cons x xs)
  then have "length (f x) \<ge> 1" by (simp add: Suc_le_eq)
  then show ?case using Cons by simp
qed simp

lemma outputs_le_size: "length (vout tx) \<le> length (SerializeTransaction w tx)"
proof -
  have "length (vout tx) \<le> length (concat (map Serialize_CTxOut (vout tx)))"
    by (rule length_concat_ge)
      (simp add: Serialize_CTxOut_def ser_int64_def ser_writedata64_def length_0_conv [symmetric] del: length_0_conv)
  then show ?thesis by (simp add: SerializeTransaction_def Serialize_vector_def Let_def)
qed

section \<open>The inputs in a coin view\<close>

definition coin_mature :: "int \<Rightarrow> Coin \<Rightarrow> bool" where
  "coin_mature nSpendHeight coin \<longleftrightarrow>
     (c_fCoinBase coin \<or> c_fCoinStake coin \<longrightarrow> nSpendHeight - uint (c_nHeight coin) \<ge> COINBASE_MATURITY)"

definition input_checked :: "(COutPoint \<Rightarrow> Coin option) \<Rightarrow> int \<Rightarrow> COutPoint \<Rightarrow> bool" where
  "input_checked m nSpendHeight p \<longleftrightarrow>
     (\<exists>coin. m p = Some coin \<and> coin_mature nSpendHeight coin \<and> MoneyRange (nValue (c_out coin)))"

definition coin_value :: "(COutPoint \<Rightarrow> Coin option) \<Rightarrow> COutPoint \<Rightarrow> int" where
  "coin_value m p = (case m p of None \<Rightarrow> 0 | Some coin \<Rightarrow> nValue (c_out coin))"

context coins_view
begin

lemma HaveInputs_spec:
  "inv v \<Longrightarrow> HaveInputs ops tx v = (b, v') \<Longrightarrow> inv v' \<and> abs v' = abs v"
proof -
  have "inv v \<Longrightarrow> HaveInputs_loop ops ins v = (b, v') \<Longrightarrow> inv v' \<and> abs v' = abs v" for ins
  proof (induction ins arbitrary: v)
    case (Cons txin ins)
    obtain c v1 where c: "co_HaveCoin ops v (prevout txin) = (c, v1)" by (cases "co_HaveCoin ops v (prevout txin)")
    note l = have_law [OF Cons.prems(1) c]
    show ?case using Cons.IH [of v1] Cons.prems(2) c l by (auto split: if_splits)
  qed simp
  then show "inv v \<Longrightarrow> HaveInputs ops tx v = (b, v') \<Longrightarrow> inv v' \<and> abs v' = abs v"
    by (auto simp: HaveInputs_def split: if_splits)
qed

lemma check_inputs_loop_spec:
  "inv v \<Longrightarrow> check_inputs_loop ops nSpendHeight ins a v = Inr (t, v') \<Longrightarrow>
     inv v' \<and> abs v' = abs v \<and> t = a + sum_list (map (coin_value (abs v) \<circ> prevout) ins) \<and>
     (\<forall>txin \<in> set ins. input_checked (abs v) nSpendHeight (prevout txin))"
proof (induction ins arbitrary: v a)
  case (Cons txin ins)
  obtain coin v1 where c: "co_AccessCoin ops v (prevout txin) = (coin, v1)"
    by (cases "co_AccessCoin ops v (prevout txin)")
  note l = access_law [OF Cons.prems(1) c]
  have r: "\<not> Coin_IsSpent coin" "coin_mature nSpendHeight coin" "MoneyRange (nValue (c_out coin))"
      "check_inputs_loop ops nSpendHeight ins (a + nValue (c_out coin)) v1 = Inr (t, v')"
    using Cons.prems(2) c by (auto simp: coin_mature_def split: if_splits)
  have p: "abs v (prevout txin) = Some coin" using l r(1) by simp
  have "inv v1" "abs v1 = abs v" using l by simp_all
  then show ?case using Cons.IH [OF _ r(4)] p r(2,3) by (simp add: input_checked_def coin_value_def)
qed simp

lemma CheckTxInputs_spec:
  assumes "inv v" "CheckTxInputs ops tx nSpendHeight v = Inr (fee, v')"
  shows "inv v' \<and> abs v' = abs v \<and> (\<forall>txin \<in> set (vin tx). input_checked (abs v) nSpendHeight (prevout txin)) \<and>
    (\<not> IsCoinStake tx \<longrightarrow> (\<exists>f. fee = Some f \<and> MoneyRange f \<and>
       sum_list (map (coin_value (abs v) \<circ> prevout) (vin tx)) = sum_list (map nValue (vout tx)) + f))"
proof -
  obtain b v1 where h: "HaveInputs ops tx v = (b, v1)" by (cases "HaveInputs ops tx v")
  obtain t v2 where l: "check_inputs_loop ops nSpendHeight (vin tx) 0 v1 = Inr (t, v2)"
    using assms(2) h by (auto simp: CheckTxInputs_def split: if_splits)
  note v1 = HaveInputs_spec [OF assms(1) h]
  note v2 = check_inputs_loop_spec [OF _ l]
  have "v' = v2 \<and> (\<not> IsCoinStake tx \<longrightarrow>
      (\<exists>val_out. GetValueOut tx = Some val_out \<and> fee = Some (t - val_out) \<and> MoneyRange (t - val_out)))"
    using assms(2) h l by (auto simp: CheckTxInputs_def split: if_splits option.splits)
  then show ?thesis
    using v1 v2 GetValueOut_loop_sum [of 0 "vout tx"] by (fastforce simp: GetValueOut_def)
qed

end

section \<open>The total of the unspent coins\<close>

definition total_value :: "(COutPoint \<Rightarrow> Coin option) \<Rightarrow> int" where
  "total_value m = (\<Sum>p \<in> dom m. coin_value m p)"

lemma total_value_upd:
  assumes "finite (dom m)" "m p = None"
  shows "total_value (m(p \<mapsto> c)) = total_value m + nValue (c_out c)"
proof -
  have "total_value (m(p \<mapsto> c)) = coin_value (m(p \<mapsto> c)) p + (\<Sum>q \<in> dom m. coin_value (m(p \<mapsto> c)) q)"
    unfolding total_value_def dom_fun_upd using assms by (simp add: domIff)
  also have "(\<Sum>q \<in> dom m. coin_value (m(p \<mapsto> c)) q) = total_value m"
    unfolding total_value_def by (rule sum.cong) (use assms(2) in \<open>auto simp: coin_value_def\<close>)
  also have "coin_value (m(p \<mapsto> c)) p = nValue (c_out c)" by (simp add: coin_value_def)
  finally show ?thesis by (simp only: add.commute)
qed

lemma total_value_add:
  assumes "finite (dom m)" "distinct (map fst new)" "\<forall>p \<in> fst ` set new. m p = None"
  shows "total_value (m ++ map_of new) = total_value m + sum_list (map (\<lambda>x. nValue (c_out (snd x))) new)"
  using assms(2,3)
proof (induction new)
  case (Cons x new)
  have e: "m ++ map_of (x # new) = (m ++ map_of new)(fst x \<mapsto> snd x)" by (cases x) simp
  have "map_of new (fst x) = None" using Cons.prems(1) by (simp add: map_of_eq_None_iff)
  then have "(m ++ map_of new) (fst x) = None" using Cons.prems(2) by (simp add: map_add_def)
  moreover have "finite (dom (m ++ map_of new))" using assms(1) by (simp add: finite_dom_map_of)
  ultimately have "total_value (m ++ map_of (x # new)) = total_value (m ++ map_of new) + nValue (c_out (snd x))"
    unfolding e by (intro total_value_upd)
  moreover have "total_value (m ++ map_of new) = total_value m + sum_list (map (\<lambda>x. nValue (c_out (snd x))) new)"
    by (rule Cons.IH) (use Cons.prems in simp_all)
  ultimately show ?case by (simp only: list.map sum_list.Cons ac_simps)
qed simp

lemma total_value_restrict:
  assumes "finite (dom m)" "distinct ps" "\<forall>p \<in> set ps. m p \<noteq> None"
  shows "total_value (m |` (- set ps)) = total_value m - sum_list (map (coin_value m) ps)"
proof -
  have sub: "set ps \<subseteq> dom m" using assms(3) by auto
  have d: "dom (m |` (- set ps)) = dom m - set ps" by auto
  have "total_value (m |` (- set ps)) = (\<Sum>p \<in> dom m - set ps. coin_value m p)"
    unfolding total_value_def d by (rule sum.cong) (auto simp: coin_value_def)
  also have "\<dots> = total_value m - (\<Sum>p \<in> set ps. coin_value m p)"
    unfolding total_value_def by (rule sum_diff [OF assms(1) sub])
  finally show ?thesis by (simp add: sum_list_distinct_conv_sum_set [OF assms(2)])
qed

lemma out_coins_value:
  "(\<forall>out \<in> set outs. 0 \<le> nValue out) \<Longrightarrow>
     sum_list (map (\<lambda>x. nValue (c_out (snd x))) (out_coins txid cb cs h i outs)) \<le> sum_list (map nValue outs)"
proof (induction outs arbitrary: i)
  case (Cons out outs)
  show ?case using Cons.IH [of "Suc i"] Cons.prems by simp
qed simp

lemma finite_utxo: "finite (dom (utxo view))"
proof (induction view)
  case (CCoinsViewDB db)
  then show ?case by (simp add: finite_dom_map_of)
next
  case (CCoinsViewCache c base)
  have "dom (utxo (CCoinsViewCache c base)) \<subseteq> dom (map_of (cacheCoins c)) \<union> dom (utxo base)"
    by (auto split: option.splits)
  moreover have "finite (dom (map_of (cacheCoins c)) \<union> dom (utxo base))"
    using CCoinsViewCache by (simp add: finite_dom_map_of)
  ultimately show ?case by (rule finite_subset)
qed

lemma connect_utxo_value:
  assumes "finite (dom m)" "tx_spendable m h tx" "\<forall>out \<in> set (vout tx). 0 \<le> nValue out"
  shows "total_value (connect_utxo tx h m) \<le>
    total_value m - sum_list (map (coin_value m) (spent_points tx)) + sum_list (map nValue (vout tx))"
proof -
  let ?m = "m |` (- set (spent_points tx))"
  have sp: "distinct (spent_points tx)" "\<forall>p \<in> set (spent_points tx). m p \<noteq> None" "length (vout tx) \<le> 2 ^ 32"
      "\<forall>p \<in> fst ` set (new_coins tx h). m p = None"
    using assms(2) by (simp_all add: tx_spendable_def)
  have "distinct (map fst (new_coins tx h))" unfolding new_coins_def by (rule out_coins_distinct) (use sp(3) in simp)
  moreover have "\<forall>p \<in> fst ` set (new_coins tx h). ?m p = None" using sp(4) by (auto simp: restrict_map_def)
  moreover have "finite (dom ?m)" using assms(1) by (rule finite_subset [rotated]) auto
  ultimately have "total_value (connect_utxo tx h m) =
      total_value ?m + sum_list (map (\<lambda>x. nValue (c_out (snd x))) (new_coins tx h))"
    unfolding connect_utxo_def by (intro total_value_add)
  then show ?thesis
    using total_value_restrict [OF assms(1) sp(1,2)] out_coins_value [OF assms(3)] by (simp add: new_coins_def)
qed

context coins_view
begin

lemma checked_spend:
  assumes "inv v" "finite (dom (abs v))" "CheckTransaction dgp tx True = Inr u" "\<not> IsCoinBase tx"
    "CheckTxInputs ops tx nSpendHeight v = Inr (fee, v1)"
    "\<forall>p \<in> fst ` set (new_coins tx nSpendHeight). abs v p = None"
  shows "\<exists>undo v2. UpdateCoins ops tx nSpendHeight v1 = Inr (undo, v2) \<and> inv v2 \<and>
    abs v2 = connect_utxo tx nSpendHeight (abs v) \<and>
    (\<forall>p \<in> set (spent_points tx). input_checked (abs v) nSpendHeight p) \<and>
    (\<not> IsCoinStake tx \<longrightarrow> (\<exists>f. fee = Some f \<and> 0 \<le> f \<and> total_value (abs v2) + f \<le> total_value (abs v)))"
proof -
  have chk: "tx_checked dgp tx True" using assms(3) by (simp add: CheckTransaction_Inr)
  note i = CheckTxInputs_spec [OF assms(1,5)]
  have spp: "spent_points tx = map prevout (vin tx)" using assms(4) by (simp add: spent_points_def)
  have len: "length (vout tx) \<le> 2 ^ 32" using outputs_le_size [of tx False] chk by (simp add: tx_checked_def)
  have ic: "\<forall>p \<in> set (spent_points tx). input_checked (abs v) nSpendHeight p" using i spp by simp
  have outs: "\<forall>out \<in> set (vout tx). 0 \<le> nValue out" using chk by (simp add: tx_checked_def out_checked_def)
  have sp: "tx_spendable (abs v) nSpendHeight tx"
    using chk ic len outs assms(6) spp unfolding tx_spendable_def tx_checked_def by (force simp: input_checked_def)
  have sp1: "tx_spendable (abs v1) nSpendHeight tx" using sp i by simp
  have "inv v1" using i by blast
  from UpdateCoins_spendable [OF this sp1] obtain v2 where
    v2: "UpdateCoins ops tx nSpendHeight v1 = Inr (map (the \<circ> abs v1) (spent_points tx), v2)" "inv v2"
      "abs v2 = connect_utxo tx nSpendHeight (abs v)"
    using i by auto
  have "\<exists>f. fee = Some f \<and> 0 \<le> f \<and> total_value (abs v2) + f \<le> total_value (abs v)" if "\<not> IsCoinStake tx"
  proof -
    from that i obtain f where f: "fee = Some f" "MoneyRange f"
      "sum_list (map (coin_value (abs v) \<circ> prevout) (vin tx)) = sum_list (map nValue (vout tx)) + f"
      by blast
    then show ?thesis
      using connect_utxo_value [OF assms(2) sp outs] v2(3) spp by (simp add: MoneyRange_def)
  qed
  then show ?thesis using v2 ic by blast
qed

end

section \<open>Properties\<close>

text \<open>
  C4: a transaction that passes \<open>CheckTransaction\<close> (with the duplicate check) and \<open>CheckTxInputs\<close> on a coin
  cache, and whose outputs are not in the cache yet, is connected by \<open>UpdateCoins\<close> without a failing assertion
  or exception.  Every coin it spends exists, is mature and has a value in range; and a transaction that is
  not a coinstake pays a fee of at least 0 and creates no money: the value of all unspent coins afterwards, plus
  the fee, is at most the value before.
\<close>

theorem checked_transaction_connects:
  assumes "cache_inv v" "CheckTransaction dgp tx True = Inr u" "\<not> IsCoinBase tx"
    "CheckTxInputs cache_ops tx nSpendHeight v = Inr (fee, v1)"
    "\<forall>p \<in> fst ` set (new_coins tx nSpendHeight). cache_utxo v p = None"
  shows "\<exists>undo v2. UpdateCoins cache_ops tx nSpendHeight v1 = Inr (undo, v2) \<and> cache_inv v2 \<and>
    cache_utxo v2 = connect_utxo tx nSpendHeight (cache_utxo v) \<and>
    (\<forall>p \<in> set (spent_points tx). input_checked (cache_utxo v) nSpendHeight p) \<and>
    (\<not> IsCoinStake tx \<longrightarrow>
       (\<exists>f. fee = Some f \<and> 0 \<le> f \<and> total_value (cache_utxo v2) + f \<le> total_value (cache_utxo v)))"
  using cache.checked_spend [OF assms(1) _ assms(2-5)] finite_utxo
  by (simp add: cache_utxo_def)

definition sample_view :: cache_view where
  "sample_view =
     (\<lparr>hashBlock = uint256_null, cacheCoins = []\<rparr>,
      CCoinsViewDB \<lparr>db_coins = [(COutPoint (replicate 32 1) 5, Coin_make \<lparr>nValue = 50, scriptPubKey = [0x51]\<rparr> 9 False False)],
        db_best = uint256_null\<rparr>)"

definition sample_payment :: CTransaction where
  "sample_payment =
     \<lparr>vin = [\<lparr>prevout = COutPoint (replicate 32 1) 5, scriptSig = [], nSequence = - 1, scriptWitness = []\<rparr>],
      vout = [\<lparr>nValue = 30, scriptPubKey = [0x51]\<rparr>], nVersion = 2, nLockTime = 0\<rparr>"

lemma sample_payment_kind:
  "\<not> IsCoinBase sample_payment" "\<not> IsCoinStake sample_payment"
  by (simp_all add: sample_payment_def IsCoinBase_def IsCoinStake_def COutPoint_IsNull_def)

lemma sample_payment_checked: "CheckTransaction dgp_default sample_payment True = Inr ()"
proof -
  have "length (SerializeTransaction False sample_payment) = 61"
    by (simp add: sample_payment_def SerializeTransaction_def Serialize_vector_def WriteCompactSize_def
        Serialize_CTxIn_def Serialize_CTxOut_def Serialize_COutPoint_def Serialize_bytes_def ser_int64_def
        ser_writedata8_def ser_writedata32_def ser_writedata64_def)
  moreover have "\<not> HasOpCall [0x51]" "\<not> HasOpCreate [0x51]"
    by (simp_all add: HasOpCall_def HasOpCreate_def Find_def Find_loop.simps GetScriptOp_def)
  ultimately have "tx_checked dgp_default sample_payment True"
    unfolding tx_checked_def using sample_payment_kind
    by (simp add: dgp_default_def out_checked_def MAX_MONEY_def CTxOut_IsEmpty_def)
      (simp add: sample_payment_def COutPoint_IsNull_def)
  then show ?thesis by (simp add: CheckTransaction_Inr)
qed

lemma sample_view_ok:
  "cache_inv sample_view"
  "cache_utxo sample_view = [COutPoint (replicate 32 1) 5 \<mapsto> Coin_make \<lparr>nValue = 50, scriptPubKey = [0x51]\<rparr> 9 False False]"
  by (auto simp: sample_view_def cache_inv_def cache_utxo_def entries_ok_def fun_eq_iff Coin_IsSpent_def
      CTxOut_IsNull_def Coin_make_def)

lemma sample_inputs: "\<exists>v1. CheckTxInputs cache_ops sample_payment 100 sample_view = Inr (Some 20, v1)"
  using sample_payment_kind
  by (simp add: CheckTxInputs_def HaveInputs_def cache_ops_def)
    (simp add: sample_payment_def sample_view_def HaveCoin_def AccessCoin_def FetchCoin_def FetchCoin_with_def
      Coin_IsSpent_def CTxOut_IsNull_def Coin_make_def MoneyRange_def MAX_MONEY_def GetValueOut_def Let_def)

theorem checked_transaction_connects_witness:
  "\<exists>v1 undo v2. CheckTxInputs cache_ops sample_payment 100 sample_view = Inr (Some 20, v1) \<and>
     UpdateCoins cache_ops sample_payment 100 v1 = Inr (undo, v2) \<and>
     total_value (cache_utxo v2) + 20 \<le> total_value (cache_utxo sample_view)"
proof -
  obtain v1 where v1: "CheckTxInputs cache_ops sample_payment 100 sample_view = Inr (Some 20, v1)"
    using sample_inputs by blast
  have "\<forall>p \<in> fst ` set (new_coins sample_payment 100). cache_utxo sample_view p = None"
    by (simp add: sample_view_ok new_coins_def) (simp add: sample_payment_def)
  from checked_transaction_connects [OF sample_view_ok(1) sample_payment_checked sample_payment_kind(1) v1 this]
  show ?thesis using v1 sample_payment_kind(2) by auto
qed

section \<open>Lock times in scripts and in transactions\<close>

lemma CheckLockTime_IsFinalTx:
  assumes "tx_CheckLockTime tx nIn n" "IsFinalTx tx nBlockHeight nBlockTime" "nIn < length (vin tx)" "0 \<le> n"
  shows "n = 0 \<or> n < (if n < LOCKTIME_THRESHOLD then nBlockHeight else nBlockTime)"
proof -
  have c: "uint (nLockTime tx) < LOCKTIME_THRESHOLD \<longleftrightarrow> n < LOCKTIME_THRESHOLD" "n \<le> uint (nLockTime tx)"
      "nSequence (vin tx ! nIn) \<noteq> SEQUENCE_FINAL"
    using assms(1) by (auto simp: tx_CheckLockTime_def split: if_splits)
  have "vin tx ! nIn \<in> set (vin tx)" using assms(3) by simp
  then have "\<not> list_all (\<lambda>txin. nSequence txin = SEQUENCE_FINAL) (vin tx)" using c(3) by (auto simp: list_all_iff)
  then have "nLockTime tx = 0 \<or>
      uint (nLockTime tx) < (if uint (nLockTime tx) < LOCKTIME_THRESHOLD then nBlockHeight else nBlockTime)"
    using assms(2) by (simp add: IsFinalTx_def split: if_splits)
  then show ?thesis using c(1,2) assms(4) by (auto split: if_splits)
qed

text \<open>The lock that an input with a coin of height \<open>nCoinHeight\<close> puts on the pair of minimal height and time.\<close>

definition input_lock :: "index_heap \<Rightarrow> addr \<Rightarrow> int \<Rightarrow> int \<Rightarrow> int \<times> int \<Rightarrow> bool" where
  "input_lock h block sequence nCoinHeight lock \<longleftrightarrow>
     (if sequence AND SEQUENCE_LOCKTIME_TYPE_FLAG \<noteq> 0 then
        \<exists>p nCoinTime. GetAncestor h block (max (nCoinHeight - 1) 0) = Inr (Some p) \<and>
          GetMedianTimePast h p = Inr nCoinTime \<and>
          nCoinTime + 512 * (sequence AND SEQUENCE_LOCKTIME_MASK) \<le> snd lock + 1
      else nCoinHeight + (sequence AND SEQUENCE_LOCKTIME_MASK) \<le> fst lock + 1)"

lemma input_lock_mono:
  "input_lock h block sequence n lock \<Longrightarrow> fst lock \<le> fst lock' \<Longrightarrow> snd lock \<le> snd lock' \<Longrightarrow>
     input_lock h block sequence n lock'"
  by (fastforce simp: input_lock_def split: if_splits)

lemma push_bit_9: "push_bit 9 x = 512 * (x :: int)"
  by (simp add: push_bit_eq_mult)

lemma sequence_lock_ge:
  assumes "sequence_lock h block txin n lock = Inr lock1"
  shows "fst lock \<le> fst lock1" "snd lock \<le> snd lock1" "input_lock h block (uint (nSequence txin)) n lock1"
proof -
  obtain mh mt where lk: "lock = (mh, mt)" by (cases lock)
  have "fst lock \<le> fst lock1 \<and> snd lock \<le> snd lock1 \<and> input_lock h block (uint (nSequence txin)) n lock1"
  proof (cases "uint (nSequence txin) AND SEQUENCE_LOCKTIME_TYPE_FLAG = 0")
    case True
    then show ?thesis using assms lk by (auto simp: sequence_lock_def input_lock_def)
  next
    case False
    then obtain p t where g: "GetAncestor h block (max (n - 1) 0) = Inr (Some p)" "GetMedianTimePast h p = Inr t"
      and l1: "lock1 = (mh, max mt (t + push_bit 9 (uint (nSequence txin) AND SEQUENCE_LOCKTIME_MASK) - 1))"
      using assms lk by (auto simp: sequence_lock_def split: option.splits)
    have "t + 512 * (uint (nSequence txin) AND SEQUENCE_LOCKTIME_MASK) \<le> snd lock1 + 1"
      unfolding l1 push_bit_9 by simp
    then show ?thesis using False lk g l1 by (auto simp: input_lock_def)
  qed
  then show "fst lock \<le> fst lock1" "snd lock \<le> snd lock1" "input_lock h block (uint (nSequence txin)) n lock1"
    by blast+
qed

lemma sequence_locks_loop_ge:
  "sequence_locks_loop h block xs lock = Inr (lock', hs) \<Longrightarrow>
     fst lock \<le> fst lock' \<and> snd lock \<le> snd lock' \<and>
     (\<forall>x \<in> set xs. uint (nSequence (fst x)) AND SEQUENCE_LOCKTIME_DISABLE_FLAG = 0 \<longrightarrow>
        input_lock h block (uint (nSequence (fst x))) (snd x) lock')"
proof (induction xs arbitrary: lock hs)
  case (Cons x xs)
  obtain txin n where x: "x = (txin, n)" by (cases x)
  let ?s = "uint (nSequence txin)"
  show ?case
  proof (cases "?s AND SEQUENCE_LOCKTIME_DISABLE_FLAG = 0")
    case False
    then obtain hs' where "sequence_locks_loop h block xs lock = Inr (lock', hs')"
      using Cons.prems x by auto
    from Cons.IH [OF this] show ?thesis using x False by auto
  next
    case True
    then obtain lock1 hs' where l: "sequence_lock h block txin n lock = Inr lock1"
        "sequence_locks_loop h block xs lock1 = Inr (lock', hs')"
      using Cons.prems x by auto
    note ih = Cons.IH [OF l(2)] and s = sequence_lock_ge [OF l(1)]
    have "input_lock h block ?s n lock'" using input_lock_mono [OF s(3)] ih by blast
    then show ?thesis using ih s(1,2) x by auto
  qed
qed simp

lemma and_power2_eq: "(x :: int) AND 2 ^ k = of_bool (bit x k) * 2 ^ k"
  by (rule bit_eqI) (auto simp: bit_and_iff bit_exp_iff)

lemma sequence_mask_split:
  fixes x :: int
  shows "x AND (SEQUENCE_LOCKTIME_TYPE_FLAG OR SEQUENCE_LOCKTIME_MASK) =
      (x AND SEQUENCE_LOCKTIME_TYPE_FLAG) + (x AND SEQUENCE_LOCKTIME_MASK)"
    "x AND SEQUENCE_LOCKTIME_TYPE_FLAG = 0 \<or> x AND SEQUENCE_LOCKTIME_TYPE_FLAG = SEQUENCE_LOCKTIME_TYPE_FLAG"
    "0 \<le> x AND SEQUENCE_LOCKTIME_MASK" "x AND SEQUENCE_LOCKTIME_MASK < SEQUENCE_LOCKTIME_TYPE_FLAG"
proof -
  have "(x AND SEQUENCE_LOCKTIME_TYPE_FLAG) AND (x AND SEQUENCE_LOCKTIME_MASK) =
      x AND (SEQUENCE_LOCKTIME_TYPE_FLAG AND SEQUENCE_LOCKTIME_MASK)"
    by (simp only: ac_simps and.left_idem)
  then have "(x AND SEQUENCE_LOCKTIME_TYPE_FLAG) AND (x AND SEQUENCE_LOCKTIME_MASK) = 0" by simp
  then show "x AND (SEQUENCE_LOCKTIME_TYPE_FLAG OR SEQUENCE_LOCKTIME_MASK) =
      (x AND SEQUENCE_LOCKTIME_TYPE_FLAG) + (x AND SEQUENCE_LOCKTIME_MASK)"
    by (simp only: bit.conj_disj_distrib disjunctive_add_eq_or)
  have f: "SEQUENCE_LOCKTIME_TYPE_FLAG = (2 :: int) ^ 22" by simp
  show "x AND SEQUENCE_LOCKTIME_TYPE_FLAG = 0 \<or> x AND SEQUENCE_LOCKTIME_TYPE_FLAG = SEQUENCE_LOCKTIME_TYPE_FLAG"
    unfolding f and_power2_eq by simp
  show "0 \<le> x AND SEQUENCE_LOCKTIME_MASK" by simp
  show "x AND SEQUENCE_LOCKTIME_MASK < SEQUENCE_LOCKTIME_TYPE_FLAG"
    using AND_upper2 [of SEQUENCE_LOCKTIME_MASK x] by (rule le_less_trans) simp_all
qed

lemma CheckSequence_cases:
  assumes "tx_CheckSequence tx nIn n"
  shows "nVersion tx \<ge> 2" "uint (nSequence (vin tx ! nIn)) AND SEQUENCE_LOCKTIME_DISABLE_FLAG = 0"
    "n AND SEQUENCE_LOCKTIME_TYPE_FLAG = uint (nSequence (vin tx ! nIn)) AND SEQUENCE_LOCKTIME_TYPE_FLAG"
    "n AND SEQUENCE_LOCKTIME_MASK \<le> uint (nSequence (vin tx ! nIn)) AND SEQUENCE_LOCKTIME_MASK"
proof -
  let ?s = "uint (nSequence (vin tx ! nIn))"
  let ?m = "SEQUENCE_LOCKTIME_TYPE_FLAG OR SEQUENCE_LOCKTIME_MASK"
  have c: "nVersion tx \<ge> 2" "?s AND SEQUENCE_LOCKTIME_DISABLE_FLAG = 0"
      "?s AND ?m < SEQUENCE_LOCKTIME_TYPE_FLAG \<longleftrightarrow> n AND ?m < SEQUENCE_LOCKTIME_TYPE_FLAG" "n AND ?m \<le> ?s AND ?m"
    using assms unfolding tx_CheckSequence_def Let_def by (auto split: if_splits simp: not_less)
  note s = sequence_mask_split [of ?s] and n = sequence_mask_split [of n]
  show t: "n AND SEQUENCE_LOCKTIME_TYPE_FLAG = ?s AND SEQUENCE_LOCKTIME_TYPE_FLAG"
    using c(3) s(2-4) n(2-4) unfolding s(1) n(1) by linarith
  show "nVersion tx \<ge> 2" "?s AND SEQUENCE_LOCKTIME_DISABLE_FLAG = 0" by fact+
  show "n AND SEQUENCE_LOCKTIME_MASK \<le> ?s AND SEQUENCE_LOCKTIME_MASK"
    using c(4) t unfolding s(1) n(1) by linarith
qed

lemma CheckSequence_SequenceLocks:
  assumes "tx_CheckSequence tx nIn n" "flags AND LOCKTIME_VERIFY_SEQUENCE \<noteq> 0" "nIn < length (vin tx)"
    "SequenceLocks h tx flags prevHeights block = Inr (True, hs)" "h block = Some b"
  shows "\<exists>q nBlockTime. pprev b = Some q \<and> GetMedianTimePast h q = Inr nBlockTime \<and>
    input_lock h block n (prevHeights ! nIn) (nHeight b - 1, nBlockTime - 1)"
proof -
  note c = CheckSequence_cases [OF assms(1)]
  let ?s = "uint (nSequence (vin tx ! nIn))"
  obtain lock where l: "CalculateSequenceLocks h tx flags prevHeights block = Inr (lock, hs)"
      "EvaluateSequenceLocks h block lock = Inr True"
    using assms(4) by (auto simp: SequenceLocks_def)
  have len: "length prevHeights = length (vin tx)"
      "sequence_locks_loop h block (zip (vin tx) prevHeights) (- 1, - 1) = Inr (lock, hs)"
    using l(1) c(1) assms(2) by (auto simp: CalculateSequenceLocks_def split: if_splits)
  have "(vin tx ! nIn, prevHeights ! nIn) \<in> set (zip (vin tx) prevHeights)"
    using len(1) assms(3) by (auto simp: set_zip)
  then have il: "input_lock h block ?s (prevHeights ! nIn) lock"
    using sequence_locks_loop_ge [OF len(2)] c(2) by fastforce
  obtain q nBlockTime where q: "pprev b = Some q" "GetMedianTimePast h q = Inr nBlockTime"
      "fst lock < nHeight b" "snd lock < nBlockTime"
    using l(2) assms(5) by (auto simp: EvaluateSequenceLocks_def deref_def not_le split: option.splits)
  have "input_lock h block ?s (prevHeights ! nIn) (nHeight b - 1, nBlockTime - 1)"
    by (rule input_lock_mono [OF il]) (use q(3,4) in simp_all)
  then have "input_lock h block n (prevHeights ! nIn) (nHeight b - 1, nBlockTime - 1)"
    using c(4) unfolding input_lock_def c(3) by (fastforce split: if_splits)
  then show ?thesis using q(1,2) by blast
qed

text \<open>
  C9: a lock that a script demands is enforced by the rules for including the transaction in a block.  If
  \<open>OP_CHECKLOCKTIMEVERIFY\<close> accepts the operand \<open>n\<close> and \<open>IsFinalTx\<close> holds, then \<open>n\<close> is below the height or the
  time of the block (or 0).  If \<open>OP_CHECKSEQUENCEVERIFY\<close> accepts \<open>n\<close> and \<open>SequenceLocks\<close> holds with
  \<open>LOCKTIME_VERIFY_SEQUENCE\<close>, then the block is at least the number of blocks \<open>n\<close> demands above the spent coin,
  or the median time before it is at least \<open>512\<close> seconds times that number after the median time before the coin.
\<close>

theorem locktime_opcodes_enforced:
  assumes "nIn < length (vin tx)" "0 \<le> n"
  shows "(tx_CheckLockTime tx nIn n \<and> IsFinalTx tx nBlockHeight nBlockTime \<longrightarrow>
      n = 0 \<or> n < (if n < LOCKTIME_THRESHOLD then nBlockHeight else nBlockTime)) \<and>
    (tx_CheckSequence tx nIn n \<and> flags AND LOCKTIME_VERIFY_SEQUENCE \<noteq> 0 \<and>
     SequenceLocks h tx flags prevHeights block = Inr (True, hs) \<and> h block = Some b \<longrightarrow>
      (\<exists>q nTime. pprev b = Some q \<and> GetMedianTimePast h q = Inr nTime \<and>
        (if n AND SEQUENCE_LOCKTIME_TYPE_FLAG \<noteq> 0 then
           \<exists>p nCoinTime. GetAncestor h block (max (prevHeights ! nIn - 1) 0) = Inr (Some p) \<and>
             GetMedianTimePast h p = Inr nCoinTime \<and> nCoinTime + 512 * (n AND SEQUENCE_LOCKTIME_MASK) \<le> nTime
         else prevHeights ! nIn + (n AND SEQUENCE_LOCKTIME_MASK) \<le> nHeight b)))"
  using CheckLockTime_IsFinalTx [OF _ _ assms] CheckSequence_SequenceLocks [of tx nIn n flags h prevHeights block hs b] assms(1)
  unfolding input_lock_def by (simp cong: if_cong)

definition sample_locked :: CTransaction where
  "sample_locked =
     \<lparr>vin = [\<lparr>prevout = COutPoint (replicate 32 1) 5, scriptSig = [], nSequence = 1, scriptWitness = []\<rparr>],
      vout = [\<lparr>nValue = 30, scriptPubKey = [0x51]\<rparr>], nVersion = 2, nLockTime = 150\<rparr>"

definition sample_blocks :: index_heap where
  "sample_blocks =
     (let g = (CBlockIndex_of CBlockHeader_null)\<lparr>bi_nTime := 1000\<rparr>
      in [0 \<mapsto> g, 1 \<mapsto> g\<lparr>pprev := Some 0, nHeight := 1\<rparr>, 2 \<mapsto> g\<lparr>pprev := Some 1, nHeight := 2\<rparr>])"

lemma sample_locks: "SequenceLocks sample_blocks sample_locked 1 [1] 2 = Inr (True, [1])"
  by (simp add: SequenceLocks_def CalculateSequenceLocks_def EvaluateSequenceLocks_def sequence_lock_def
      sample_locked_def sample_blocks_def GetMedianTimePast_def deref_def CBlockIndex_of_def Let_def eval_nat_numeral)

theorem locktime_opcodes_enforced_witness:
  "tx_CheckLockTime sample_locked 0 100 \<and> IsFinalTx sample_locked 200 0 \<and>
   tx_CheckSequence sample_locked 0 1 \<and> SequenceLocks sample_blocks sample_locked 1 [1] 2 = Inr (True, [1]) \<and>
   (100 :: int) < 200 \<and> [1 :: int] ! 0 + (1 AND SEQUENCE_LOCKTIME_MASK) \<le> nHeight (the (sample_blocks 2))"
proof -
  have c: "tx_CheckLockTime sample_locked 0 100" "IsFinalTx sample_locked 200 0" "tx_CheckSequence sample_locked 0 1"
    by (simp_all add: tx_CheckLockTime_def IsFinalTx_def tx_CheckSequence_def sample_locked_def)
  have b: "sample_blocks 2 = Some (the (sample_blocks 2))" by (simp add: sample_blocks_def Let_def)
  have l: "0 < length (vin sample_locked)" by (simp add: sample_locked_def)
  show ?thesis
    using locktime_opcodes_enforced [OF l, of 100 200 0]
      locktime_opcodes_enforced [OF l, of 1 0 0 1 sample_blocks "[1]" 2 "[1]" "the (sample_blocks 2)"] c sample_locks b
    by auto
qed

end
