(* ===== verification/VersionBits.thy ===== *)
theory VersionBits
  imports Chain
begin

text \<open>
  Activation of rule changes by version bits (\<open>src/src/versionbits.h\<close>, \<open>src/src/versionbits.cpp\<close>).

  The virtual methods of \<open>AbstractThresholdConditionChecker\<close> are the record \<open>threshold_checker\<close>; the cache
  is a map from optional addresses (the null pointer stands for the parent of the genesis block).  The walk
  back over the periods is a loop over the heap, so it returns in \<open>option\<close>.  \<open>vToCompute\<close> is a stack with
  its back first.

  The specification of the state machine is \<open>bip9_state\<close>: the transition of every period from the first one,
  without the cache and without the early exit of the code.
\<close>

section \<open>Definitions\<close>

datatype ThresholdState = DEFINED | STARTED | LOCKED_IN | ACTIVE | FAILED

type_synonym ThresholdConditionCache = "addr option \<Rightarrow> ThresholdState option"

record threshold_checker =
  Condition :: "index_heap \<Rightarrow> CBlockIndex \<Rightarrow> bool"
  BeginTime :: int
  EndTime :: int
  Period :: int
  Threshold :: int

abbreviation (input) ALWAYS_ACTIVE :: int where "ALWAYS_ACTIVE \<equiv> - 1"

text \<open>The last block of the previous period; \<open>nPeriod\<close> is a divisor.\<close>

definition period_end :: "index_heap \<Rightarrow> int \<Rightarrow> addr \<Rightarrow> chain_error + addr option" where
  "period_end h nPeriod p =
     bindE (deref h p) (\<lambda>b.
       if nPeriod = 0 then Inl ChainAssert
       else GetAncestor h p (nHeight b - (nHeight b + 1) mod nPeriod))"

partial_function (option) walk_back ::
  "index_heap \<Rightarrow> threshold_checker \<Rightarrow> ThresholdConditionCache \<Rightarrow> addr option \<Rightarrow> addr list \<Rightarrow>
     (chain_error + ThresholdConditionCache \<times> addr option \<times> addr list) option" where
  "walk_back h ck cache pindexPrev vToCompute =
     (if cache pindexPrev \<noteq> None then Some (Inr (cache, pindexPrev, vToCompute))
      else case pindexPrev of
        None \<Rightarrow> Some (Inr (cache(None \<mapsto> DEFINED), None, vToCompute))
      | Some p \<Rightarrow>
          (case bindE (GetMedianTimePast h p) (\<lambda>t. bindE (deref h p) (\<lambda>b. Inr (t, b))) of
             Inl e \<Rightarrow> Some (Inl e)
           | Inr (t, b) \<Rightarrow>
               if t < BeginTime ck then Some (Inr (cache(Some p \<mapsto> DEFINED), Some p, vToCompute))
               else (case GetAncestor h p (nHeight b - Period ck) of
                       Inl e \<Rightarrow> Some (Inl e)
                     | Inr q \<Rightarrow> walk_back h ck cache q (p # vToCompute))))"

primrec count_signals :: "index_heap \<Rightarrow> threshold_checker \<Rightarrow> nat \<Rightarrow> addr option \<Rightarrow> chain_error + nat" where
  "count_signals h ck 0 pindexCount = Inr 0"
| "count_signals h ck (Suc i) pindexCount =
     (case pindexCount of
        None \<Rightarrow> Inl Dangling
      | Some p \<Rightarrow>
          bindE (deref h p) (\<lambda>b.
          bindE (count_signals h ck i (pprev b)) (\<lambda>count. Inr (if Condition ck h b then Suc count else count))))"

definition next_state ::
  "index_heap \<Rightarrow> threshold_checker \<Rightarrow> addr \<Rightarrow> ThresholdState \<Rightarrow> chain_error + ThresholdState" where
  "next_state h ck p state =
     (case state of
        DEFINED \<Rightarrow>
          bindE (GetMedianTimePast h p) (\<lambda>t.
            Inr (if t \<ge> EndTime ck then FAILED else if t \<ge> BeginTime ck then STARTED else DEFINED))
      | STARTED \<Rightarrow>
          bindE (GetMedianTimePast h p) (\<lambda>t.
            if t \<ge> EndTime ck then Inr FAILED
            else bindE (count_signals h ck (nat (Period ck)) (Some p)) (\<lambda>count.
              Inr (if int count \<ge> Threshold ck then LOCKED_IN else STARTED)))
      | LOCKED_IN \<Rightarrow> Inr ACTIVE
      | FAILED \<Rightarrow> Inr FAILED
      | ACTIVE \<Rightarrow> Inr ACTIVE)"

primrec walk_forward ::
  "index_heap \<Rightarrow> threshold_checker \<Rightarrow> addr list \<Rightarrow> ThresholdState \<Rightarrow> ThresholdConditionCache \<Rightarrow>
     chain_error + ThresholdState \<times> ThresholdConditionCache" where
  "walk_forward h ck [] state cache = Inr (state, cache)"
| "walk_forward h ck (p # vToCompute) state cache =
     bindE (next_state h ck p state) (\<lambda>stateNext.
       walk_forward h ck vToCompute stateNext (cache(Some p \<mapsto> stateNext)))"

definition GetStateFor ::
  "index_heap \<Rightarrow> threshold_checker \<Rightarrow> ThresholdConditionCache \<Rightarrow> addr option \<Rightarrow>
     (chain_error + ThresholdState \<times> ThresholdConditionCache) option" where
  "GetStateFor h ck cache pindexPrev =
     (if BeginTime ck = ALWAYS_ACTIVE then Some (Inr (ACTIVE, cache))
      else case (case pindexPrev of None \<Rightarrow> Inr None | Some p \<Rightarrow> period_end h (Period ck) p) of
        Inl e \<Rightarrow> Some (Inl e)
      | Inr pindexPrev \<Rightarrow>
          (case walk_back h ck cache pindexPrev [] of
             None \<Rightarrow> None
           | Some (Inl e) \<Rightarrow> Some (Inl e)
           | Some (Inr (cache, pindexPrev, vToCompute)) \<Rightarrow>
               (case cache pindexPrev of
                  None \<Rightarrow> Some (Inl ChainAssert)
                | Some state \<Rightarrow> Some (walk_forward h ck vToCompute state cache))))"

text \<open>The height of the first block that has the state of the block after \<open>pindexPrev\<close>.\<close>

partial_function (option) since_loop ::
  "index_heap \<Rightarrow> threshold_checker \<Rightarrow> ThresholdState \<Rightarrow> ThresholdConditionCache \<Rightarrow> addr \<Rightarrow>
     (chain_error + int \<times> ThresholdConditionCache) option" where
  "since_loop h ck initialState cache p =
     (case bindE (deref h p) (\<lambda>b. bindE (GetAncestor h p (nHeight b - Period ck)) (\<lambda>q. Inr (b, q))) of
        Inl e \<Rightarrow> Some (Inl e)
      | Inr (b, None) \<Rightarrow> Some (Inr (nHeight b + 1, cache))
      | Inr (b, Some q) \<Rightarrow>
          (case GetStateFor h ck cache (Some q) of
             None \<Rightarrow> None
           | Some (Inl e) \<Rightarrow> Some (Inl e)
           | Some (Inr (state, cache)) \<Rightarrow>
               if state = initialState then since_loop h ck initialState cache q
               else Some (Inr (nHeight b + 1, cache))))"

definition GetStateSinceHeightFor ::
  "index_heap \<Rightarrow> threshold_checker \<Rightarrow> ThresholdConditionCache \<Rightarrow> addr option \<Rightarrow>
     (chain_error + int \<times> ThresholdConditionCache) option" where
  "GetStateSinceHeightFor h ck cache pindexPrev =
     (if BeginTime ck = ALWAYS_ACTIVE then Some (Inr (0, cache))
      else case GetStateFor h ck cache pindexPrev of
        None \<Rightarrow> None
      | Some (Inl e) \<Rightarrow> Some (Inl e)
      | Some (Inr (initialState, cache)) \<Rightarrow>
          if initialState = DEFINED then Some (Inr (0, cache))
          else (case pindexPrev of
                  None \<Rightarrow> Some (Inl Dangling)
                | Some p \<Rightarrow>
                    (case period_end h (Period ck) p of
                       Inl e \<Rightarrow> Some (Inl e)
                     | Inr None \<Rightarrow> Some (Inl Dangling)
                     | Inr (Some q) \<Rightarrow> since_loop h ck initialState cache q)))"

record BIP9Stats =
  st_period :: int
  st_threshold :: int
  st_elapsed :: int
  st_count :: int
  st_possible :: bool

partial_function (option) stats_loop ::
  "index_heap \<Rightarrow> threshold_checker \<Rightarrow> int \<Rightarrow> addr option \<Rightarrow> int \<Rightarrow> (chain_error + int) option" where
  "stats_loop h ck endHeight currentIndex count =
     (case currentIndex of
        None \<Rightarrow> Some (Inl Dangling)
      | Some p \<Rightarrow>
          (case h p of
             None \<Rightarrow> Some (Inl Dangling)
           | Some b \<Rightarrow>
               if endHeight \<noteq> nHeight b
               then stats_loop h ck endHeight (pprev b) (if Condition ck h b then count + 1 else count)
               else Some (Inr count)))"

definition GetStateStatisticsFor ::
  "index_heap \<Rightarrow> threshold_checker \<Rightarrow> addr option \<Rightarrow> (chain_error + BIP9Stats) option" where
  "GetStateStatisticsFor h ck pindex =
     (let stats = \<lparr>st_period = Period ck, st_threshold = Threshold ck, st_elapsed = 0, st_count = 0, st_possible = False\<rparr>
      in case pindex of
           None \<Rightarrow> Some (Inr stats)
         | Some p \<Rightarrow>
             (case bindE (deref h p) (\<lambda>b. bindE (period_end h (Period ck) p) (\<lambda>q.
                     case q of None \<Rightarrow> Inl Dangling | Some q \<Rightarrow> bindE (deref h q) (\<lambda>c. Inr (b, c)))) of
                Inl e \<Rightarrow> Some (Inl e)
              | Inr (b, c) \<Rightarrow>
                  (case stats_loop h ck (nHeight c) (Some p) 0 of
                     None \<Rightarrow> None
                   | Some (Inl e) \<Rightarrow> Some (Inl e)
                   | Some (Inr count) \<Rightarrow>
                       let elapsed = nHeight b - nHeight c
                       in Some (Inr (stats\<lparr>st_elapsed := elapsed, st_count := count,
                            st_possible := Period ck - Threshold ck \<ge> elapsed - count\<rparr>)))))"

section \<open>The deployments\<close>

datatype DeploymentPos = DEPLOYMENT_TESTDUMMY | DEPLOYMENT_CSV | DEPLOYMENT_SEGWIT

record BIP9Deployment =
  dep_bit :: nat
  nStartTime :: int
  nTimeout :: int

record vb_params =
  nRuleChangeActivationThreshold :: u32
  nMinerConfirmationWindow :: u32
  vDeployments :: "DeploymentPos \<Rightarrow> BIP9Deployment"

abbreviation (input) VERSIONBITS_TOP_BITS :: u32 where "VERSIONBITS_TOP_BITS \<equiv> 0x20000000"
abbreviation (input) VERSIONBITS_TOP_MASK :: u32 where "VERSIONBITS_TOP_MASK \<equiv> 0xE0000000"

definition VersionBitsMask :: "vb_params \<Rightarrow> DeploymentPos \<Rightarrow> u32" where
  "VersionBitsMask params pos = push_bit (dep_bit (vDeployments params pos)) 1"

definition VersionBitsConditionChecker :: "vb_params \<Rightarrow> DeploymentPos \<Rightarrow> threshold_checker" where
  "VersionBitsConditionChecker params pos =
     \<lparr>Condition = \<lambda>_ b. bi_nVersion b AND VERSIONBITS_TOP_MASK = VERSIONBITS_TOP_BITS \<and>
                         bi_nVersion b AND VersionBitsMask params pos \<noteq> 0,
      BeginTime = nStartTime (vDeployments params pos), EndTime = nTimeout (vDeployments params pos),
      Period = sint (nMinerConfirmationWindow params), Threshold = sint (nRuleChangeActivationThreshold params)\<rparr>"

type_synonym VersionBitsCache = "DeploymentPos \<Rightarrow> ThresholdConditionCache"



definition VersionBitsStateSinceHeight ::
  "index_heap \<Rightarrow> vb_params \<Rightarrow> DeploymentPos \<Rightarrow> VersionBitsCache \<Rightarrow> addr option \<Rightarrow>
     (chain_error + int \<times> VersionBitsCache) option" where
  "VersionBitsStateSinceHeight h params pos caches pindexPrev =
     map_option (map_sum id (\<lambda>(since, cache). (since, caches(pos := cache))))
       (GetStateSinceHeightFor h (VersionBitsConditionChecker params pos) (caches pos) pindexPrev)"

definition VersionBitsStatistics ::
  "index_heap \<Rightarrow> vb_params \<Rightarrow> DeploymentPos \<Rightarrow> addr option \<Rightarrow> (chain_error + BIP9Stats) option" where
  "VersionBitsStatistics h params pos pindexPrev =
     GetStateStatisticsFor h (VersionBitsConditionChecker params pos) pindexPrev"

section \<open>The median time of a chain\<close>

lemma sort_nth_ge:
  fixes m :: int
  assumes "length (filter (\<lambda>x. x < m) xs) \<le> i" "i < length xs"
  shows "m \<le> sort xs ! i"
proof (rule ccontr)
  assume "\<not> m \<le> sort xs ! i"
  then have lt: "sort xs ! j < m" if "j \<le> i" for j
    using sorted_nth_mono [OF sorted_sort [of xs] that] assms(2) by simp
  have t: "filter (\<lambda>x. x < m) (take (Suc i) (sort xs)) = take (Suc i) (sort xs)"
    using lt assms(2) by (intro filter_True) (auto simp: in_set_conv_nth)
  have "Suc i = length (filter (\<lambda>x. x < m) (take (Suc i) (sort xs)))" unfolding t using assms(2) by simp
  also have "\<dots> \<le> length (filter (\<lambda>x. x < m) (sort xs))"
    by (metis append_take_drop_id filter_append le_add1 length_append)
  also have "\<dots> = length (filter (\<lambda>x. x < m) xs)" by (simp add: filter_sort)
  finally show False using assms(1) by simp
qed

lemma filter_less_median:
  fixes xs :: "int list"
  shows "length (filter (\<lambda>x. x < sort xs ! k) xs) \<le> k"
proof (cases "k < length xs")
  case True
  let ?P = "\<lambda>x. x < sort xs ! k"
  have "sort xs ! k \<le> sort xs ! j" if "k \<le> j" "j < length xs" for j
    using sorted_nth_mono [OF sorted_sort [of xs] that(1)] that(2) by simp
  then have d: "filter ?P (drop k (sort xs)) = []"
    by (auto simp: filter_empty_conv in_set_conv_nth not_less)
  have "length (filter ?P xs) = length (filter ?P (sort xs))" by (simp add: filter_sort)
  also have "\<dots> = length (filter ?P (take k (sort xs)))"
    by (metis append_Nil2 append_take_drop_id d filter_append)
  also have "\<dots> \<le> k" by (rule order_trans [OF length_filter_le]) simp
  finally show ?thesis .
next
  case False
  then show ?thesis using length_filter_le [of _ xs] by (meson le_trans not_le_imp_less order.strict_implies_order)
qed

lemma median_times_total:
  assumes "index_ok h" "x = None \<or> (\<exists>p. x = Some p \<and> h p \<noteq> None)"
  shows "\<exists>ts. median_times h n x = Inr ts \<and> length ts \<le> n \<and> (0 < n \<and> x \<noteq> None \<longrightarrow> ts \<noteq> [])"
  using assms(2)
proof (induction n arbitrary: x)
  case (Suc n)
  show ?case
  proof (cases x)
    case (Some p)
    then obtain b where b: "h p = Some b" using Suc.prems by auto
    have "pprev b = None \<or> (\<exists>p. pprev b = Some p \<and> h p \<noteq> None)"
      using index_okD(2) [OF assms(1) b] by (auto simp: prev_ok_def split: option.splits)
    from Suc.IH [OF this] show ?thesis using Some b by (auto simp: deref_def)
  qed simp
qed simp

lemma median_times_shorter:
  "median_times h (Suc n) x = Inr ts \<Longrightarrow>
     \<exists>ts'. median_times h n x = Inr ts' \<and> (ts = ts' \<or> (length ts = Suc n \<and> (\<exists>t. ts = t # ts')))"
proof (induction n arbitrary: x ts)
  case 0
  then show ?case by (cases x) auto
next
  case (Suc n)
  show ?case
  proof (cases x)
    case None
    then show ?thesis using Suc.prems by simp
  next
    case (Some p)
    then obtain b ts1 where b: "h p = Some b" "median_times h (Suc n) (pprev b) = Inr ts1"
        "ts = ts1 @ [uint (bi_nTime b)]"
      using Suc.prems by (auto simp: deref_def split: option.splits)
    obtain ts' where "median_times h n (pprev b) = Inr ts'" "ts1 = ts' \<or> (length ts1 = Suc n \<and> (\<exists>t. ts1 = t # ts'))"
      using Suc.IH [OF b(2)] by blast
    then show ?thesis using Some b(1,3) by (auto simp: deref_def)
  qed
qed

definition mtp :: "index_heap \<Rightarrow> addr \<Rightarrow> int" where
  "mtp h p = (case GetMedianTimePast h p of Inl _ \<Rightarrow> 0 | Inr t \<Rightarrow> t)"

lemma GetMedianTimePast_mtp:
  assumes "index_ok h" "h p = Some b"
  shows "GetMedianTimePast h p = Inr (mtp h p)"
  using median_times_total [OF assms(1), of "Some p" 11] assms(2) by (auto simp: mtp_def GetMedianTimePast_def)

text \<open>The rule of \<open>ContextualCheckBlockHeader\<close> for proof-of-stake blocks: a block is later than the median before it.\<close>

definition time_rule :: "index_heap \<Rightarrow> bool" where
  "time_rule h \<longleftrightarrow> (\<forall>p b q. h p = Some b \<longrightarrow> pprev b = Some q \<longrightarrow> mtp h q < uint (bi_nTime b))"

lemma mtp_prev:
  assumes "index_ok h" "time_rule h" "h p = Some b" "pprev b = Some q"
  shows "mtp h q \<le> mtp h p"
proof -
  obtain c where c: "h q = Some c" using index_okD(2) [OF assms(1,3)] assms(4) by (auto simp: prev_ok_def)
  have late: "mtp h q < uint (bi_nTime b)" using assms(2-4) by (simp add: time_rule_def)
  obtain ts where ts: "median_times h 11 (Some q) = Inr ts" "length ts \<le> 11" "ts \<noteq> []"
    using median_times_total [OF assms(1), of "Some q" 11] c by auto
  have mq: "mtp h q = sort ts ! (length ts div 2)" by (simp add: mtp_def GetMedianTimePast_def ts(1))
  have "median_times h (Suc 10) (Some q) = Inr ts" using ts(1) by simp
  then obtain ts' where ts': "median_times h 10 (Some q) = Inr ts'" "ts = ts' \<or> (length ts = 11 \<and> (\<exists>t. ts = t # ts'))"
    using median_times_shorter [of h 10 "Some q" ts] by auto
  let ?new = "ts' @ [uint (bi_nTime b)]"
  have "median_times h (Suc 10) (Some p) = Inr ?new"
    using assms(3,4) ts'(1) by (simp only: median_times.simps option.case) (simp add: deref_def)
  then have mp: "mtp h p = sort ?new ! (length ?new div 2)" by (simp add: mtp_def GetMedianTimePast_def)
  have "length (filter (\<lambda>x. x < mtp h q) ?new) \<le> length (filter (\<lambda>x. x < mtp h q) ts)"
    using ts'(2) late by auto
  also have "\<dots> \<le> length ts div 2" unfolding mq by (rule filter_less_median)
  also have "\<dots> \<le> length ?new div 2" using ts'(2) by (auto intro: div_le_mono)
  finally show ?thesis unfolding mp by (intro sort_nth_ge) auto
qed

lemma mtp_ancestor:
  assumes "index_ok h" "time_rule h" "h p = Some b" "ancestor h p n = Some q"
  shows "mtp h q \<le> mtp h p"
  using assms(3,4)
proof (induction n arbitrary: p b)
  case (Suc n)
  then obtain p' where p': "pprev b = Some p'" "ancestor h p' n = Some q" by (auto simp: bind_eq_Some_conv)
  then obtain b' where b': "h p' = Some b'" using index_okD(2) [OF assms(1) Suc.prems(1)] by (auto simp: prev_ok_def)
  show ?case using Suc.IH [OF b' p'(2)] mtp_prev [OF assms(1,2) Suc.prems(1) p'(1)] by simp
qed simp

section \<open>The specification of the state machine\<close>

definition signals :: "index_heap \<Rightarrow> threshold_checker \<Rightarrow> addr \<Rightarrow> int" where
  "signals h ck p = (case count_signals h ck (nat (Period ck)) (Some p) of Inl _ \<Rightarrow> 0 | Inr n \<Rightarrow> int n)"

definition bip9_next :: "index_heap \<Rightarrow> threshold_checker \<Rightarrow> addr \<Rightarrow> ThresholdState \<Rightarrow> ThresholdState" where
  "bip9_next h ck p state =
     (case state of
        DEFINED \<Rightarrow> if mtp h p \<ge> EndTime ck then FAILED else if mtp h p \<ge> BeginTime ck then STARTED else DEFINED
      | STARTED \<Rightarrow>
          if mtp h p \<ge> EndTime ck then FAILED else if signals h ck p \<ge> Threshold ck then LOCKED_IN else STARTED
      | LOCKED_IN \<Rightarrow> ACTIVE
      | FAILED \<Rightarrow> FAILED
      | ACTIVE \<Rightarrow> ACTIVE)"

text \<open>The state after \<open>k\<close> periods, the last of which ends with the block \<open>x\<close>.\<close>

primrec bip9_state :: "index_heap \<Rightarrow> threshold_checker \<Rightarrow> nat \<Rightarrow> addr option \<Rightarrow> ThresholdState" where
  "bip9_state h ck 0 x = DEFINED"
| "bip9_state h ck (Suc k) x =
     (case x of
        None \<Rightarrow> DEFINED
      | Some p \<Rightarrow> bip9_next h ck p (bip9_state h ck k (ancestor h p (nat (Period ck)))))"

definition periods :: "threshold_checker \<Rightarrow> CBlockIndex \<Rightarrow> nat" where
  "periods ck b = nat ((nHeight b + 1) div Period ck)"

text \<open>A place of the cache: the parent of the genesis block, or the last block of a period.\<close>

definition period_point :: "index_heap \<Rightarrow> threshold_checker \<Rightarrow> addr option \<Rightarrow> bool" where
  "period_point h ck x \<longleftrightarrow>
     (\<forall>p. x = Some p \<longrightarrow> (\<exists>b. h p = Some b \<and> (nHeight b + 1) mod Period ck = 0))"

definition state_at :: "index_heap \<Rightarrow> threshold_checker \<Rightarrow> addr option \<Rightarrow> ThresholdState" where
  "state_at h ck x = (case x of None \<Rightarrow> DEFINED | Some p \<Rightarrow> bip9_state h ck (periods ck (the (h p))) (Some p))"

definition cache_ok :: "index_heap \<Rightarrow> threshold_checker \<Rightarrow> ThresholdConditionCache \<Rightarrow> bool" where
  "cache_ok h ck cache \<longleftrightarrow> (\<forall>x s. cache x = Some s \<longrightarrow> s = state_at h ck x)"

definition deployment_ok :: "index_heap \<Rightarrow> threshold_checker \<Rightarrow> bool" where
  "deployment_ok h ck \<longleftrightarrow> index_ok h \<and> time_rule h \<and> 0 < Period ck \<and> BeginTime ck \<le> EndTime ck"

lemma deployment_okD:
  assumes "deployment_ok h ck"
  shows "index_ok h" "time_rule h" "0 < Period ck" "BeginTime ck \<le> EndTime ck"
  using assms by (simp_all add: deployment_ok_def)

lemma count_signals_total:
  assumes "index_ok h" "h p = Some b" "int n \<le> nHeight b + 1"
  shows "\<exists>c. count_signals h ck n (Some p) = Inr c"
  using assms(2,3)
proof (induction n arbitrary: p b)
  case (Suc n)
  show ?case
  proof (cases n)
    case 0
    then show ?thesis using Suc.prems(1) by (simp add: deref_def)
  next
    case (Suc m)
    then have "0 < nHeight b" using Suc.prems(2) by simp
    then obtain q c where q: "pprev b = Some q" "h q = Some c" "nHeight c = nHeight b - 1"
      by (rule index_ok_prev [OF assms(1) Suc.prems(1)])
    obtain r where "count_signals h ck n (Some q) = Inr r" using Suc.IH [OF q(2)] q(3) Suc.prems(2) by auto
    then show ?thesis using q(1) Suc.prems(1) by (simp add: deref_def)
  qed
qed simp

lemma period_ge:
  fixes n P :: int
  assumes "0 < P" "0 \<le> n" "(n + 1) mod P = 0"
  shows "P \<le> n + 1"
proof -
  have "P dvd n + 1" using assms(3) by (simp add: mod_eq_0_iff_dvd)
  then show ?thesis using assms(2) zdvd_imp_le by fastforce
qed

lemma next_state_spec:
  assumes "deployment_ok h ck" "h p = Some b" "(nHeight b + 1) mod Period ck = 0"
  shows "next_state h ck p s = Inr (bip9_next h ck p s)"
proof -
  note d = deployment_okD [OF assms(1)]
  have "Period ck \<le> nHeight b + 1" by (rule period_ge [OF d(3) index_okD(1) [OF d(1) assms(2)] assms(3)])
  then obtain c where c: "count_signals h ck (nat (Period ck)) (Some p) = Inr c"
    using count_signals_total [OF d(1) assms(2), of "nat (Period ck)"] d(3) by auto
  show ?thesis
    by (cases s) (simp_all add: next_state_def bip9_next_def GetMedianTimePast_mtp [OF d(1) assms(2)] c signals_def)
qed

text \<open>The step from one period end to the one before it.\<close>

lemma prev_period:
  assumes "deployment_ok h ck" "h p = Some b" "(nHeight b + 1) mod Period ck = 0"
  obtains x where "GetAncestor h p (nHeight b - Period ck) = Inr x" "period_point h ck x"
    "state_at h ck (Some p) = bip9_next h ck p (state_at h ck x)"
    "\<And>q. x = Some q \<Longrightarrow> \<exists>c. h q = Some c \<and> nHeight c = nHeight b - Period ck \<and> is_ancestor h q p"
proof -
  note d = deployment_okD [OF assms(1)]
  let ?P = "Period ck"
  have nn: "0 \<le> nHeight b" by (rule index_okD(1) [OF d(1) assms(2)])
  have ge: "?P \<le> nHeight b + 1" by (rule period_ge [OF d(3) nn assms(3)])
  have dv: "(nHeight b + 1) div ?P = (nHeight b - ?P + 1) div ?P + 1"
  proof -
    have "nHeight b + 1 = (nHeight b - ?P + 1) + ?P" by simp
    then show ?thesis using d(3) by (metis div_add_self2 less_irrefl)
  qed
  have "0 \<le> (nHeight b - ?P + 1) div ?P" using ge d(3) by (simp add: pos_imp_zdiv_nonneg_iff)
  then have per: "periods ck b = Suc (nat ((nHeight b - ?P + 1) div ?P))"
    unfolding periods_def dv by (simp add: nat_add_distrib)
  show ?thesis
  proof (cases "nHeight b - ?P < 0")
    case True
    then have e: "nHeight b - ?P + 1 = 0" using ge by simp
    show ?thesis
    proof (rule that [of None])
      show "GetAncestor h p (nHeight b - ?P) = Inr None"
        using True GetAncestor_ancestor [OF d(1) assms(2)] by simp
      show "state_at h ck (Some p) = bip9_next h ck p (state_at h ck None)"
        using per unfolding e by (simp add: state_at_def assms(2))
    qed (simp_all add: period_point_def)
  next
    case False
    have h0: "0 \<le> nHeight b - ?P" "nHeight b - ?P \<le> nHeight b" using False d(3) by simp_all
    obtain q c where q: "GetAncestor h p (nHeight b - ?P) = Inr (Some q)" "h q = Some c"
        "nHeight c = nHeight b - ?P" "is_ancestor h q p"
      by (rule GetAncestor_cut [OF d(1) assms(2) h0])
    have a: "ancestor h p (nat ?P) = Some q"
      using q(1) GetAncestor_ancestor [OF d(1) assms(2), of "nHeight b - ?P"] h0 by simp
    show ?thesis
    proof (rule that [of "Some q"])
      have "(nHeight c + 1) mod ?P = (nHeight b + 1) mod ?P"
        unfolding q(3) by (metis add.commute add_diff_eq minus_mod_self2)
      then show "period_point h ck (Some q)" using assms(3) q(2) by (simp add: period_point_def)
      have "periods ck c = nat ((nHeight b - ?P + 1) div ?P)" by (simp add: periods_def q(3))
      then show "state_at h ck (Some p) = bip9_next h ck p (state_at h ck (Some q))"
        using per by (simp add: state_at_def assms(2) q(2) a)
    qed (use q in auto)
  qed
qed

text \<open>The early exit of the walk: before the start time every state is \<open>DEFINED\<close>.\<close>

lemma state_at_early:
  assumes "deployment_ok h ck" "h p = Some b" "(nHeight b + 1) mod Period ck = 0" "mtp h p < BeginTime ck"
  shows "state_at h ck (Some p) = DEFINED"
  using assms(2-)
proof (induction "nat (nHeight b)" arbitrary: p b rule: less_induct)
  case less
  note d = deployment_okD [OF assms(1)]
  obtain x where x: "period_point h ck x" "state_at h ck (Some p) = bip9_next h ck p (state_at h ck x)"
      "\<And>q. x = Some q \<Longrightarrow> \<exists>c. h q = Some c \<and> nHeight c = nHeight b - Period ck \<and> is_ancestor h q p"
    by (rule prev_period [OF assms(1) less.prems(1,2)]) blast
  have "state_at h ck x = DEFINED"
  proof (cases x)
    case None
    then show ?thesis by (simp add: state_at_def)
  next
    case (Some q)
    obtain c where c: "h q = Some c" "nHeight c = nHeight b - Period ck" "is_ancestor h q p"
      using x(3) [OF Some] by blast
    have "0 \<le> nHeight c" by (rule index_okD(1) [OF d(1) c(1)])
    then have lt: "nat (nHeight c) < nat (nHeight b)" using c(2) d(3) by simp
    have m: "(nHeight c + 1) mod Period ck = 0" using x(1) Some c(1) by (simp add: period_point_def)
    have "mtp h q \<le> mtp h p" using c(3) mtp_ancestor [OF d(1,2) less.prems(1)] by (auto simp: is_ancestor_def)
    then have "mtp h q < BeginTime ck" using less.prems(3) by simp
    from less.hyps [OF lt c(1) m this] show ?thesis by (simp add: Some)
  qed
  then show ?case using x(2) less.prems(3) d(4) by (simp add: bip9_next_def)
qed

text \<open>\<open>steps h ck y v x\<close>: the blocks of \<open>v\<close> are the period ends after \<open>y\<close> up to \<open>x\<close>.\<close>

primrec steps :: "index_heap \<Rightarrow> threshold_checker \<Rightarrow> addr option \<Rightarrow> addr list \<Rightarrow> addr option \<Rightarrow> bool" where
  "steps h ck y [] x \<longleftrightarrow> y = x"
| "steps h ck y (p # v) x \<longleftrightarrow>
     (\<forall>s. next_state h ck p s = Inr (bip9_next h ck p s)) \<and>
     state_at h ck (Some p) = bip9_next h ck p (state_at h ck y) \<and> steps h ck (Some p) v x"

lemma steps_snoc:
  "steps h ck y v x \<Longrightarrow> (\<forall>s. next_state h ck p s = Inr (bip9_next h ck p s)) \<Longrightarrow>
     state_at h ck (Some p) = bip9_next h ck p (state_at h ck x) \<Longrightarrow> steps h ck y (v @ [p]) (Some p)"
  by (induction v arbitrary: y) auto

lemma walk_forward_spec:
  "steps h ck y v x \<Longrightarrow> cache_ok h ck cache \<Longrightarrow>
     \<exists>cache'. walk_forward h ck v (state_at h ck y) cache = Inr (state_at h ck x, cache') \<and> cache_ok h ck cache'"
proof (induction v arbitrary: y cache)
  case (Cons p v)
  have "cache_ok h ck (cache(Some p \<mapsto> state_at h ck (Some p)))"
    using Cons.prems(2) by (simp add: cache_ok_def)
  then obtain cache' where "walk_forward h ck v (state_at h ck (Some p)) (cache(Some p \<mapsto> state_at h ck (Some p))) =
      Inr (state_at h ck x, cache')" "cache_ok h ck cache'"
    using Cons.IH [of "Some p"] Cons.prems(1) by auto
  then show ?case using Cons.prems(1) by simp
qed simp

definition walk_done :: "index_heap \<Rightarrow> threshold_checker \<Rightarrow> ThresholdConditionCache \<Rightarrow> addr option \<Rightarrow> addr list \<Rightarrow> addr option \<Rightarrow> bool" where
  "walk_done h ck cache y v x \<longleftrightarrow> cache_ok h ck cache \<and> cache y = Some (state_at h ck y) \<and> steps h ck y v x"

lemma walk_back_stop:
  assumes "cache_ok h ck cache" "cache x = None \<longrightarrow> state_at h ck x = DEFINED"
  shows "walk_done h ck (if cache x = None then cache(x \<mapsto> DEFINED) else cache) x [] x"
  using assms by (auto simp: walk_done_def cache_ok_def)

lemma walk_back_spec:
  assumes "deployment_ok h ck" "cache_ok h ck cache" "h p = Some b" "(nHeight b + 1) mod Period ck = 0"
  shows "\<exists>cache' y v'. walk_back h ck cache (Some p) v = Some (Inr (cache', y, v' @ v)) \<and>
    walk_done h ck cache' y v' (Some p)"
  using assms(3,4)
proof (induction "nat (nHeight b)" arbitrary: p b v rule: less_induct)
  case less
  note d = deployment_okD [OF assms(1)]
  note mt = GetMedianTimePast_mtp [OF d(1) less.prems(1)]
  show ?case
  proof (cases "cache (Some p) \<noteq> None")
    case True
    then show ?thesis using walk_back_stop [OF assms(2), of "Some p"] by (subst walk_back.simps) auto
  next
    case nc: False
    show ?thesis
    proof (cases "mtp h p < BeginTime ck")
      case True
      have "walk_back h ck cache (Some p) v = Some (Inr (cache(Some p \<mapsto> DEFINED), Some p, [] @ v))"
        using True nc less.prems(1) mt by (subst walk_back.simps) (simp add: deref_def)
      moreover have "walk_done h ck (cache(Some p \<mapsto> DEFINED)) (Some p) [] (Some p)"
        using walk_back_stop [OF assms(2), of "Some p"] state_at_early [OF assms(1) less.prems True] nc by simp
      ultimately show ?thesis by blast
    next
      case False
      obtain x where x: "GetAncestor h p (nHeight b - Period ck) = Inr x" "period_point h ck x"
          "state_at h ck (Some p) = bip9_next h ck p (state_at h ck x)"
          "\<And>q. x = Some q \<Longrightarrow> \<exists>c. h q = Some c \<and> nHeight c = nHeight b - Period ck \<and> is_ancestor h q p"
        by (rule prev_period [OF assms(1) less.prems]) blast
      have w: "walk_back h ck cache (Some p) v = walk_back h ck cache x (p # v)"
        using False nc less.prems(1) mt x(1) by (subst walk_back.simps) (simp add: deref_def)
      have "\<exists>cache' y v'. walk_back h ck cache x (p # v) = Some (Inr (cache', y, v' @ p # v)) \<and>
          walk_done h ck cache' y v' x"
      proof (cases x)
        case None
        have "walk_back h ck cache None (p # v) =
            Some (Inr (if cache None = None then cache(None \<mapsto> DEFINED) else cache, None, [] @ p # v))"
          by (subst walk_back.simps) simp
        moreover have "walk_done h ck (if cache None = None then cache(None \<mapsto> DEFINED) else cache) None [] None"
          by (rule walk_back_stop [OF assms(2)]) (simp add: state_at_def)
        ultimately show ?thesis unfolding None by blast
      next
        case (Some q)
        obtain c where c: "h q = Some c" "nHeight c = nHeight b - Period ck" using x(4) [OF Some] by blast
        have "0 \<le> nHeight c" by (rule index_okD(1) [OF d(1) c(1)])
        then have lt: "nat (nHeight c) < nat (nHeight b)" using c(2) d(3) by simp
        have m: "(nHeight c + 1) mod Period ck = 0" using x(2) Some c(1) by (simp add: period_point_def)
        show ?thesis unfolding Some by (rule less.hyps [OF lt c(1) m])
      qed
      then obtain cache' y v' where r: "walk_back h ck cache x (p # v) = Some (Inr (cache', y, v' @ p # v))"
          "walk_done h ck cache' y v' x" by blast
      have "walk_done h ck cache' y (v' @ [p]) (Some p)"
        using r(2) steps_snoc [of h ck y v' x p] x(3) next_state_spec [OF assms(1) less.prems]
        by (simp add: walk_done_def)
      then show ?thesis using w r(1) by (intro exI [of _ cache'] exI [of _ y] exI [of _ "v' @ [p]"]) simp
    qed
  qed
qed

text \<open>The state of the block after \<open>p\<close>: that of the last completed period.\<close>

definition bip9_spec :: "index_heap \<Rightarrow> threshold_checker \<Rightarrow> addr \<Rightarrow> CBlockIndex \<Rightarrow> ThresholdState" where
  "bip9_spec h ck p b =
     bip9_state h ck (periods ck b) (ancestor h p (nat ((nHeight b + 1) mod Period ck)))"

lemma period_end_point:
  assumes "deployment_ok h ck" "h p = Some b"
  obtains x where "period_end h (Period ck) p = Inr x" "state_at h ck x = bip9_spec h ck p b"
    "x = None \<or> (\<exists>q c. x = Some q \<and> h q = Some c \<and> (nHeight c + 1) mod Period ck = 0)"
proof -
  note d = deployment_okD [OF assms(1)]
  let ?P = "Period ck" and ?n = "nHeight b"
  let ?r = "(?n + 1) mod ?P"
  have nn: "0 \<le> ?n" by (rule index_okD(1) [OF d(1) assms(2)])
  have r: "0 \<le> ?r" "?r < ?P" using d(3) by simp_all
  have pe: "period_end h ?P p = GetAncestor h p (?n - ?r)"
    using d(3) assms(2) by (simp add: period_end_def deref_def)
  show ?thesis
  proof (cases "?n - ?r < 0")
    case True
    have rn: "?r \<le> ?n + 1" using nn d(3) by (intro zmod_le_nonneg_dividend) simp
    then have e: "?r = ?n + 1" using True by simp
    have "(?n + 1) div ?P = 0"
      using r(2) nn unfolding e by (intro div_pos_pos_trivial) simp_all
    then have "periods ck b = 0" by (simp add: periods_def)
    then show ?thesis
      using that [of None] True pe GetAncestor_ancestor [OF d(1) assms(2), of "?n - ?r"]
      by (simp add: state_at_def bip9_spec_def)
  next
    case False
    have h0: "0 \<le> ?n - ?r" "?n - ?r \<le> ?n" using False r by simp_all
    obtain q c where q: "GetAncestor h p (?n - ?r) = Inr (Some q)" "h q = Some c" "nHeight c = ?n - ?r"
      by (rule GetAncestor_cut [OF d(1) assms(2) h0])
    have a: "ancestor h p (nat ?r) = Some q"
      using q(1) GetAncestor_ancestor [OF d(1) assms(2), of "?n - ?r"] h0 by simp
    have e: "nHeight c + 1 = ?P * ((?n + 1) div ?P)"
      unfolding q(3) by (metis add_diff_eq add.commute minus_mod_eq_mult_div)
    have "(nHeight c + 1) div ?P = (?n + 1) div ?P" "(nHeight c + 1) mod ?P = 0"
      unfolding e using d(3) by simp_all
    then show ?thesis
      using that [of "Some q"] pe q a by (simp add: state_at_def bip9_spec_def periods_def)
  qed
qed

lemma GetStateFor_spec:
  assumes "deployment_ok h ck" "cache_ok h ck cache" "h p = Some b" "BeginTime ck \<noteq> ALWAYS_ACTIVE"
  shows "\<exists>cache'. GetStateFor h ck cache (Some p) = Some (Inr (bip9_spec h ck p b, cache')) \<and> cache_ok h ck cache'"
proof -
  obtain x where x: "period_end h (Period ck) p = Inr x" "state_at h ck x = bip9_spec h ck p b"
      "x = None \<or> (\<exists>q c. x = Some q \<and> h q = Some c \<and> (nHeight c + 1) mod Period ck = 0)"
    by (rule period_end_point [OF assms(1,3)])
  have "\<exists>cache' y v'. walk_back h ck cache x [] = Some (Inr (cache', y, v')) \<and> walk_done h ck cache' y v' x"
  proof (cases x)
    case None
    have "walk_back h ck cache None [] =
        Some (Inr (if cache None = None then cache(None \<mapsto> DEFINED) else cache, None, []))"
      by (subst walk_back.simps) simp
    moreover have "walk_done h ck (if cache None = None then cache(None \<mapsto> DEFINED) else cache) None [] None"
      by (rule walk_back_stop [OF assms(2)]) (simp add: state_at_def)
    ultimately show ?thesis unfolding None by blast
  next
    case (Some q)
    then obtain c where "h q = Some c" "(nHeight c + 1) mod Period ck = 0" using x(3) by auto
    from walk_back_spec [OF assms(1,2) this, of "[]"] show ?thesis by (simp add: Some)
  qed
  then obtain cache' y v' where w: "walk_back h ck cache x [] = Some (Inr (cache', y, v'))"
      "walk_done h ck cache' y v' x" by blast
  obtain cache'' where "walk_forward h ck v' (state_at h ck y) cache' = Inr (state_at h ck x, cache'')"
      "cache_ok h ck cache''"
    using walk_forward_spec [of h ck y v' x cache'] w(2) by (auto simp: walk_done_def)
  then show ?thesis
    using w x(1,2) assms(4) by (simp add: GetStateFor_def walk_done_def)
qed

section \<open>Activation\<close>












section \<open>Properties\<close>

text \<open>
  C11: on a well-formed index whose blocks are later than the median time before them, and for a deployment with
  a positive period and a start not after its timeout, \<open>GetStateFor\<close> returns the state of the plain state
  machine, which steps through every period from the first one: neither the cache (if its entries are right,
  which the call keeps) nor the early exit at blocks before the start time changes the result.
\<close>

theorem GetStateFor_bip9:
  assumes "deployment_ok h ck" "cache_ok h ck cache" "h p = Some b" "BeginTime ck \<noteq> ALWAYS_ACTIVE"
  shows "\<exists>cache'. GetStateFor h ck cache (Some p) =
      Some (Inr (bip9_state h ck (periods ck b) (ancestor h p (nat ((nHeight b + 1) mod Period ck))), cache')) \<and>
    cache_ok h ck cache'"
  using GetStateFor_spec [OF assms] by (simp add: bip9_spec_def)


definition sample_chain :: index_heap where
  "sample_chain =
     (let g = CBlockIndex_of CBlockHeader_null
      in [0 \<mapsto> g\<lparr>bi_nTime := 1000\<rparr>,
          1 \<mapsto> g\<lparr>pprev := Some 0, nHeight := 1, bi_nTime := 1001, bi_nVersion := 0x20000001\<rparr>,
          2 \<mapsto> g\<lparr>pprev := Some 1, nHeight := 2, bi_nTime := 1002\<rparr>])"

definition sample_params :: vb_params where
  "sample_params =
     \<lparr>nRuleChangeActivationThreshold = 1, nMinerConfirmationWindow = 1,
      vDeployments = \<lambda>_. \<lparr>dep_bit = 0, nStartTime = 10, nTimeout = 5000\<rparr>\<rparr>"

lemma eleven: "11 = Suc (Suc (Suc (Suc (Suc (Suc (Suc (Suc (Suc (Suc (Suc 0))))))))))"
  by simp

lemma sample_chain_mtp:
  "mtp sample_chain 0 = 1000" "mtp sample_chain 1 = 1001" "mtp sample_chain 2 = 1001"
  by (simp_all add: mtp_def GetMedianTimePast_def sample_chain_def Let_def deref_def CBlockIndex_of_def eleven)

lemma sample_checker:
  "Period (VersionBitsConditionChecker sample_params pos) = 1"
  "Threshold (VersionBitsConditionChecker sample_params pos) = 1"
  "BeginTime (VersionBitsConditionChecker sample_params pos) = 10"
  "EndTime (VersionBitsConditionChecker sample_params pos) = 5000"
  by (simp_all add: VersionBitsConditionChecker_def sample_params_def)

lemma sample_deployment: "deployment_ok sample_chain (VersionBitsConditionChecker sample_params pos)"
proof -
  have "index_ok sample_chain"
    by (auto simp: index_ok_def sample_chain_def Let_def CBlockIndex_of_def prev_ok_def skip_ok_def split: if_splits)
  moreover have "time_rule sample_chain"
    using sample_chain_mtp unfolding time_rule_def
    by (auto simp: sample_chain_def Let_def CBlockIndex_of_def split: if_splits)
  ultimately show ?thesis by (simp add: deployment_ok_def sample_checker)
qed


theorem GetStateFor_bip9_witness:
  "\<exists>cache'. GetStateFor sample_chain (VersionBitsConditionChecker sample_params DEPLOYMENT_CSV) Map.empty (Some 0) =
     Some (Inr (STARTED, cache'))"
proof -
  let ?ck = "VersionBitsConditionChecker sample_params DEPLOYMENT_CSV"
  let ?b = "the (sample_chain 0)"
  have b: "sample_chain 0 = Some ?b" by (simp add: sample_chain_def Let_def)
  have p: "periods ?ck ?b = Suc 0"
    by (simp add: periods_def sample_checker sample_chain_def Let_def CBlockIndex_of_def)
  have "cache_ok sample_chain ?ck Map.empty" "BeginTime ?ck \<noteq> - 1" by (simp_all add: cache_ok_def sample_checker)
  from GetStateFor_bip9 [OF sample_deployment this(1) b this(2)] show ?thesis
    by (auto simp: p sample_checker bip9_next_def sample_chain_mtp)
qed


end
