(* ===== verification/Spec2Isabelle.thy ===== *)
theory Spec2Isabelle
  imports SoftFork UtxoUpdate Standard ArithUint Chain TxVerify VersionBits
begin

text \<open>
  Verification of the consensus core of the Artax node, a full node derived from Bitcoin Core 0.17 and Qtum.

  The program.  A node receives headers, blocks and transactions as bytes.  It keeps the headers in a tree
  (\<open>src/src/chain.h\<close>), the unspent outputs in a stack of caches over a database (\<open>src/src/coins.h\<close>), and
  accepts a transaction if it is well formed, spends existing outputs of sufficient value
  (\<open>src/src/consensus/tx_verify.cpp\<close>), and if every input satisfies the script of the output it spends
  (\<open>src/src/script/interpreter.cpp\<close>).  Scripts run on a stack machine and check signatures of digests of the
  transaction.  Connecting a block applies its transactions to the unspent outputs, disconnecting it undoes that
  (\<open>src/src/validation.cpp\<close>).  Rule changes are activated by signals in block versions
  (\<open>src/src/versionbits.cpp\<close>).

  The theories, in the order of their imports.

  \<^item> \<open>Prelude\<close>: word and byte types, results of code that may throw (\<open>bindE\<close>), little-endian numbers, and the
    lemmas on lists and words that the components share.
  \<^item> \<open>Serialize\<close> (\<open>serialize.h\<close>, \<open>streams.h\<close>, \<open>crypto/common.h\<close>): a reader is a function from the bytes to an
    error or a result with the remaining bytes.  The locale \<open>codec\<close> is the contract of a serialiser (what is
    written is read back), \<open>canonical_codec\<close> adds that nothing else is accepted; both are interpreted for every
    format of the development, and pass to vectors once and for all.
  \<^item> \<open>ScriptNum\<close>, \<open>Script\<close> (\<open>script/script.h\<close>, \<open>script/script.cpp\<close>): the numbers of the stack machine, the
    instruction reader, pushes, the forms of outputs and the signature operation counts.  Printing and parsing
    operations are inverse.
  \<^item> \<open>PubKey\<close>, \<open>SigEncoding\<close> (\<open>pubkey.h\<close>, \<open>pubkey.cpp\<close>, \<open>script/interpreter.cpp\<close>): sizes and encodings of keys
    and signatures, and the permissive DER parser, which is related to the strict format.
  \<^item> \<open>HashEngine\<close>, \<open>Hashes\<close> (\<open>crypto/sha256.cpp\<close>, \<open>crypto/sha1.cpp\<close>, \<open>crypto/ripemd160.cpp\<close>, \<open>hash.h\<close>): the
    compression functions and the buffered \<open>Write\<close> and \<open>Finalize\<close>.  The locale \<open>incremental_hash\<close> states that
    feeding a message in pieces gives the digest of the whole, and is interpreted for each hasher.
  \<^item> \<open>Interpreter\<close>, \<open>EvalProps\<close> (\<open>script/interpreter.cpp\<close>): every opcode of \<open>EvalScript\<close> as a step on a record of
    the stacks, and the loop over the script.  The lemmas give the limits every reachable state respects, what a
    successful run has checked, and that the loop of \<open>OP_CHECKMULTISIG\<close> decides an ordered matching.
  \<^item> \<open>Transaction\<close> (\<open>primitives/transaction.h\<close>, \<open>primitives/transaction.cpp\<close>): the two transaction formats, their
    round trips and identifiers.
  \<^item> \<open>SigHash\<close> (\<open>script/interpreter.cpp\<close>): the digests that are signed.  They commit to what their hash type
    covers and to nothing else, and the cached digests equal the direct ones.
  \<^item> \<open>VerifyScript\<close>, \<open>SoftFork\<close> (\<open>script/interpreter.cpp\<close>): spends of every output form, and that more
    verification flags never accept more.
  \<^item> \<open>Standard\<close> (\<open>script/standard.cpp\<close>): the templates of outputs, with those of contracts, and destinations.
  \<^item> \<open>Coins\<close>, \<open>UtxoUpdate\<close> (\<open>coins.h\<close>, \<open>coins.cpp\<close>, \<open>txdb.cpp\<close>, \<open>validation.cpp\<close>): the stack of coin caches
    refines one map from outpoints to coins.  The locale \<open>coins_view\<close> is the contract that the code around it
    uses; it is interpreted on the caches, and the updates of connecting and disconnecting a block are proved from
    it to be inverse.
  \<^item> \<open>ArithUint\<close> (\<open>arith_uint256.h\<close>, \<open>arith_uint256.cpp\<close>): numbers of 256 bits as arrays of words implement
    arithmetic modulo \<open>2 ^ 256\<close>; the compact form of targets.
  \<^item> \<open>Block\<close>, \<open>Chain\<close> (\<open>primitives/block.h\<close>, \<open>chain.h\<close>, \<open>chain.cpp\<close>, \<open>validation.cpp\<close>): headers, the index
    entries in a heap of addresses, and \<open>AddToBlockIndex\<close>.  The states that headers can lead to are the inductive
    predicate \<open>index_reachable\<close>; in all of them the index is well formed, the skip pointers lead where the plain
    walk leads, and the loops over the tree end with the right result.
  \<^item> \<open>TxVerify\<close> (\<open>consensus/tx_verify.cpp\<close>): what a checked transaction satisfies, that it can be connected and
    creates no money, and that locks demanded by scripts are enforced by the rules for blocks.
  \<^item> \<open>VersionBits\<close> (\<open>versionbits.cpp\<close>): the cached computation of a deployment's state equals the plain state
    machine, and a deployment that is signalled becomes active.

  Conventions.  A \<open>record\<close> is a class of the code, a \<open>datatype\<close> an enumeration or a set of exceptions; an
  operation that throws, asserts or rejects returns a sum with the error on the left.  Machine integers are words
  where they can wrap; amounts and heights, which the code keeps in range by checks, are integers.

  Bounds and termination.  Loops over bytes and lists are structural or have a termination proof.  The loop of
  \<open>AccessByTxid\<close> runs for at most \<open>MAX_OUTPUTS_PER_BLOCK\<close> turns, as in the code.  Loops along the pointers of the
  block index (\<open>SetTip\<close>, \<open>FindFork\<close>, \<open>LastCommonAncestor\<close>, the walk of \<open>GetStateFor\<close>) are partial functions
  into \<open>option\<close>, and are proved to return.  The walk of \<open>GetAncestor\<close> terminates on every heap.

  Parameters.  The operations of the elliptic curve library are a record of functions.  The size limits set by
  governance contracts are an argument of \<open>CheckTransaction\<close>.

  Not modelled.  Contract execution and its state (\<open>src/src/xax\<close>): every step calls the virtual machine of a
  library whose source is not part of the tree.  Network, storage engines, wallet, remote calls, mining and fee
  policy: input and output, threads, or policy that no consensus rule depends on.  The vectorised SHA-256 variants:
  their intrinsics have no counterpart here.  In \<open>validation.cpp\<close>, block storage, chain selection and the memory
  pool: they are interleaved with files, signals to other threads and contract execution.
\<close>

section \<open>The wire encoding of lengths\<close>

lemma CompactSize_roundtrip:
  "n \<le> MAX_SIZE \<Longrightarrow> ReadCompactSize (WriteCompactSize n @ rest) = Inr (n, rest)"
  by (rule cs.unser_ser)

end
